(* ===== verification/Edriel_Prelude.thy ===== *)
theory Edriel_Prelude
  imports Main "HOL-Library.Word" "HOL-Library.Char_ord" "HOL-Library.List_Lexorder"
    "HOL-Library.Product_Lexorder"
begin

text \<open>
  Shared vocabulary of the development: the machine integers of the C++ code, ordered
  association lists standing for \<open>std::map\<close> and \<open>std::set\<close>, the reachable states of a
  step relation, and the generic facts about them that the component theories use.
\<close>

section \<open>Machine integers\<close>

type_synonym u8 = "8 word"
type_synonym u16 = "16 word"
type_synonym u32 = "32 word"
type_synonym u64 = "64 word"
type_synonym bytes = "u8 list"

lemma unat_of_nat_u64: "n < 2 ^ 64 \<Longrightarrow> unat (of_nat n :: u64) = n"
  by (simp add: unat_of_nat take_bit_nat_eq_self)

lemma unat_u64_bound: "unat (x :: u64) < 2 ^ 64"
  using unsigned_less [of x] by simp

lemma unat_u32_bound: "unat (x :: u32) < 2 ^ 32"
  using unsigned_less [of x] by simp

lemma unat_plus_u64:
  "unat x + unat y < 2 ^ 64 \<Longrightarrow> unat (x + y :: u64) = unat x + unat y"
  by (simp add: unat_word_ariths)

lemma unat_plus_nat_u64:
  "unat x + n < 2 ^ 64 \<Longrightarrow> unat (x + of_nat n :: u64) = unat x + n"
  by (simp add: unat_word_ariths unat_of_nat take_bit_nat_eq_self mod_simps)

lemma unat_Suc_u64: "x \<noteq> - 1 \<Longrightarrow> unat (x + 1 :: u64) = Suc (unat x)"
  using unatSuc [of x] by (auto simp: add.commute eq_neg_iff_add_eq_0)

lemma unat_minus_u64: "y \<le> x \<Longrightarrow> unat (x - y :: u64) = unat x - unat y"
  by (simp add: unat_sub word_le_nat_alt)

lemma one_le_u64 [simp]: "1 \<le> (x :: u64) \<longleftrightarrow> x \<noteq> 0"
  by (simp add: word_le_nat_alt Suc_le_eq unat_gt_0)

lemma mod_plus_inj:
  fixes c :: nat
  assumes "i < c" "j < c" "(t + i) mod c = (t + j) mod c"
  shows "i = j"
proof (cases "i \<le> j")
  case True
  then have "c dvd j - i" using assms(3) mod_eq_dvd_iff_nat [of "t + i" "t + j" c] by simp
  then show ?thesis using assms(2) True by (auto dest: dvd_imp_le)
next
  case False
  then have "c dvd i - j" using assms(3) mod_eq_dvd_iff_nat [of "t + j" "t + i" c] by simp
  then show ?thesis using assms(1) False by (auto dest: dvd_imp_le)
qed

section \<open>Ordered maps\<close>

text \<open>
  \<open>std::map\<close> and \<open>std::set\<close> iterate in ascending key order, and the code relies on that
  order (the reorder buffer is flushed from its smallest sequence number). A map is an
  association list in strictly ascending key order; \<open>om_put\<close> is \<open>m[k] = v\<close>,
  \<open>om_emplace\<close> is \<open>m.emplace(k, v)\<close>, which keeps an existing entry.
\<close>

type_synonym ('k, 'v) omap = "('k \<times> 'v) list"

definition om_ok :: "('k::linorder, 'v) omap \<Rightarrow> bool" where
  "om_ok m \<longleftrightarrow> sorted_wrt (<) (map fst m)"

fun om_put :: "'k::linorder \<Rightarrow> 'v \<Rightarrow> ('k, 'v) omap \<Rightarrow> ('k, 'v) omap" where
  "om_put k v [] = [(k, v)]"
| "om_put k v ((k', v') # m) =
     (if k < k' then (k, v) # (k', v') # m
      else if k = k' then (k, v) # m
      else (k', v') # om_put k v m)"

definition om_emplace :: "'k::linorder \<Rightarrow> 'v \<Rightarrow> ('k, 'v) omap \<Rightarrow> ('k, 'v) omap" where
  "om_emplace k v m = (if map_of m k = None then om_put k v m else m)"

definition om_erase :: "'k \<Rightarrow> ('k, 'v) omap \<Rightarrow> ('k, 'v) omap" where
  "om_erase k m = filter (\<lambda>kv. fst kv \<noteq> k) m"

lemma om_ok_Nil [simp]: "om_ok []"
  by (simp add: om_ok_def)

lemma om_ok_Cons [simp]:
  "om_ok ((k, v) # m) \<longleftrightarrow> (\<forall>k' \<in> fst ` set m. k < k') \<and> om_ok m"
  by (auto simp: om_ok_def)

lemma map_of_om_put [simp]: "map_of (om_put k v m) = (map_of m)(k \<mapsto> v)"
  by (induction k v m rule: om_put.induct) (auto simp: fun_eq_iff)

lemma fst_set_om_put [simp]: "fst ` set (om_put k v m) = insert k (fst ` set m)"
  by (induction k v m rule: om_put.induct) auto

lemma om_ok_put [simp, intro]: "om_ok m \<Longrightarrow> om_ok (om_put k v m)"
  by (induction k v m rule: om_put.induct) fastforce+

lemma om_ok_emplace [simp, intro]: "om_ok m \<Longrightarrow> om_ok (om_emplace k v m)"
  by (simp add: om_emplace_def)

lemma map_of_om_emplace [simp]:
  "map_of (om_emplace k v m) = (if map_of m k = None then (map_of m)(k \<mapsto> v) else map_of m)"
  by (simp add: om_emplace_def)

lemma om_ok_filter [simp, intro]: "om_ok m \<Longrightarrow> om_ok (filter P m)"
  by (simp add: om_ok_def sorted_wrt_map sorted_wrt_filter)

lemma om_ok_map_values [simp]: "om_ok (map (\<lambda>(k, v). (k, f k v)) m) = om_ok m"
  by (simp add: om_ok_def comp_def case_prod_beta)

lemma om_ok_erase [simp, intro]: "om_ok m \<Longrightarrow> om_ok (om_erase k m)"
  by (simp add: om_erase_def)

lemma map_of_om_erase [simp]: "map_of (om_erase k m) = (map_of m)(k := None)"
  by (induction m) (auto simp: om_erase_def fun_eq_iff)

lemma om_ok_distinct: "om_ok m \<Longrightarrow> distinct (map fst m)"
  by (induction m) fastforce+

lemma map_of_filter_om:
  "om_ok m \<Longrightarrow>
   map_of (filter (\<lambda>(k, v). P k v) m) k =
     (case map_of m k of None \<Rightarrow> None | Some v \<Rightarrow> if P k v then Some v else None)"
proof (cases "map_of m k")
  case None
  then have "k \<notin> fst ` set (filter (\<lambda>(k, v). P k v) m)"
    by (auto simp: map_of_eq_None_iff)
  then have "map_of (filter (\<lambda>(k, v). P k v) m) k = None"
    by (simp only: map_of_eq_None_iff not_False_eq_True)
  with None show ?thesis by simp
next
  case (Some v)
  assume ok: "om_ok m"
  have "(k, v) \<in> set m" using Some by (rule map_of_SomeD)
  then have *: "P k v \<Longrightarrow> map_of (filter (\<lambda>(k, v). P k v) m) k = Some v"
    using om_ok_distinct [OF om_ok_filter [OF ok]] by (simp add: map_of_eq_Some_iff)
  have "k \<notin> fst ` set (filter (\<lambda>(k, v). P k v) m)" if "\<not> P k v"
    using that by (auto dest: eq_key_imp_eq_value [OF om_ok_distinct [OF ok] _ \<open>(k, v) \<in> set m\<close>])
  then have "\<not> P k v \<Longrightarrow> map_of (filter (\<lambda>(k, v). P k v) m) k = None"
    by (simp only: map_of_eq_None_iff not_False_eq_True)
  with * Some show ?thesis by auto
qed

lemma length_om_put:
  "length (om_put k v m) = (if map_of m k = None then Suc (length m) else length m)"
  if "om_ok m"
  using that by (induction k v m rule: om_put.induct)
    (auto simp: map_of_eq_None_iff split: option.splits)

lemma set_om_put_fresh:
  "map_of m k = None \<Longrightarrow> set (om_put k v m) = insert (k, v) (set m)"
  by (induction k v m rule: om_put.induct) (auto split: if_splits)

section \<open>Reachable states\<close>

text \<open>
  Concurrent code is a step relation whose steps are the critical sections of the code.
  \<open>reach\<close> closes a set of initial states under it; the locale states once what an
  inductive invariant gives.
\<close>

inductive reach :: "('s \<Rightarrow> bool) \<Rightarrow> ('s \<Rightarrow> 's \<Rightarrow> bool) \<Rightarrow> 's \<Rightarrow> bool"
  for init :: "'s \<Rightarrow> bool" and step :: "'s \<Rightarrow> 's \<Rightarrow> bool" where
  reach_init: "init s \<Longrightarrow> reach init step s"
| reach_step: "reach init step s \<Longrightarrow> step s t \<Longrightarrow> reach init step t"

locale invariant_system =
  fixes init :: "'s \<Rightarrow> bool"
    and step :: "'s \<Rightarrow> 's \<Rightarrow> bool"
    and inv :: "'s \<Rightarrow> bool"
  assumes inv_init: "init s \<Longrightarrow> inv s"
    and inv_step: "inv s \<Longrightarrow> step s t \<Longrightarrow> inv t"
begin

lemma reach_inv: "reach init step s \<Longrightarrow> inv s"
  by (induction rule: reach.induct) (auto intro: inv_init inv_step)

lemma reach_inv_step: "reach init step s \<Longrightarrow> step s t \<Longrightarrow> inv t"
  using reach_inv inv_step by blast

end

section \<open>Prefixes\<close>

text \<open>\<open>s.rfind(prefix, 0) == 0\<close>: the idiom the code uses for "starts with".\<close>

fun starts_with :: "'a list \<Rightarrow> 'a list \<Rightarrow> bool" where
  "starts_with [] ys = True"
| "starts_with (x # xs) [] = False"
| "starts_with (x # xs) (y # ys) = (x = y \<and> starts_with xs ys)"

lemma starts_with_append [simp]: "starts_with xs (xs @ ys)"
  by (induction xs) auto

lemma starts_with_iff: "starts_with xs ys \<longleftrightarrow> (\<exists>zs. ys = xs @ zs)"
  by (induction xs ys rule: starts_with.induct) auto

text \<open>Two splits of one list at the first or the last separator agree.\<close>

lemma split_at_first_sep:
  "c \<notin> set as \<Longrightarrow> c \<notin> set as' \<Longrightarrow> as @ c # bs = as' @ c # bs' \<Longrightarrow> as = as' \<and> bs = bs'"
proof (induction as arbitrary: as')
  case Nil
  then show ?case by (cases as') auto
next
  case (Cons a as)
  then show ?case by (cases as') auto
qed

lemma split_at_last_sep:
  assumes "c \<notin> set bs" "c \<notin> set bs'" "as @ c # bs = as' @ c # bs'"
  shows "as = as' \<and> bs = bs'"
proof -
  have "rev bs @ c # rev as = rev bs' @ c # rev as'"
    using assms(3) by (metis append.assoc append_Cons append_Nil rev.simps(2) rev_append)
  then show ?thesis
    using split_at_first_sep [of c "rev bs" "rev bs'"] assms(1,2) by auto
qed

end
