(* ===== verification/Edriel_Std.thy ===== *)
theory Edriel_Std
  imports Edriel_Prelude
begin

text \<open>
  The parts of the C++ standard library the program computes with: \<open>std::to_string\<close> on
  unsigned integers, \<open>std::from_chars\<close> on unsigned integers in base 10, and the facts that
  connect the two.
\<close>

section \<open>Decimal digits\<close>

definition digit_char :: "nat \<Rightarrow> char" where
  "digit_char d = char_of (48 + d)"

definition is_digit :: "char \<Rightarrow> bool" where
  "is_digit c \<longleftrightarrow> 48 \<le> (of_char c :: nat) \<and> (of_char c :: nat) \<le> 57"

definition digit_val :: "char \<Rightarrow> nat" where
  "digit_val c = of_char c - 48"

definition digits_val :: "string \<Rightarrow> nat" where
  "digits_val ds = foldl (\<lambda>a c. 10 * a + digit_val c) 0 ds"

text \<open>\<open>std::to_string\<close> of an unsigned integer.\<close>

fun to_string :: "nat \<Rightarrow> string" where
  "to_string n =
     (if n < 10 then [digit_char n] else to_string (n div 10) @ [digit_char (n mod 10)])"

declare to_string.simps [simp del]

lemma of_char_digit [simp]: "d < 10 \<Longrightarrow> (of_char (digit_char d) :: nat) = 48 + d"
  by (simp add: digit_char_def)

lemma is_digit_digit_char [simp]: "d < 10 \<Longrightarrow> is_digit (digit_char d)"
  by (simp add: is_digit_def)

lemma digit_val_digit_char [simp]: "d < 10 \<Longrightarrow> digit_val (digit_char d) = d"
  by (simp add: digit_val_def)

lemma digits_val_append [simp]:
  "digits_val (ds @ [c]) = 10 * digits_val ds + digit_val c"
  by (simp add: digits_val_def)

lemma to_string_digits: "c \<in> set (to_string n) \<Longrightarrow> is_digit c"
proof (induction n rule: to_string.induct)
  case (1 n)
  then show ?case by (subst (asm) (2) to_string.simps) (auto split: if_splits)
qed

lemma to_string_ne: "to_string n \<noteq> []"
  by (subst to_string.simps) simp

lemma digits_val_to_string [simp]: "digits_val (to_string n) = n"
proof (induction n rule: to_string.induct)
  case (1 n)
  show ?case
  proof (cases "n < 10")
    case True
    then show ?thesis by (subst to_string.simps) (simp add: digits_val_def)
  next
    case False
    with 1 show ?thesis by (subst to_string.simps) simp
  qed
qed

lemma to_string_inj [simp]: "to_string m = to_string n \<longleftrightarrow> m = n"
  by (metis digits_val_to_string)

lemma not_digit_notin_to_string: "\<not> is_digit c \<Longrightarrow> c \<notin> set (to_string n)"
  using to_string_digits by blast

section \<open>\<open>std::from_chars\<close>\<close>

text \<open>
  \<open>from_chars\<close> on an unsigned type of the given width reads the longest run of digits: no
  sign, no white space. It returns the parsed value (left at the caller's 0 on an error),
  the unread rest (the \<open>ptr\<close>) and the error code.
\<close>

datatype errc = Errc_ok | Errc_invalid_argument | Errc_result_out_of_range

definition from_chars :: "nat \<Rightarrow> string \<Rightarrow> nat \<times> string \<times> errc" where
  "from_chars bits s =
     (let ds = takeWhile is_digit s; rest = dropWhile is_digit s in
      if ds = [] then (0, s, Errc_invalid_argument)
      else if digits_val ds < 2 ^ bits then (digits_val ds, rest, Errc_ok)
      else (0, rest, Errc_result_out_of_range))"

text \<open>
  Every parser of the configuration uses it the same way: the whole text must be one
  number (\<open>ec == errc{} && ptr == end\<close>).
\<close>

definition strict_uint :: "nat \<Rightarrow> string \<Rightarrow> nat option" where
  "strict_uint bits s =
     (case from_chars bits s of (v, rest, ec) \<Rightarrow>
        if ec \<noteq> Errc_ok \<or> rest \<noteq> [] then None else Some v)"

lemma takeWhile_all_digits:
  "(\<forall>c \<in> set s. is_digit c) \<Longrightarrow> takeWhile is_digit s = s"
  "(\<forall>c \<in> set s. is_digit c) \<Longrightarrow> dropWhile is_digit s = []"
  by (simp_all add: takeWhile_eq_all_conv dropWhile_eq_Nil_conv)

lemma strict_uint_iff:
  "strict_uint bits s = Some v \<longleftrightarrow>
   s \<noteq> [] \<and> (\<forall>c \<in> set s. is_digit c) \<and> digits_val s = v \<and> v < 2 ^ bits"
proof (cases "\<forall>c \<in> set s. is_digit c")
  case True
  then show ?thesis
    by (auto simp: strict_uint_def from_chars_def Let_def takeWhile_all_digits split: if_splits)
next
  case False
  then have "dropWhile is_digit s \<noteq> []" by (simp add: dropWhile_eq_Nil_conv)
  with False show ?thesis by (auto simp: strict_uint_def from_chars_def Let_def split: if_splits)
qed

lemma strict_uint_bound: "strict_uint bits s = Some v \<Longrightarrow> v < 2 ^ bits"
  by (simp add: strict_uint_iff)

lemma strict_uint_to_string: "n < 2 ^ bits \<Longrightarrow> strict_uint bits (to_string n) = Some n"
  by (auto simp: strict_uint_iff to_string_ne dest: to_string_digits)

lemma strict_uint_empty [simp]: "strict_uint bits [] = None"
  by (simp add: strict_uint_def from_chars_def)

text \<open>Texts without a leading zero are exactly the ones \<open>to_string\<close> prints.\<close>

lemma digit_char_digit_val [simp]: "is_digit c \<Longrightarrow> digit_char (digit_val c) = c"
  by (simp add: digit_char_def digit_val_def is_digit_def)

lemma digit_val_less [simp]: "is_digit c \<Longrightarrow> digit_val c < 10"
  unfolding digit_val_def is_digit_def by linarith

lemma to_string_zero: "to_string 0 = ''0''"
  by code_simp

lemma to_string_digits_val:
  "ds \<noteq> [] \<Longrightarrow> \<forall>c \<in> set ds. is_digit c \<Longrightarrow> (1 < length ds \<longrightarrow> hd ds \<noteq> CHR ''0'') \<Longrightarrow>
   to_string (digits_val ds) = ds"
proof (induction ds rule: rev_induct)
  case (snoc c ds)
  have c: "is_digit c" using snoc.prems by simp
  show ?case
  proof (cases "ds = []")
    case True
    then show ?thesis using c by (simp add: digits_val_def to_string.simps)
  next
    case False
    then have IH: "to_string (digits_val ds) = ds" and hd: "hd ds \<noteq> CHR ''0''"
      using snoc by (auto simp: Suc_le_eq)
    have "digits_val ds \<noteq> 0"
      using IH hd to_string_zero by (metis list.sel(1))
    then show ?thesis
      using IH c digit_val_less [OF c] by (subst to_string.simps) simp
  qed
qed simp

lemma hd_to_string: "10 \<le> n \<Longrightarrow> hd (to_string n) \<noteq> CHR ''0''"
proof (induction n rule: to_string.induct)
  case (1 n)
  show ?case
  proof (cases "n < 100")
    case True
    have "\<not> n < 10" using "1.prems" by simp
    moreover have d: "0 < n div 10" "n div 10 < 10" using True "1.prems" by auto
    moreover have "digit_char (n div 10) \<noteq> CHR ''0''"
      using d of_char_digit [of "n div 10"] by (auto dest!: arg_cong [of _ _ "of_char :: char \<Rightarrow> nat"])
    ultimately show ?thesis by (subst to_string.simps, subst to_string.simps) simp
  next
    case False
    then have "hd (to_string (n div 10)) \<noteq> CHR ''0''" using 1 by simp
    with False show ?thesis by (subst to_string.simps) (simp add: to_string_ne)
  qed
qed

lemma length_to_string_255: "n \<le> 255 \<Longrightarrow> length (to_string n) \<le> 3"
  by (subst to_string.simps, subst to_string.simps, subst to_string.simps) auto

lemma to_string_one_zero: "1 < length (to_string n) \<Longrightarrow> hd (to_string n) \<noteq> CHR ''0''"
  by (rule hd_to_string) (subst (asm) to_string.simps, simp split: if_splits)

end
