(* ===== verification/Edriel_Keys.thy ===== *)
theory Edriel_Keys
  imports Edriel_Std
begin

text \<open>
  Identities and keys: the composite registry key and \<open>TopicInfo\<close> of \<open>Edriel.hpp\<close>, the
  FNV-1a hash with the shard index and the seed-peer identity of \<open>Edriel.cpp\<close>, and
  \<open>SubscriberKey\<close> of \<open>EdrielGrpcService.hpp\<close>.
\<close>

unbundle bit_operations_syntax

section \<open>Composite keys\<close>

definition kTopicKeySeparator :: char where
  "kTopicKeySeparator = CHR 0x1F"

definition makeCompositeKey :: "string \<Rightarrow> string \<Rightarrow> string" where
  "makeCompositeKey topicName messageType = topicName @ [kTopicKeySeparator] @ messageType"

record topic_info =
  ti_topicName :: string
  ti_messageType :: string
  ti_key :: string

definition TopicInfo :: "string \<Rightarrow> string \<Rightarrow> topic_info" where
  "TopicInfo topicName messageType =
     \<lparr>ti_topicName = topicName, ti_messageType = messageType,
      ti_key = makeCompositeKey topicName messageType\<rparr>"

section \<open>Identity of a dialing subscriber\<close>

datatype SubscriberKey = SubscriberKey (sk_pid: u32) (sk_tid: u64) (sk_uid: u64)

text \<open>\<open>operator<\<close> compares \<open>std::tie(pid, tid, uid)\<close>, lexicographically.\<close>

definition subscriberKeyLess :: "SubscriberKey \<Rightarrow> SubscriberKey \<Rightarrow> bool" where
  "subscriberKeyLess a b \<longleftrightarrow> (sk_pid a, sk_tid a, sk_uid a) < (sk_pid b, sk_tid b, sk_uid b)"

instantiation SubscriberKey :: linorder
begin

definition less_SubscriberKey :: "SubscriberKey \<Rightarrow> SubscriberKey \<Rightarrow> bool" where
  "less_SubscriberKey = subscriberKeyLess"

definition less_eq_SubscriberKey :: "SubscriberKey \<Rightarrow> SubscriberKey \<Rightarrow> bool" where
  "less_eq_SubscriberKey a b \<longleftrightarrow> (sk_pid a, sk_tid a, sk_uid a) \<le> (sk_pid b, sk_tid b, sk_uid b)"

instance
  by standard (auto simp: less_SubscriberKey_def subscriberKeyLess_def less_eq_SubscriberKey_def intro: SubscriberKey.expand)

end

section \<open>Hashing\<close>

definition fnv1a64 :: "string \<Rightarrow> u64" where
  "fnv1a64 s =
     foldl (\<lambda>h c. (h XOR of_char c) * 1099511628211) 14695981039346656037 s"

text \<open>
  The identity of a static \<open>peers:\<close> seed: the low half of the shifted hash as process id,
  the hash rotated by 33 as unique id, both kept non-zero.
\<close>

definition peerKeyForEndpoint :: "string \<Rightarrow> SubscriberKey" where
  "peerKeyForEndpoint endpoint =
     (let h = fnv1a64 endpoint;
          pid = (ucast (drop_bit 1 h) :: u32);
          uid = push_bit 33 h XOR drop_bit 31 h
      in SubscriberKey (if pid = 0 then 1 else pid) 0 (if uid = 0 then 1 else uid))"

text \<open>Shard routing: \<open>n\<close> is the clamped \<open>worker_threads\<close>.\<close>

definition shardIndexForTopic :: "nat \<Rightarrow> string \<Rightarrow> nat" where
  "shardIndexForTopic n compositeKey =
     (if n \<le> 1 then 0 else unat (fnv1a64 compositeKey) mod n)"

definition shardIndexForUid :: "nat \<Rightarrow> u64 \<Rightarrow> nat" where
  "shardIndexForUid n uid =
     (if n \<le> 1 then 0 else unat (fnv1a64 (to_string (unat uid))) mod n)"

section \<open>Rendered addresses\<close>

definition formatIpv4 :: "u32 \<Rightarrow> string" where
  "formatIpv4 hostOrder =
     to_string (unat (drop_bit 24 hostOrder AND 255)) @ ''.''
     @ to_string (unat (drop_bit 16 hostOrder AND 255)) @ ''.''
     @ to_string (unat (drop_bit 8 hostOrder AND 255)) @ ''.''
     @ to_string (unat (hostOrder AND 255))"

text \<open>The key of a receive window: publisher uid, a bar, the composite topic key.\<close>

definition window_prefix :: "u64 \<Rightarrow> string" where
  "window_prefix uid = to_string (unat uid) @ ''|''"

definition window_key :: "u64 \<Rightarrow> string \<Rightarrow> string" where
  "window_key uid compositeKey = window_prefix uid @ compositeKey"

section \<open>Properties of the keys\<close>

text \<open>
  Composite keys never collide: two topics with equal keys have the same name and the
  same message type, for message types without the separator (protobuf full names). Topic
  names may be arbitrary, so "ab" + "c" and "a" + "bc" are kept apart.
\<close>

theorem makeCompositeKey_inj:
  assumes "kTopicKeySeparator \<notin> set mt" "kTopicKeySeparator \<notin> set mt'"
  shows "ti_key (TopicInfo tn mt) = ti_key (TopicInfo tn' mt') \<longleftrightarrow>
    TopicInfo tn mt = TopicInfo tn' mt'"
  using assms split_at_last_sep [of kTopicKeySeparator mt mt' tn tn']
  by (auto simp: TopicInfo_def makeCompositeKey_def)

theorem makeCompositeKey_inj_witness:
  "ti_key (TopicInfo ''ab'' ''c'') \<noteq> ti_key (TopicInfo ''a'' ''bc'')"
proof -
  have "kTopicKeySeparator \<notin> set ''c''" "kTopicKeySeparator \<notin> set ''bc''"
    by (simp_all add: kTopicKeySeparator_def)
  from makeCompositeKey_inj [OF this, of "''ab''" "''a''"] show ?thesis
    by (simp add: TopicInfo_def)
qed

lemma composite_key_collision:
  "makeCompositeKey ''a'' (''b'' @ [kTopicKeySeparator] @ ''c'') =
   makeCompositeKey (''a'' @ [kTopicKeySeparator] @ ''b'') ''c''"
  by (simp add: makeCompositeKey_def)

lemma shardIndex_less:
  "0 < n \<Longrightarrow> shardIndexForTopic n key < n" "0 < n \<Longrightarrow> shardIndexForUid n uid < n"
  by (simp_all add: shardIndexForTopic_def shardIndexForUid_def)

lemma shardIndex_one [simp]: "shardIndexForTopic (Suc 0) key = 0" "shardIndexForUid (Suc 0) uid = 0"
  by (simp_all add: shardIndexForTopic_def shardIndexForUid_def)

text \<open>The unique id of a seed is its hash rotated by 33 bits, so the hash can be read back.\<close>

lemma seed_uid_unrotate:
  fixes h :: u64
  defines "u \<equiv> push_bit 33 h XOR drop_bit 31 h"
  shows "push_bit 31 u XOR drop_bit 33 u = h"
proof (rule bit_word_eqI)
  fix n assume n: "n < LENGTH(64)"
  have "\<not> bit h (n + 64)" by (auto dest: bit_imp_le_length)
  then show "bit (push_bit 31 u XOR drop_bit 33 u) n = bit h n"
    using n by (auto simp: u_def bit_simps not_le add.commute)
qed

lemma seed_uid_eq_iff:
  fixes h k :: u64
  shows "push_bit 33 h XOR drop_bit 31 h = push_bit 33 k XOR drop_bit 31 k \<longleftrightarrow> h = k"
  by (metis seed_uid_unrotate)

lemma seed_uid_zero_iff:
  fixes h :: u64
  shows "push_bit 33 h XOR drop_bit 31 h = 0 \<longleftrightarrow> h = 0"
  using seed_uid_eq_iff [of h 0] by simp

text \<open>
  The synthesized identity of a static seed is never null and distinguishes endpoints
  as well as their 64-bit hash does: endpoints with different hashes get different unique
  ids, except that the hash 0 shares the id 1 with one other hash.
\<close>

theorem peerKeyForEndpoint_distinct:
  shows "sk_pid (peerKeyForEndpoint e) \<noteq> 0 \<and> sk_uid (peerKeyForEndpoint e) \<noteq> 0 \<and>
    sk_tid (peerKeyForEndpoint e) = 0 \<and>
    (fnv1a64 e \<noteq> 0 \<and> fnv1a64 e' \<noteq> 0 \<and> fnv1a64 e \<noteq> fnv1a64 e' \<longrightarrow>
       sk_uid (peerKeyForEndpoint e) \<noteq> sk_uid (peerKeyForEndpoint e'))"
  by (simp add: peerKeyForEndpoint_def Let_def seed_uid_zero_iff seed_uid_eq_iff)

theorem peerKeyForEndpoint_distinct_witness:
  "sk_uid (peerKeyForEndpoint ''a'') \<noteq> sk_uid (peerKeyForEndpoint ''b'')"
proof -
  have "fnv1a64 ''a'' \<noteq> 0 \<and> fnv1a64 ''b'' \<noteq> 0 \<and> fnv1a64 ''a'' \<noteq> fnv1a64 ''b''"
    by (simp add: fnv1a64_def)
  then show ?thesis
    using peerKeyForEndpoint_distinct [of "''a''" "''b''"] by blast
qed

lemma not_digit_bar [simp]: "\<not> is_digit (CHR ''|'')"
  by (simp add: is_digit_def)

lemma window_key_prefix_iff:
  "starts_with (window_prefix u) (window_key u' k) \<longleftrightarrow> u = u'"
proof
  assume "starts_with (window_prefix u) (window_key u' k)"
  then obtain zs where "to_string (unat u') @ CHR ''|'' # k = to_string (unat u) @ CHR ''|'' # zs"
    by (auto simp: starts_with_iff window_key_def window_prefix_def)
  from split_at_first_sep [OF _ _ this] show "u = u'"
    by (simp add: not_digit_notin_to_string word_unat_eq_iff)
next
  assume "u = u'"
  then show "starts_with (window_prefix u) (window_key u' k)"
    by (simp add: window_key_def)
qed

lemma window_key_eq_iff: "window_key u k = window_key u' k' \<longleftrightarrow> u = u' \<and> k = k'"
proof
  assume eq: "window_key u k = window_key u' k'"
  then have "starts_with (window_prefix u) (window_key u' k')"
    by (metis window_key_prefix_iff)
  then have "u = u'" by (simp add: window_key_prefix_iff)
  with eq show "u = u' \<and> k = k'" by (simp add: window_key_def)
qed simp

end
