(* ===== verification/Edriel_Proto.thy ===== *)
theory Edriel_Proto
  imports Edriel_Keys
begin

text \<open>
  The messages of \<open>Proto/autoDiscovery.proto\<close> and
  \<open>Proto/autoDiscovery_grpc_service.proto\<close> as records, with the endpoint helpers of
  \<open>Edriel.cpp\<close>. The protobuf library itself is not part of the program: where the code
  parses or serializes, the definitions take the codec as an argument.
\<close>

datatype transport = TRANSPORT_UNSPECIFIED | GRPC_TCP

record endpoint =
  ep_address :: string
  ep_port :: u32
  ep_transport :: transport

record proto_identifier =
  id_pid :: u32
  id_tid :: u64
  id_uid :: u64
  id_endpoints :: "endpoint list"

record topic =
  tp_topic_name :: string
  tp_message_type :: string
  tp_is_publisher :: bool
  tp_reliable :: bool

record topic_advertisement =
  ad_identifier :: proto_identifier
  ad_topic :: topic

record data_message =
  dm_identifier :: proto_identifier
  dm_topic_name :: string
  dm_message_type :: string
  dm_payload :: bytes

text \<open>The \<open>oneof content\<close> of \<open>Message\<close>; nothing set is a case of its own.\<close>

datatype message =
    Content_identifier proto_identifier
  | Content_advertisement topic_advertisement
  | Content_data_message data_message
  | Content_not_set

record participant_heartbeat =
  hb_pid :: u32
  hb_tid :: u64
  hb_uid :: u64

record participant_data =
  pd_pid :: u32
  pd_tid :: u64
  pd_uid :: u64
  pd_status :: string
  pd_topics_published :: "string list"
  pd_topics_subscribed :: "string list"
  pd_endpoints :: "endpoint list"
  pd_reliable_data :: bytes

definition empty_pd :: participant_data where
  "empty_pd = \<lparr>pd_pid = 0, pd_tid = 0, pd_uid = 0, pd_status = [], pd_topics_published = [],
     pd_topics_subscribed = [], pd_endpoints = [], pd_reliable_data = []\<rparr>"

definition collectEndpoints :: "proto_identifier \<Rightarrow> endpoint list" where
  "collectEndpoints i = map (\<lambda>k. id_endpoints i ! k) [0..<length (id_endpoints i)]"

lemma collectEndpoints_eq [simp]: "collectEndpoints i = id_endpoints i"
  by (simp add: collectEndpoints_def map_nth)

text \<open>The ordered \<open>address:port\<close> dial candidates of an endpoint set.\<close>

definition endpointCandidates :: "endpoint list \<Rightarrow> string list" where
  "endpointCandidates eps = map (\<lambda>ep. ep_address ep @ '':'' @ to_string (unat (ep_port ep))) eps"

end
