(* ===== verification/Edriel_Window.thy ===== *)
theory Edriel_Window
  imports Edriel_Proto
begin

text \<open>
  The receiver side of the reliable path (\<open>ReliableRxWindow\<close>, \<open>handleReliableDataFrame\<close> and
  \<open>noteReliableStreamEstablished\<close> of \<open>Edriel.cpp\<close>): one reorder/dedup window per publisher
  and topic. The theory shows the bound and the order of delivery, which reorderings are
  repaired, when a window is baselined, and when it stalls.
\<close>

section \<open>One window\<close>

definition kReliableWindowSize :: nat where
  "kReliableWindowSize = 256"

record rx_window =
  nextExpected :: u64
  rx_buffer :: "(u64, data_message) omap"

definition new_window :: rx_window where
  "new_window = \<lparr>nextExpected = 1, rx_buffer = []\<rparr>"

text \<open>\<open>if (w.nextExpected < max) ++w.nextExpected\<close>.\<close>

definition advance :: "u64 \<Rightarrow> u64" where
  "advance n = (if n < - 1 then n + 1 else n)"

text \<open>The \<open>while (!w.buffer.empty())\<close> loop of \<open>deliver\<close>, smallest tid first.\<close>

fun flush_buffer :: "u64 \<Rightarrow> (u64, data_message) omap \<Rightarrow> data_message list \<times> u64" where
  "flush_buffer n [] = ([], n)"
| "flush_buffer n ((bufferedTid, m) # buf) =
     (case flush_buffer (advance (max n bufferedTid)) buf of (out, n') \<Rightarrow> (m # out, n'))"

definition deliver :: "data_message \<Rightarrow> rx_window \<Rightarrow> data_message list \<times> rx_window" where
  "deliver m w =
     (case flush_buffer (advance (nextExpected w)) (rx_buffer w) of (out, n) \<Rightarrow>
        (m # out, w\<lparr>nextExpected := n, rx_buffer := []\<rparr>))"

abbreviation tid_of :: "data_message \<Rightarrow> u64" where
  "tid_of m \<equiv> id_tid (dm_identifier m)"

definition window_accept :: "data_message \<Rightarrow> rx_window \<Rightarrow> data_message list \<times> rx_window" where
  "window_accept data w =
     (let tid = tid_of data in
      if nextExpected w = 0 then deliver data (w\<lparr>nextExpected := tid\<rparr>)
      else if tid = nextExpected w then deliver data w
      else if tid > nextExpected w then
        (if unat (tid - nextExpected w) < kReliableWindowSize
            \<and> length (rx_buffer w) < kReliableWindowSize
         then ([], w\<lparr>rx_buffer := om_emplace tid data (rx_buffer w)\<rparr>)
         else if unat (tid - nextExpected w) \<ge> kReliableWindowSize \<and> rx_buffer w = []
         then deliver data (w\<lparr>nextExpected := tid\<rparr>)
         else ([], w))
      else ([], w))"

fun window_run :: "data_message list \<Rightarrow> rx_window \<Rightarrow> data_message list \<times> rx_window" where
  "window_run [] w = ([], w)"
| "window_run (m # ms) w =
     (case window_accept m w of (out, w') \<Rightarrow>
        (case window_run ms w' of (out', w'') \<Rightarrow> (out @ out', w'')))"

section \<open>All windows of a node\<close>

record rx_state =
  reliableWindows :: "(string, rx_window) omap"
  reliableFreshPublishers :: "u64 set"

definition reset_window :: "rx_window \<Rightarrow> rx_window" where
  "reset_window w = w\<lparr>rx_buffer := [], nextExpected := 0\<rparr>"

definition reset_publisher :: "u64 \<Rightarrow> (string, rx_window) omap \<Rightarrow> (string, rx_window) omap" where
  "reset_publisher pubUid ws =
     map (\<lambda>(k, w). (k, if starts_with (window_prefix pubUid) k then reset_window w else w)) ws"

definition noteReliableStreamEstablished :: "u64 \<Rightarrow> rx_state \<Rightarrow> rx_state" where
  "noteReliableStreamEstablished publisherUid st =
     st\<lparr>reliableFreshPublishers := insert publisherUid (reliableFreshPublishers st),
        reliableWindows := reset_publisher publisherUid (reliableWindows st)\<rparr>"

text \<open>The body under \<open>reliableMutex_\<close>, for a decoded frame.\<close>

definition window_key_of :: "data_message \<Rightarrow> string" where
  "window_key_of data =
     window_key (id_uid (dm_identifier data))
       (makeCompositeKey (dm_topic_name data) (dm_message_type data))"

definition receive_data :: "data_message \<Rightarrow> rx_state \<Rightarrow> data_message list \<times> rx_state" where
  "receive_data data st =
     (let pubUid = id_uid (dm_identifier data);
          winKey = window_key_of data;
          wasFresh = (pubUid \<in> reliableFreshPublishers st);
          ws = (if wasFresh then reset_publisher pubUid (reliableWindows st)
                else reliableWindows st);
          w0 = (case map_of ws winKey of None \<Rightarrow> new_window | Some w \<Rightarrow> w);
          w1 = (if wasFresh then reset_window w0 else w0)
      in case window_accept data w1 of (out, w2) \<Rightarrow>
           (out, st\<lparr>reliableFreshPublishers := reliableFreshPublishers st - {pubUid},
                    reliableWindows := om_put winKey w2 ws\<rparr>))"

text \<open>
  \<open>parse\<close> is \<open>DataMessage::ParseFromString\<close>. The returned list is \<open>toDispatch\<close>, handed to
  \<open>handleDataMessageReceive\<close> in order after the lock is released.
\<close>

definition handleReliableDataFrame ::
  "(bytes \<Rightarrow> data_message option) \<Rightarrow> participant_data \<Rightarrow> rx_state \<Rightarrow> data_message list \<times> rx_state"
where
  "handleReliableDataFrame parse pd st =
     (if pd_reliable_data pd = [] then ([], st)
      else case parse (pd_reliable_data pd) of
          None \<Rightarrow> ([], st)
        | Some data \<Rightarrow> receive_data data st)"

section \<open>The window invariant\<close>

text \<open>
  Buffered frames lie strictly ahead of \<open>nextExpected\<close>, within the window, under their own
  sequence number; a window that waits for a baseline holds nothing.
\<close>

definition window_inv :: "rx_window \<Rightarrow> bool" where
  "window_inv w \<longleftrightarrow>
     om_ok (rx_buffer w) \<and> (nextExpected w = 0 \<longrightarrow> rx_buffer w = []) \<and>
     (\<forall>(t, m) \<in> set (rx_buffer w).
        t = tid_of m \<and> nextExpected w < t \<and> unat (t - nextExpected w) < kReliableWindowSize)"

lemma window_inv_empty: "rx_buffer w = [] \<Longrightarrow> window_inv w"
  by (simp add: window_inv_def)

lemma deliver_buffer [simp]: "rx_buffer (snd (deliver m w)) = []"
  by (simp add: deliver_def split: prod.splits)

lemma window_inv_deliver [simp]: "window_inv (snd (deliver m w))"
  by (simp add: window_inv_empty)

lemma window_inv_buffered:
  assumes "window_inv w" "nextExpected w \<noteq> 0" "nextExpected w < tid_of m"
    "unat (tid_of m - nextExpected w) < kReliableWindowSize"
  shows "window_inv (w\<lparr>rx_buffer := om_emplace (tid_of m) m (rx_buffer w)\<rparr>)"
  using assms by (auto simp: window_inv_def om_emplace_def set_om_put_fresh)

lemma window_inv_accept:
  assumes "window_inv w"
  shows "window_inv (snd (window_accept m w))"
  using assms window_inv_buffered [of w m] by (auto simp: window_accept_def Let_def)

lemma window_inv_reset [simp]: "window_inv (reset_window w)"
  by (simp add: reset_window_def window_inv_empty)

lemma window_inv_new [simp]: "window_inv new_window"
  by (simp add: new_window_def window_inv_empty)

text \<open>Distinct keys in an interval of 255 values: the buffer never holds more.\<close>

lemma window_inv_length:
  assumes "window_inv w"
  shows "length (rx_buffer w) < kReliableWindowSize"
proof -
  let ?ks = "map fst (rx_buffer w)" and ?n = "nextExpected w"
  have d: "distinct ?ks" using assms by (simp add: window_inv_def om_ok_distinct)
  have inj: "inj_on (\<lambda>t. unat (t - ?n)) (set ?ks)" by (auto intro!: inj_onI simp: word_unat_eq_iff [symmetric])
  have "(\<lambda>t. unat (t - ?n)) ` set ?ks \<subseteq> {1..<kReliableWindowSize}"
    using assms by (force simp: window_inv_def Suc_le_eq unat_gt_0)
  then have "card (set ?ks) \<le> card {1..<kReliableWindowSize}"
    by (rule card_inj_on_le [OF inj]) simp
  then show ?thesis using distinct_card [OF d] by (simp add: kReliableWindowSize_def)
qed

lemma accept_below: "nextExpected w \<noteq> 0 \<Longrightarrow> tid_of m < nextExpected w \<Longrightarrow> window_accept m w = ([], w)"
  by (auto simp: window_accept_def Let_def)

lemma accept_expected:
  assumes "tid_of m = nextExpected w"
  shows "window_accept m w = deliver m w"
proof -
  have same: "w\<lparr>nextExpected := tid_of m\<rparr> = w" using assms by simp
  show ?thesis unfolding window_accept_def Let_def same using assms by (simp only: refl if_cancel if_True)
qed

lemma accept_baseline:
  "nextExpected w = 0 \<Longrightarrow> window_accept m w = deliver m (w\<lparr>nextExpected := tid_of m\<rparr>)"
  by (auto simp: window_accept_def Let_def)

lemma accept_ahead:
  assumes "window_inv w" "nextExpected w \<noteq> 0" "nextExpected w < tid_of m"
  shows "window_accept m w =
    (if unat (tid_of m - nextExpected w) < kReliableWindowSize
     then ([], w\<lparr>rx_buffer := om_emplace (tid_of m) m (rx_buffer w)\<rparr>)
     else if rx_buffer w = [] then deliver m (w\<lparr>nextExpected := tid_of m\<rparr>) else ([], w))"
  using assms window_inv_length [OF assms(1)] by (auto simp: window_accept_def Let_def)

section \<open>What one frame delivers\<close>

lemma advance_eq: "n \<noteq> - 1 \<Longrightarrow> advance n = n + 1"
  using word_order.extremum_strict by (auto simp: advance_def word_order.not_eq_extremum)

lemma plus_one_le: "(n :: u64) < t \<Longrightarrow> n + 1 \<le> t"
  by (metis inc_le)

lemma less_plus_one: "t \<noteq> (- 1 :: u64) \<Longrightarrow> t < t + 1"
  by (metis add.commute unatSuc eq_neg_iff_add_eq_0 lessI word_less_nat_alt)

text \<open>A sorted buffer ahead of the counter is flushed whole, in order.\<close>

lemma flush_sorted:
  "om_ok buf \<Longrightarrow> \<forall>t \<in> fst ` set buf. n \<le> t \<and> t \<noteq> - 1 \<Longrightarrow>
   fst (flush_buffer n buf) = map snd buf \<and> n \<le> snd (flush_buffer n buf) \<and>
   (\<forall>t \<in> fst ` set buf. t < snd (flush_buffer n buf))"
proof (induction n buf rule: flush_buffer.induct)
  case (1 n)
  then show ?case by simp
next
  case (2 n t m buf)
  have t: "n \<le> t" "t \<noteq> - 1" using "2.prems"(2) by auto
  then have adv: "advance (max n t) = t + 1" by (simp add: max_def advance_eq)
  have "\<forall>t' \<in> fst ` set buf. t + 1 \<le> t' \<and> t' \<noteq> - 1"
    using "2.prems" by (auto simp: plus_one_le)
  with "2.IH" "2.prems"(1) have IH:
    "fst (flush_buffer (t + 1) buf) = map snd buf" "t + 1 \<le> snd (flush_buffer (t + 1) buf)"
    "\<forall>u \<in> fst ` set buf. u < snd (flush_buffer (t + 1) buf)"
    by (simp_all add: adv)
  have "t < snd (flush_buffer (t + 1) buf)" using less_plus_one [OF t(2)] IH(2) by simp
  moreover have "flush_buffer n ((t, m) # buf) =
      (m # fst (flush_buffer (t + 1) buf), snd (flush_buffer (t + 1) buf))"
    by (simp add: adv split: prod.splits)
  ultimately show ?case using IH t(1) by auto
qed

text \<open>The largest sequence number saturates; frames below it behave as documented.\<close>

definition below_max :: "rx_window \<Rightarrow> bool" where
  "below_max w \<longleftrightarrow> - 1 \<notin> fst ` set (rx_buffer w)"

lemma buffer_tids:
  "window_inv w \<Longrightarrow> map (tid_of \<circ> snd) (rx_buffer w) = map fst (rx_buffer w)"
  by (auto simp: window_inv_def intro!: map_cong)

lemma deliver_step:
  assumes inv: "window_inv w" "below_max w" and tid: "tid_of m = nextExpected w" "tid_of m \<noteq> - 1"
  shows "\<exists>n. deliver m w = (m # map snd (rx_buffer w), w\<lparr>nextExpected := n, rx_buffer := []\<rparr>) \<and>
    nextExpected w < n \<and> (\<forall>t \<in> fst ` set (rx_buffer w). t < n)"
proof -
  let ?n = "nextExpected w" and ?buf = "rx_buffer w"
  have adv: "advance ?n = ?n + 1" using tid by (simp add: advance_eq)
  have ok: "om_ok ?buf" "\<forall>t \<in> fst ` set ?buf. ?n + 1 \<le> t \<and> t \<noteq> - 1"
    using inv by (auto simp: window_inv_def below_max_def plus_one_le image_iff)
  obtain n where n: "flush_buffer (?n + 1) ?buf = (map snd ?buf, n)"
    "?n + 1 \<le> n" "\<forall>t \<in> fst ` set ?buf. t < n"
    using flush_sorted [OF ok] by (metis prod.collapse)
  have "?n < n" using n(2) less_plus_one [of ?n] tid by simp
  with n show ?thesis by (intro exI [of _ n]) (simp add: deliver_def adv)
qed

definition delivers_between :: "rx_window \<Rightarrow> data_message list \<Rightarrow> rx_window \<Rightarrow> bool" where
  "delivers_between w out w' \<longleftrightarrow>
     nextExpected w \<le> nextExpected w' \<and> sorted_wrt (<) (map tid_of out) \<and>
     (\<forall>x \<in> set out. nextExpected w \<le> tid_of x \<and> tid_of x < nextExpected w')"

lemma delivers_between_Nil: "nextExpected w' = nextExpected w \<Longrightarrow> delivers_between w [] w'"
  by (simp add: delivers_between_def)

lemma delivers_between_trans:
  "delivers_between w out w' \<Longrightarrow> delivers_between w' out' w'' \<Longrightarrow> delivers_between w (out @ out') w''"
  by (fastforce simp: delivers_between_def sorted_wrt_append)

lemma delivers_between_deliver:
  assumes inv: "window_inv w" "below_max w" and tid: "tid_of m = nextExpected w" "tid_of m \<noteq> - 1"
    and d: "deliver m w = (out, w')"
  shows "delivers_between w out w'"
proof -
  obtain n where n: "deliver m w = (m # map snd (rx_buffer w), w\<lparr>nextExpected := n, rx_buffer := []\<rparr>)"
    "nextExpected w < n" "\<forall>t \<in> fst ` set (rx_buffer w). t < n"
    using deliver_step [OF inv tid] by blast
  have "sorted_wrt (<) (map (tid_of \<circ> snd) (rx_buffer w))"
    using inv(1) unfolding buffer_tids [OF inv(1)] by (simp add: window_inv_def om_ok_def)
  moreover have "\<forall>(t, x) \<in> set (rx_buffer w). t = tid_of x \<and> nextExpected w < t"
    using inv(1) by (auto simp: window_inv_def)
  ultimately show ?thesis
    using d n tid by (force simp: delivers_between_def)
qed

lemma accept_step:
  assumes inv: "window_inv w" "below_max w" "nextExpected w \<noteq> 0" and max: "tid_of m \<noteq> - 1"
    and acc: "window_accept m w = (out, w')"
  shows "window_inv w' \<and> below_max w' \<and> nextExpected w' \<noteq> 0 \<and> delivers_between w out w'"
proof -
  have wi: "window_inv w'" using window_inv_accept [OF inv(1), of m] acc by simp
  have emp: "below_max w'" if "rx_buffer w' = []" using that by (simp add: below_max_def)
  have pos: "nextExpected w' \<noteq> 0" if "delivers_between w out w'"
    using that inv(3) by (auto simp: delivers_between_def)
  consider "tid_of m < nextExpected w" | "tid_of m = nextExpected w" | "nextExpected w < tid_of m"
    by (meson linorder_less_linear)
  then show ?thesis
  proof cases
    case 1
    then show ?thesis using acc inv by (auto simp: accept_below delivers_between_Nil)
  next
    case 2
    with acc have "deliver m w = (out, w')" by (simp add: accept_expected)
    with 2 inv max have "delivers_between w out w'" "rx_buffer w' = []"
      using delivers_between_deliver [OF inv(1,2) 2 max] deliver_buffer [of m w] by simp_all
    with wi emp pos show ?thesis by blast
  next
    case 3
    let ?w = "w\<lparr>nextExpected := tid_of m\<rparr>"
    consider (buf) "out = []" "w' = w\<lparr>rx_buffer := om_emplace (tid_of m) m (rx_buffer w)\<rparr>"
      | (ff) "rx_buffer w = []" "deliver m ?w = (out, w')" | (drop) "out = []" "w' = w"
      using acc accept_ahead [OF inv(1,3) 3] by (auto split: if_splits)
    then show ?thesis
    proof cases
      case buf
      then show ?thesis
        using wi inv max by (auto simp: below_max_def om_emplace_def delivers_between_Nil)
    next
      case ff
      then have "delivers_between ?w out w'" "rx_buffer w' = []"
        using delivers_between_deliver [of ?w m] max deliver_buffer [of m ?w]
        by (simp_all add: window_inv_empty below_max_def)
      moreover have "delivers_between w out w'"
        using calculation(1) 3 by (auto simp: delivers_between_def)
      ultimately show ?thesis using wi emp pos by blast
    next
      case drop
      then show ?thesis using inv by (simp add: delivers_between_Nil)
    qed
  qed
qed

lemma window_run_step:
  "window_inv w \<Longrightarrow> below_max w \<Longrightarrow> nextExpected w \<noteq> 0 \<Longrightarrow> \<forall>m \<in> set ms. tid_of m \<noteq> - 1 \<Longrightarrow>
   window_run ms w = (out, w') \<Longrightarrow>
   window_inv w' \<and> below_max w' \<and> nextExpected w' \<noteq> 0 \<and> delivers_between w out w'"
proof (induction ms arbitrary: w out)
  case Nil
  then show ?case by (simp add: delivers_between_Nil)
next
  case (Cons m ms)
  obtain out1 w1 where a: "window_accept m w = (out1, w1)" by fastforce
  obtain out2 where r: "window_run ms w1 = (out2, w')" and out: "out = out1 @ out2"
    using Cons.prems(5) a by (auto split: prod.splits)
  have s: "window_inv w1 \<and> below_max w1 \<and> nextExpected w1 \<noteq> 0 \<and> delivers_between w out1 w1"
    using accept_step [OF Cons.prems(1-3) _ a] Cons.prems(4) by simp
  with Cons.IH [OF _ _ _ _ r] Cons.prems(4) out delivers_between_trans show ?case by auto
qed

lemma accept_baseline_step:
  assumes "window_inv w" "nextExpected w = 0" "tid_of m \<noteq> - 1" "window_accept m w = (out, w')"
  shows "window_inv w' \<and> below_max w' \<and> nextExpected w' \<noteq> 0 \<and> delivers_between w out w'"
proof -
  let ?w = "w\<lparr>nextExpected := tid_of m\<rparr>"
  have emp: "rx_buffer w = []" using assms(1,2) by (simp add: window_inv_def)
  have d: "deliver m ?w = (out, w')" using assms by (simp add: accept_baseline)
  then have b: "rx_buffer w' = []" using deliver_buffer [of m ?w] by simp
  obtain n where n: "deliver m ?w = ([m], ?w\<lparr>nextExpected := n, rx_buffer := []\<rparr>)" "tid_of m < n"
    using deliver_step [of ?w m] assms(3) emp by (auto simp: window_inv_empty below_max_def)
  then have "nextExpected w' = n" "out = [m]" using d by auto
  with n(2) b assms(2) show ?thesis
    by (auto simp: window_inv_empty below_max_def delivers_between_def)
qed

lemma window_run_delivers:
  assumes "window_inv w" "below_max w" "\<forall>m \<in> set ms. tid_of m \<noteq> - 1"
    "window_run ms w = (out, w')"
  shows "delivers_between w out w'"
proof (cases "nextExpected w = 0 \<and> ms \<noteq> []")
  case False
  then show ?thesis
    using assms window_run_step [OF assms(1,2) _ assms(3,4)] by (auto simp: delivers_between_Nil)
next
  case True
  then obtain m ms' where ms: "ms = m # ms'" by (cases ms) auto
  obtain out1 w1 where a: "window_accept m w = (out1, w1)" by fastforce
  obtain out2 where r: "window_run ms' w1 = (out2, w')" and out: "out = out1 @ out2"
    using assms(4) a ms by (auto split: prod.splits)
  from True assms(3) ms have "window_inv w1 \<and> below_max w1 \<and> nextExpected w1 \<noteq> 0
      \<and> delivers_between w out1 w1"
    using accept_baseline_step [OF assms(1) _ _ a] by simp
  with window_run_step [of w1 ms' out2 w'] r assms(3) ms out delivers_between_trans
  show ?thesis by auto
qed

lemma accept_buffers:
  assumes "window_inv w" "nextExpected w \<noteq> 0" "nextExpected w < tid_of m"
    "unat (tid_of m - nextExpected w) < kReliableWindowSize"
  shows "window_accept m w = ([], w\<lparr>rx_buffer := om_emplace (tid_of m) m (rx_buffer w)\<rparr>)"
  using assms by (simp add: accept_ahead)

text \<open>A set of distinct frames ahead of the window, in any order, is buffered whole.\<close>

definition in_window :: "u64 \<Rightarrow> data_message \<Rightarrow> bool" where
  "in_window n m \<longleftrightarrow> n < tid_of m \<and> unat (tid_of m - n) < kReliableWindowSize \<and> tid_of m \<noteq> - 1"

lemma window_run_buffers:
  "window_inv w \<Longrightarrow> below_max w \<Longrightarrow> nextExpected w \<noteq> 0 \<Longrightarrow>
   \<forall>m \<in> set ms. in_window (nextExpected w) m \<Longrightarrow> distinct (map tid_of ms) \<Longrightarrow>
   set (map tid_of ms) \<inter> set (map fst (rx_buffer w)) = {} \<Longrightarrow>
   \<exists>buf. window_run ms w = ([], w\<lparr>rx_buffer := buf\<rparr>) \<and> window_inv (w\<lparr>rx_buffer := buf\<rparr>) \<and>
     below_max (w\<lparr>rx_buffer := buf\<rparr>) \<and>
     set (map fst buf) = set (map fst (rx_buffer w)) \<union> set (map tid_of ms)"
proof (induction ms arbitrary: w)
  case Nil
  then show ?case by (intro exI [of _ "rx_buffer w"]) simp
next
  case (Cons m ms)
  let ?w = "w\<lparr>rx_buffer := om_emplace (tid_of m) m (rx_buffer w)\<rparr>"
  have iw: "in_window (nextExpected w) m" using Cons.prems by simp
  have new: "map_of (rx_buffer w) (tid_of m) = None"
    using Cons.prems(6) by (auto simp: map_of_eq_None_iff)
  have a: "window_accept m w = ([], ?w)" and i: "window_inv ?w"
    using accept_buffers [of w m] window_inv_buffered [of w m] Cons.prems(1,3) iw
    by (simp_all add: in_window_def)
  have b: "below_max ?w" using Cons.prems(2) iw new
    by (auto simp: below_max_def om_emplace_def in_window_def)
  have keys: "set (map fst (rx_buffer ?w)) = insert (tid_of m) (set (map fst (rx_buffer w)))"
    using new by (simp add: om_emplace_def)
  have "\<exists>buf. window_run ms ?w = ([], ?w\<lparr>rx_buffer := buf\<rparr>) \<and> window_inv (?w\<lparr>rx_buffer := buf\<rparr>) \<and>
     below_max (?w\<lparr>rx_buffer := buf\<rparr>) \<and>
     set (map fst buf) = set (map fst (rx_buffer ?w)) \<union> set (map tid_of ms)"
    by (rule Cons.IH) (use Cons.prems i b keys in auto)
  then show ?case using a keys by auto
qed

section \<open>Correctness of the window\<close>

text \<open>
  Bounded memory: every frame, whatever its sequence number, keeps the window
  invariant, so at most 255 frames are ever buffered and each lies strictly ahead of the
  next expected sequence number, within the window.
\<close>

theorem window_bounded:
  assumes "window_inv w"
  shows "window_inv (snd (window_accept m w)) \<and>
    length (rx_buffer (snd (window_accept m w))) < kReliableWindowSize"
  using window_inv_accept [OF assms] window_inv_length by blast

definition seq_frame :: "u64 \<Rightarrow> data_message" where
  "seq_frame t = \<lparr>dm_identifier = \<lparr>id_pid = 1, id_tid = t, id_uid = 7, id_endpoints = []\<rparr>,
     dm_topic_name = ''t'', dm_message_type = ''M'', dm_payload = [1]\<rparr>"

lemma tid_of_frame [simp]: "tid_of (seq_frame t) = t"
  by (simp add: seq_frame_def)

theorem window_bounded_witness:
  "length (rx_buffer (snd (window_accept (seq_frame 5) new_window))) < kReliableWindowSize"
  using window_bounded [OF window_inv_new] by blast

text \<open>
  At most once and in order: whatever arrives in whatever order, lost, repeated or
  reordered, the frames one window delivers have strictly increasing sequence numbers.
  (Sequence numbers stay below the largest 64-bit value, where the counter saturates.)
\<close>

theorem window_delivers_in_order:
  assumes "window_inv w" "below_max w" "\<forall>m \<in> set ms. tid_of m \<noteq> - 1"
  shows "sorted_wrt (<) (map tid_of (fst (window_run ms w)))"
  using window_run_delivers [OF assms, of "fst (window_run ms w)" "snd (window_run ms w)"]
  by (simp add: delivers_between_def)

lemma below_max_new: "below_max new_window"
  by (simp add: new_window_def below_max_def)

theorem window_delivers_in_order_witness:
  "sorted_wrt (<) (map tid_of (fst (window_run [seq_frame 3, seq_frame 1, seq_frame 1, seq_frame 9] new_window)))"
  by (rule window_delivers_in_order [OF window_inv_new below_max_new])
    (simp add: seq_frame_def)

text \<open>
  A stream as a publisher stamps it and one ordered connection carries it: each frame has
  the next sequence number, or repeats an earlier one (the same-tid retry).
\<close>

fun in_sequence :: "u64 \<Rightarrow> data_message list \<Rightarrow> bool" where
  "in_sequence n [] = True"
| "in_sequence n (m # ms) =
     (if tid_of m = n then n \<noteq> - 1 \<and> in_sequence (n + 1) ms
      else tid_of m < n \<and> in_sequence n ms)"

lemma window_run_in_sequence:
  "rx_buffer w = [] \<Longrightarrow> nextExpected w \<noteq> 0 \<Longrightarrow> in_sequence (nextExpected w) ms \<Longrightarrow>
   \<exists>out n. window_run ms w = (out, w\<lparr>nextExpected := n\<rparr>) \<and>
     map tid_of out = map (\<lambda>i. nextExpected w + of_nat i) [0..<length out] \<and>
     (\<forall>m \<in> set ms. tid_of m < nextExpected w \<or> tid_of m \<in> set (map tid_of out))"
proof (induction ms arbitrary: w)
  case Nil
  then show ?case by (intro exI [of _ "[]"] exI [of _ "nextExpected w"]) simp
next
  case (Cons m ms)
  show ?case
  proof (cases "tid_of m = nextExpected w")
    case True
    let ?w = "w\<lparr>nextExpected := nextExpected w + 1\<rparr>"
    have n: "nextExpected w \<noteq> - 1" "in_sequence (nextExpected w + 1) ms"
      using Cons.prems True by simp_all
    have a: "window_accept m w = ([m], ?w)"
      using True n Cons.prems(1) by (simp add: accept_expected deliver_def advance_eq)
    have "nextExpected ?w \<noteq> 0" using n by (simp add: eq_neg_iff_add_eq_0)
    then have "\<exists>out k. window_run ms ?w = (out, ?w\<lparr>nextExpected := k\<rparr>) \<and>
        map tid_of out = map (\<lambda>i. nextExpected ?w + of_nat i) [0..<length out] \<and>
        (\<forall>m \<in> set ms. tid_of m < nextExpected ?w \<or> tid_of m \<in> set (map tid_of out))"
      by (intro Cons.IH) (use Cons.prems(1) n in simp_all)
    then obtain out k where r: "window_run ms ?w = (out, ?w\<lparr>nextExpected := k\<rparr>)"
      and t: "map tid_of out = map (\<lambda>i. nextExpected ?w + of_nat i) [0..<length out]"
      and c: "\<forall>m \<in> set ms. tid_of m < nextExpected ?w \<or> tid_of m \<in> set (map tid_of out)"
      by blast
    have "tid_of x < nextExpected w \<or> tid_of x = nextExpected w" if "tid_of x < nextExpected w + 1" for x
      using that n(1) by (meson not_less_iff_gr_or_eq plus_one_le leD)
    with c have "\<forall>x \<in> set (m # ms). tid_of x < nextExpected w \<or> tid_of x \<in> set (map tid_of (m # out))"
      using True by fastforce
    moreover have "map tid_of (m # out) = map (\<lambda>i. nextExpected w + of_nat i) [0..<length (m # out)]"
      using t True by (simp add: upt_conv_Cons map_Suc_upt [symmetric] comp_def algebra_simps del: upt_Suc)
    moreover have "window_run (m # ms) w = (m # out, w\<lparr>nextExpected := k\<rparr>)"
      using a r by simp
    ultimately show ?thesis by blast
  next
    case False
    then have "tid_of m < nextExpected w" "in_sequence (nextExpected w) ms" using Cons.prems by simp_all
    then show ?thesis using Cons.IH [of w] Cons.prems by (auto simp: accept_below)
  qed
qed

text \<open>
  C3. Exactly once on an ordered stream: of a stream that continues a window and may repeat
  frames, the window delivers each sequence number exactly once, contiguously and in order,
  and nothing of the stream stays undelivered.
\<close>

theorem window_exactly_once:
  assumes "rx_buffer w = []" "nextExpected w \<noteq> 0" "in_sequence (nextExpected w) ms"
  shows "let out = fst (window_run ms w) in
    map tid_of out = map (\<lambda>i. nextExpected w + of_nat i) [0..<length out] \<and>
    (\<forall>m \<in> set ms. nextExpected w \<le> tid_of m \<longrightarrow> tid_of m \<in> set (map tid_of out))"
  using window_run_in_sequence [OF assms] by (auto simp: not_less [symmetric])

theorem window_exactly_once_witness:
  "map tid_of (fst (window_run [seq_frame 1, seq_frame 1, seq_frame 2, seq_frame 1, seq_frame 3] new_window))
   = [1, 2, 3]"
proof -
  let ?ms = "[seq_frame 1, seq_frame 1, seq_frame 2, seq_frame 1, seq_frame 3]"
  have h: "rx_buffer new_window = []" "nextExpected new_window \<noteq> 0"
    "in_sequence (nextExpected new_window) ?ms"
    by (simp_all add: new_window_def)
  have len: "length (fst (window_run ?ms new_window)) = 3"
    by (simp add: new_window_def accept_expected accept_below deliver_def advance_eq)
  have "map tid_of (fst (window_run ?ms new_window)) =
      map (\<lambda>i. nextExpected new_window + of_nat i) [0..<3]"
    using window_exactly_once [OF h] unfolding Let_def len by blast
  then show ?thesis by (simp add: upt_rec new_window_def del: window_run.simps)
qed

lemma window_run_append:
  "window_run (xs @ ys) w =
     (case window_run xs w of (out, w') \<Rightarrow>
        (case window_run ys w' of (out', w'') \<Rightarrow> (out @ out', w'')))"
  by (induction xs arbitrary: w) (auto split: prod.splits)

text \<open>
  Reordering inside the window is repaired: distinct frames ahead of the expected one
  are held back in whatever order they arrive, and when the expected frame arrives
  everything is delivered sorted by sequence number.
\<close>

theorem window_repairs_reordering:
  assumes "window_inv w" "rx_buffer w = []" "nextExpected w \<noteq> 0" "nextExpected w \<noteq> - 1"
    and "\<forall>x \<in> set ms. in_window (nextExpected w) x" "distinct (map tid_of ms)"
    and "tid_of m = nextExpected w"
  shows "fst (window_run ms w) = [] \<and>
    map tid_of (fst (window_run (ms @ [m]) w)) = nextExpected w # sort (map tid_of ms)"
proof -
  have "\<exists>buf. window_run ms w = ([], w\<lparr>rx_buffer := buf\<rparr>) \<and> window_inv (w\<lparr>rx_buffer := buf\<rparr>) \<and>
     below_max (w\<lparr>rx_buffer := buf\<rparr>) \<and>
     set (map fst buf) = set (map fst (rx_buffer w)) \<union> set (map tid_of ms)"
    by (rule window_run_buffers) (use assms in \<open>auto simp: below_max_def\<close>)
  then obtain buf where r: "window_run ms w = ([], w\<lparr>rx_buffer := buf\<rparr>)"
    and i: "window_inv (w\<lparr>rx_buffer := buf\<rparr>)" "below_max (w\<lparr>rx_buffer := buf\<rparr>)"
    and keys: "set (map fst buf) = set (map tid_of ms)"
    using assms(2) by auto
  have ok: "om_ok buf" using i(1) by (simp add: window_inv_def)
  have "map fst buf = sort (map tid_of ms)"
  proof (rule sorted_distinct_set_unique)
    show "sorted (map fst buf)" using ok by (simp add: om_ok_def strict_sorted_imp_sorted)
    show "distinct (map fst buf)" by (rule om_ok_distinct [OF ok])
  qed (use assms(6) keys in simp_all)
  moreover have "map (tid_of \<circ> snd) buf = map fst buf" using buffer_tids [OF i(1)] by simp
  moreover obtain n where
    "deliver m (w\<lparr>rx_buffer := buf\<rparr>) = (m # map snd buf, w\<lparr>nextExpected := n, rx_buffer := []\<rparr>)"
    using deliver_step [OF i, of m] assms(4,7) by auto
  ultimately show ?thesis
    using assms(7) r by (simp add: window_run_append accept_expected)
qed

theorem window_repairs_reordering_witness:
  "map tid_of (fst (window_run [seq_frame 4, seq_frame 2, seq_frame 3, seq_frame 1] new_window)) = [1, 2, 3, 4]"
proof -
  have "fst (window_run [seq_frame 4, seq_frame 2, seq_frame 3] new_window) = [] \<and>
    map tid_of (fst (window_run ([seq_frame 4, seq_frame 2, seq_frame 3] @ [seq_frame 1]) new_window)) =
      nextExpected new_window # sort (map tid_of [seq_frame 4, seq_frame 2, seq_frame 3])"
    by (rule window_repairs_reordering)
      (simp_all add: new_window_def window_inv_empty in_window_def kReliableWindowSize_def)
  then show ?thesis by (simp add: new_window_def del: window_run.simps)
qed

text \<open>
  A reordering that arrives around the expected frame loses data: when a frame two
  ahead is buffered, the expected one is delivered and flushes it across the gap, and the
  frame in between is then dropped as a duplicate although it was never delivered.
\<close>

theorem window_reorder_loss:
  assumes "rx_buffer w = []" "nextExpected w = n" "0 < n" "unat n + 3 < 2 ^ 64"
    and "tid_of a = n + 2" "tid_of b = n" "tid_of c = n + 1"
  shows "window_run [a, b, c] w = ([b, a], w\<lparr>nextExpected := n + 3\<rparr>)"
proof -
  have u: "unat (n + 1) = unat n + 1" "unat (n + 2) = unat n + 2" "unat (n + 3) = unat n + 3"
    using assms(4) unat_plus_u64 [of n 1] unat_plus_u64 [of n 2] unat_plus_u64 [of n 3] by simp_all
  have m1: "unat (- 1 :: u64) = 2 ^ 64 - 1" by (simp add: unsigned_minus_1_eq_mask mask_eq_exp_minus_1)
  have n: "n \<noteq> 0" "n < n + 2" "unat (n + 2 - n) < kReliableWindowSize" "n \<noteq> - 1"
    "n + 1 < n + 2" "n + 2 \<noteq> - 1" "n + 1 < n + 3" "n + 3 \<noteq> 0"
    using assms(3,4) u m1 by (auto simp: kReliableWindowSize_def word_less_nat_alt word_unat_eq_iff)
  have n3: "n + 2 + 1 = n + 3" by simp
  have "window_accept a w = ([], w\<lparr>rx_buffer := [(n + 2, a)]\<rparr>)"
    using accept_buffers [of w a] assms n by (simp add: window_inv_empty om_emplace_def)
  moreover have "window_accept b (w\<lparr>rx_buffer := [(n + 2, a)]\<rparr>) =
      ([b, a], w\<lparr>nextExpected := n + 3, rx_buffer := []\<rparr>)"
    using assms(2,6) n n3 by (simp add: accept_expected deliver_def advance_eq max_def)
  moreover have "window_accept c (w\<lparr>nextExpected := n + 3, rx_buffer := []\<rparr>) =
      ([], w\<lparr>nextExpected := n + 3, rx_buffer := []\<rparr>)"
    using assms(7) n by (intro accept_below) simp_all
  moreover have "w\<lparr>nextExpected := n + 3, rx_buffer := []\<rparr> = w\<lparr>nextExpected := n + 3\<rparr>"
    using assms(1) by simp
  ultimately show ?thesis by simp
qed

theorem window_reorder_loss_witness:
  "map tid_of (fst (window_run [seq_frame 3, seq_frame 1, seq_frame 2] new_window)) = [1, 3]"
  using window_reorder_loss [of new_window 1 "seq_frame 3" "seq_frame 1" "seq_frame 2"]
  by (simp add: new_window_def del: window_run.simps)

lemma window_run_stalled:
  "window_inv w \<Longrightarrow> rx_buffer w \<noteq> [] \<Longrightarrow> \<forall>m \<in> set ms. tid_of m \<noteq> nextExpected w \<Longrightarrow>
   fst (window_run ms w) = [] \<and> rx_buffer (snd (window_run ms w)) \<noteq> [] \<and>
   nextExpected (snd (window_run ms w)) = nextExpected w"
proof (induction ms arbitrary: w)
  case Nil
  then show ?case by simp
next
  case (Cons m ms)
  have n: "nextExpected w \<noteq> 0" using Cons.prems(1,2) by (auto simp: window_inv_def)
  have "fst (window_accept m w) = [] \<and> rx_buffer (snd (window_accept m w)) \<noteq> [] \<and>
      nextExpected (snd (window_accept m w)) = nextExpected w"
  proof (cases "tid_of m < nextExpected w")
    case True
    then show ?thesis using n Cons.prems(2) by (simp add: accept_below)
  next
    case False
    then have "nextExpected w < tid_of m" using Cons.prems(3) by auto
    moreover have "om_emplace (tid_of m) m (rx_buffer w) \<noteq> []"
      using Cons.prems(2) by (cases "rx_buffer w") (auto simp: om_emplace_def split: if_splits)
    ultimately show ?thesis using accept_ahead [OF Cons.prems(1) n] Cons.prems(2) by simp
  qed
  then show ?case
    using Cons.IH [of "snd (window_accept m w)"] window_inv_accept [OF Cons.prems(1), of m]
      Cons.prems(3) by (auto split: prod.splits)
qed

text \<open>
  A missing frame stalls the window: once a frame beyond a gap is buffered, no stream
  of further frames, however long, is ever delivered unless the missing sequence number
  itself arrives; nothing but a new connection resumes the topic.
\<close>

theorem window_stall:
  assumes "window_inv w" "rx_buffer w \<noteq> []" "\<forall>m \<in> set ms. tid_of m \<noteq> nextExpected w"
  shows "fst (window_run ms w) = []"
  using window_run_stalled [OF assms] by blast

definition stalled_window :: rx_window where
  "stalled_window = \<lparr>nextExpected = 2, rx_buffer = [(3, seq_frame 3)]\<rparr>"

theorem window_stall_witness:
  "fst (window_run (map seq_frame [4, 5, 3, 258, 300, 1, 301]) stalled_window) = []"
proof (rule window_stall)
  show "window_inv stalled_window"
    by (simp add: window_inv_def stalled_window_def kReliableWindowSize_def)
qed (simp_all add: stalled_window_def)

section \<open>The windows of a node\<close>

lemma map_of_reset_publisher:
  "map_of (reset_publisher u ws) k =
     map_option (\<lambda>w. if starts_with (window_prefix u) k then reset_window w else w) (map_of ws k)"
  by (induction ws) (auto simp: reset_publisher_def)

lemma set_reset_publisher:
  "(k, w) \<in> set (reset_publisher u ws) \<Longrightarrow> (k, w) \<in> set ws \<or> (\<exists>w'. (k, w') \<in> set ws \<and> w = reset_window w')"
  by (auto simp: reset_publisher_def split: if_splits)

lemma om_ok_reset_publisher [simp]: "om_ok (reset_publisher u ws) = om_ok ws"
  by (simp add: reset_publisher_def)

abbreviation uid_of :: "data_message \<Rightarrow> u64" where
  "uid_of m \<equiv> id_uid (dm_identifier m)"

definition window_at :: "rx_state \<Rightarrow> string \<Rightarrow> rx_window" where
  "window_at st k = (case map_of (reliableWindows st) k of None \<Rightarrow> new_window | Some w \<Rightarrow> w)"

lemma window_prefix_key_of: "starts_with (window_prefix u) (window_key_of m) \<longleftrightarrow> u = uid_of m"
  by (simp add: window_key_of_def window_key_prefix_iff)

text \<open>The window a frame is offered to: the stored one, reset if the publisher is fresh.\<close>

definition start_window :: "data_message \<Rightarrow> rx_state \<Rightarrow> rx_window" where
  "start_window m st =
     (if uid_of m \<in> reliableFreshPublishers st then reset_window new_window
      else window_at st (window_key_of m))"

lemma reset_window_eq: "reset_window w = reset_window new_window"
  by (simp add: reset_window_def new_window_def)

lemma receive_data_eq:
  "receive_data m st =
     (case window_accept m (start_window m st) of (out, w) \<Rightarrow>
        (out, st\<lparr>reliableFreshPublishers := reliableFreshPublishers st - {uid_of m},
                 reliableWindows := om_put (window_key_of m) w
                   (if uid_of m \<in> reliableFreshPublishers st
                    then reset_publisher (uid_of m) (reliableWindows st)
                    else reliableWindows st)\<rparr>))"
proof -
  have r: "reset_window (case map_of (reset_publisher (uid_of m) (reliableWindows st)) (window_key_of m)
      of None \<Rightarrow> new_window | Some w \<Rightarrow> w) = reset_window new_window"
    by (rule reset_window_eq)
  show ?thesis
    unfolding receive_data_def Let_def start_window_def window_at_def
    by (cases "uid_of m \<in> reliableFreshPublishers st") (simp_all only: if_True if_False r)
qed

lemma fst_receive_data: "fst (receive_data m st) = fst (window_accept m (start_window m st))"
  by (simp add: receive_data_eq split: prod.splits)

lemma fresh_receive_data [simp]:
  "reliableFreshPublishers (snd (receive_data m st)) = reliableFreshPublishers st - {uid_of m}"
  by (simp add: receive_data_eq split: prod.splits)

lemma windows_receive_data:
  "reliableWindows (snd (receive_data m st)) =
     om_put (window_key_of m) (snd (window_accept m (start_window m st)))
       (if uid_of m \<in> reliableFreshPublishers st
        then reset_publisher (uid_of m) (reliableWindows st) else reliableWindows st)"
  by (simp add: receive_data_eq split: prod.splits)

lemma window_at_receive:
  "window_at (snd (receive_data m st)) k =
     (if k = window_key_of m then snd (window_accept m (start_window m st))
      else if uid_of m \<in> reliableFreshPublishers st \<and> starts_with (window_prefix (uid_of m)) k
        \<and> map_of (reliableWindows st) k \<noteq> None
      then reset_window (window_at st k) else window_at st k)"
  by (cases "map_of (reliableWindows st) k")
    (simp_all add: window_at_def windows_receive_data map_of_reset_publisher)

fun receive_all :: "data_message list \<Rightarrow> rx_state \<Rightarrow> data_message list \<times> rx_state" where
  "receive_all [] st = ([], st)"
| "receive_all (m # ms) st =
     (case receive_data m st of (out, st') \<Rightarrow>
        (case receive_all ms st' of (out', st'') \<Rightarrow> (out @ out', st'')))"

text \<open>Every window satisfies its invariant and buffers only frames of its own key.\<close>

definition rx_inv :: "rx_state \<Rightarrow> bool" where
  "rx_inv st \<longleftrightarrow> om_ok (reliableWindows st) \<and>
     (\<forall>k. window_inv (window_at st k) \<and>
        (\<forall>m \<in> snd ` set (rx_buffer (window_at st k)). window_key_of m = k))"

lemma set_flush_buffer: "set (fst (flush_buffer n buf)) = snd ` set buf"
  by (induction n buf rule: flush_buffer.induct) (force split: prod.splits)+

lemma set_om_emplace: "set (om_emplace k v m) \<subseteq> insert (k, v) (set m)"
  by (auto simp: om_emplace_def set_om_put_fresh)

lemma accept_sources:
  "set (fst (window_accept m w)) \<subseteq> insert m (snd ` set (rx_buffer w))"
  "snd ` set (rx_buffer (snd (window_accept m w))) \<subseteq> insert m (snd ` set (rx_buffer w))"
proof -
  have d: "set (fst (deliver m v)) = insert m (snd ` set (rx_buffer v))" for v
    using set_flush_buffer [of "advance (nextExpected v)" "rx_buffer v"]
    by (force simp: deliver_def split: prod.splits)
  show "set (fst (window_accept m w)) \<subseteq> insert m (snd ` set (rx_buffer w))"
    by (auto simp: window_accept_def Let_def d)
  show "snd ` set (rx_buffer (snd (window_accept m w))) \<subseteq> insert m (snd ` set (rx_buffer w))"
    using set_om_emplace [of "tid_of m" m "rx_buffer w"] by (auto simp: window_accept_def Let_def)
qed

lemma rx_inv_receive:
  assumes inv: "rx_inv st"
  shows "rx_inv (snd (receive_data m st))"
proof -
  let ?w = "start_window m st"
  have w: "window_inv ?w" "\<forall>x \<in> snd ` set (rx_buffer ?w). window_key_of x = window_key_of m"
    using inv by (simp_all add: rx_inv_def start_window_def) (simp add: reset_window_def)
  have ok: "om_ok (reliableWindows (snd (receive_data m st)))"
    using inv by (simp add: rx_inv_def windows_receive_data)
  have acc: "window_inv (snd (window_accept m ?w))"
    "\<forall>x \<in> snd ` set (rx_buffer (snd (window_accept m ?w))). window_key_of x = window_key_of m"
    using window_inv_accept [OF w(1), of m] accept_sources(2) [of m ?w] w(2) by blast+
  have res: "rx_buffer (reset_window v) = []" for v by (simp add: reset_window_def)
  show ?thesis
    unfolding rx_inv_def window_at_receive using ok acc inv by (simp add: rx_inv_def res)
qed

lemma receive_data_keys:
  assumes "rx_inv st" "x \<in> set (fst (receive_data m st))"
  shows "window_key_of x = window_key_of m"
proof -
  have "\<forall>x \<in> snd ` set (rx_buffer (start_window m st)). window_key_of x = window_key_of m"
    using assms(1) by (simp add: rx_inv_def start_window_def) (simp add: reset_window_def)
  then show ?thesis
    using assms(2) accept_sources(1) [of m "start_window m st"] by (auto simp: fst_receive_data)
qed

lemma receive_all_project:
  "rx_inv st \<Longrightarrow> \<forall>m \<in> set ms. uid_of m \<notin> reliableFreshPublishers st \<Longrightarrow>
   filter (\<lambda>m. window_key_of m = k) (fst (receive_all ms st)) =
     fst (window_run (filter (\<lambda>m. window_key_of m = k) ms) (window_at st k)) \<and>
   window_at (snd (receive_all ms st)) k =
     snd (window_run (filter (\<lambda>m. window_key_of m = k) ms) (window_at st k))"
proof (induction ms arbitrary: st)
  case Nil
  then show ?case by simp
next
  case (Cons m ms)
  let ?st = "snd (receive_data m st)" and ?K = "\<lambda>m. window_key_of m = k"
  have nf: "uid_of m \<notin> reliableFreshPublishers st" using Cons.prems(2) by simp
  have keys: "\<forall>x \<in> set (fst (receive_data m st)). window_key_of x = window_key_of m"
    using receive_data_keys [OF Cons.prems(1)] by blast
  have out: "filter ?K (fst (receive_data m st)) =
      (if ?K m then fst (window_accept m (window_at st k)) else [])"
    using keys nf by (auto simp: filter_empty_conv filter_id_conv fst_receive_data start_window_def)
  have at: "window_at ?st k = (if ?K m then snd (window_accept m (window_at st k)) else window_at st k)"
    using nf by (auto simp: window_at_receive start_window_def)
  have "filter ?K (fst (receive_all ms ?st)) = fst (window_run (filter ?K ms) (window_at ?st k)) \<and>
      window_at (snd (receive_all ms ?st)) k = snd (window_run (filter ?K ms) (window_at ?st k))"
    by (rule Cons.IH) (use Cons.prems rx_inv_receive in auto)
  then show ?case using out at by (simp split: prod.splits) auto
qed

text \<open>
  Topics and publishers do not disturb each other: of any interleaved traffic, what is
  delivered for one publisher and topic is exactly what that window alone would deliver
  from its own frames, in the same order.
\<close>

theorem rx_windows_independent:
  assumes "rx_inv st" "\<forall>m \<in> set ms. uid_of m \<notin> reliableFreshPublishers st"
  shows "filter (\<lambda>m. window_key_of m = k) (fst (receive_all ms st)) =
    fst (window_run (filter (\<lambda>m. window_key_of m = k) ms) (window_at st k))"
  using receive_all_project [OF assms] by blast

definition topic_frame :: "u64 \<Rightarrow> string \<Rightarrow> u64 \<Rightarrow> data_message" where
  "topic_frame u tn t = \<lparr>dm_identifier = \<lparr>id_pid = 1, id_tid = t, id_uid = u, id_endpoints = []\<rparr>,
     dm_topic_name = tn, dm_message_type = ''M'', dm_payload = [1]\<rparr>"

definition no_windows :: rx_state where
  "no_windows = \<lparr>reliableWindows = [], reliableFreshPublishers = {}\<rparr>"

lemma rx_inv_no_windows [simp]: "rx_inv no_windows"
  by (simp add: rx_inv_def no_windows_def window_at_def) (simp add: new_window_def)

lemma topic_frame_fields [simp]:
  "tid_of (topic_frame u tn t) = t" "uid_of (topic_frame u tn t) = u"
  "window_key_of (topic_frame u tn t) = window_key u (makeCompositeKey tn ''M'')"
  by (simp_all add: topic_frame_def window_key_of_def)

theorem rx_windows_independent_witness:
  "filter (\<lambda>m. window_key_of m = window_key 7 (makeCompositeKey ''a'' ''M''))
     (fst (receive_all [topic_frame 7 ''a'' 1, topic_frame 8 ''a'' 4, topic_frame 7 ''b'' 2] no_windows))
   = fst (window_run [topic_frame 7 ''a'' 1] new_window)"
  by (subst rx_windows_independent)
    (simp_all add: window_key_eq_iff makeCompositeKey_def, simp_all add: no_windows_def window_at_def)

lemma receive_after_note:
  "let st' = noteReliableStreamEstablished (uid_of m) st in
   fst (receive_data m st') = [m] \<and>
   nextExpected (window_at (snd (receive_data m st')) (window_key_of m)) = advance (tid_of m) \<and>
   rx_buffer (window_at (snd (receive_data m st')) (window_key_of m)) = [] \<and>
   uid_of m \<notin> reliableFreshPublishers (snd (receive_data m st'))"
  by (simp add: Let_def fst_receive_data window_at_receive start_window_def
      noteReliableStreamEstablished_def accept_baseline reset_window_def new_window_def deliver_def)

text \<open>
  Resume after a reconnect: whatever the windows held, the first frame that arrives
  from a publisher after its stream was re-established is delivered at once, whatever its
  sequence number, and the window then expects its successor.
\<close>

theorem rx_resumes_after_reconnect:
  "let st' = noteReliableStreamEstablished (uid_of m) st in
   fst (receive_data m st') = [m] \<and>
   nextExpected (window_at (snd (receive_data m st')) (window_key_of m)) = advance (tid_of m) \<and>
   rx_buffer (window_at (snd (receive_data m st')) (window_key_of m)) = [] \<and>
   uid_of m \<notin> reliableFreshPublishers (snd (receive_data m st'))"
  by (rule receive_after_note)

lemma receive_all_keys:
  "rx_inv st \<Longrightarrow> \<forall>m \<in> set ms. window_key_of m = k \<Longrightarrow>
   \<forall>m \<in> set (fst (receive_all ms st)). window_key_of m = k"
proof (induction ms arbitrary: st)
  case (Cons m ms)
  then show ?case
    using receive_data_keys [OF Cons.prems(1), of _ m] rx_inv_receive [OF Cons.prems(1), of m]
    by (fastforce split: prod.splits)
qed simp

text \<open>
  The freshness mark is spent by the first frame of any topic. A second topic of the
  same publisher whose window does not exist yet then starts at sequence number 1 instead
  of being baselined: if its stream is already ahead (but within 256), nothing of it is
  ever delivered on this connection.
\<close>

theorem rx_second_topic_stalls:
  assumes inv: "rx_inv st" and a: "uid_of a = u" "window_key_of a \<noteq> k"
    and none: "map_of (reliableWindows st) k = None"
    and b: "in_window 1 b" "\<forall>m \<in> set (b # bs). uid_of m = u \<and> window_key_of m = k \<and> tid_of m \<noteq> 1"
  shows "fst (receive_all (a # b # bs) (noteReliableStreamEstablished u st)) = [a]"
proof -
  let ?st0 = "noteReliableStreamEstablished u st" and ?K = "\<lambda>m. window_key_of m = k"
  let ?st1 = "snd (receive_data a ?st0)"
  have at0: "window_at ?st0 k' = (if starts_with (window_prefix u) k' \<and> map_of (reliableWindows st) k' \<noteq> None
      then reset_window (window_at st k') else window_at st k')" for k'
    by (cases "map_of (reliableWindows st) k'")
      (simp_all add: window_at_def noteReliableStreamEstablished_def map_of_reset_publisher)
  have res: "rx_buffer (reset_window v) = []" for v by (simp add: reset_window_def)
  have inv0: "rx_inv ?st0"
    unfolding rx_inv_def at0 using inv
    by (simp add: rx_inv_def res noteReliableStreamEstablished_def)
  have fa: "fst (receive_data a ?st0) = [a]" and nf: "u \<notin> reliableFreshPublishers ?st1"
    using receive_after_note [of a st] a(1) by (simp_all add: Let_def)
  have none0: "map_of (reliableWindows ?st0) k = None"
    using none by (simp add: noteReliableStreamEstablished_def map_of_reset_publisher)
  then have "window_at ?st0 k = new_window" by (simp add: window_at_def)
  then have at1: "window_at ?st1 k = new_window"
    using a(2) none0 window_at_receive [of a ?st0 k] by simp
  have "filter ?K (fst (receive_all (b # bs) ?st1)) = fst (window_run (filter ?K (b # bs)) new_window)"
    using receive_all_project [of ?st1 "b # bs" k] rx_inv_receive [OF inv0] nf b(2) at1 by simp
  moreover have "filter ?K (b # bs) = b # bs" using b(2) by (simp add: filter_id_conv)
  moreover have "fst (window_run (b # bs) new_window) = []"
  proof -
    let ?w = "new_window\<lparr>rx_buffer := om_emplace (tid_of b) b []\<rparr>"
    have acc: "window_accept b new_window = ([], ?w)" "window_inv ?w"
      using accept_buffers [of new_window b] window_inv_buffered [of new_window b] b(1)
      by (simp_all add: in_window_def new_window_def window_inv_empty)
    have "fst (window_run bs ?w) = []"
      using window_run_stalled [OF acc(2)] b(2) by (simp add: om_emplace_def new_window_def)
    then show ?thesis by (simp add: acc split: prod.splits)
  qed
  moreover have "filter ?K (fst (receive_all (b # bs) ?st1)) = fst (receive_all (b # bs) ?st1)"
    unfolding filter_id_conv
    by (rule receive_all_keys) (use rx_inv_receive [OF inv0] b(2) in blast)+
  ultimately have "fst (receive_all (b # bs) ?st1) = []" by metis
  moreover have "fst (receive_all (a # b # bs) ?st0) = [a] @ fst (receive_all (b # bs) ?st1)"
    using fa unfolding receive_all.simps(2) [of a] by (simp only: case_prod_beta fst_conv)
  ultimately show ?thesis by simp
qed

theorem rx_second_topic_stalls_witness:
  "fst (receive_all (topic_frame 7 ''a'' 50 # topic_frame 7 ''b'' 50 #
     map (topic_frame 7 ''b'') [51, 52, 53, 54]) (noteReliableStreamEstablished 7 no_windows))
   = [topic_frame 7 ''a'' 50]"
proof (rule rx_second_topic_stalls)
  show "in_window 1 (topic_frame 7 ''b'' 50)"
    by (simp add: in_window_def kReliableWindowSize_def)
  show "map_of (reliableWindows no_windows) (window_key 7 (makeCompositeKey ''b'' ''M'')) = None"
    by (simp add: no_windows_def)
qed (simp_all add: window_key_eq_iff makeCompositeKey_def)

end
