(* ===== verification/Edriel_Ring.thy ===== *)
theory Edriel_Ring
  imports Edriel_Prelude
begin

text \<open>
  \<open>SpscRing\<close> of \<open>Edriel/EdrielRing.hpp\<close>: the bounded ring between the receiver thread and
  one worker. Positions are 64-bit counters that only grow and are reduced modulo the
  capacity; a full ring overwrites the slot at the read position. The theory relates the
  ring to a list of waiting frames, states what overflow does to that list, accounts for
  every frame, and shows that the condition variable loses no wake-up.
\<close>

section \<open>State and operations\<close>

text \<open>The fields of the class. A slot is a \<open>std::unique_ptr\<close>: \<open>None\<close> is null.\<close>

record 'a spsc_ring =
  rg_capacity :: u64
  rg_slots :: "'a option list"
  rg_head :: u64
  rg_tail :: u64
  rg_dropped :: u64
  rg_closed :: bool

definition new_ring :: "u64 \<Rightarrow> 'a spsc_ring" where
  "new_ring capacity =
     \<lparr>rg_capacity = capacity, rg_slots = replicate (unat capacity) None,
      rg_head = 0, rg_tail = 0, rg_dropped = 0, rg_closed = False\<rparr>"

definition ring_index :: "'a spsc_ring \<Rightarrow> u64 \<Rightarrow> nat" where
  "ring_index r position = unat (position mod rg_capacity r)"

text \<open>\<open>publish\<close>: the returned flag is the \<open>notify_one\<close> of the condition variable.\<close>

definition ring_publish :: "'a option \<Rightarrow> 'a spsc_ring \<Rightarrow> bool \<times> 'a spsc_ring" where
  "ring_publish item r =
     (if rg_closed r \<or> item = None then (False, r)
      else
        let wasEmpty = (rg_head r = rg_tail r) in
        if rg_head r - rg_tail r < rg_capacity r
        then (wasEmpty,
              r\<lparr>rg_slots := (rg_slots r)[ring_index r (rg_head r) := item],
                rg_head := rg_head r + 1\<rparr>)
        else (wasEmpty,
              r\<lparr>rg_slots := (rg_slots r)[ring_index r (rg_tail r) := item],
                rg_dropped := rg_dropped r + 1\<rparr>))"

text \<open>Moving a frame out of its slot leaves a null pointer there.\<close>

definition ring_take :: "'a spsc_ring \<Rightarrow> 'a option \<times> 'a spsc_ring" where
  "ring_take r =
     (let i = ring_index r (rg_tail r) in
      (rg_slots r ! i,
       r\<lparr>rg_slots := (rg_slots r)[i := None], rg_tail := rg_tail r + 1\<rparr>))"

text \<open>
  \<open>pop\<close> blocks on the condition variable while the ring is empty and open; otherwise it
  returns a frame, or null once the ring is closed and drained.
\<close>

datatype 'a pop_result = Blocked | Returned "'a option"

definition ring_pop :: "'a spsc_ring \<Rightarrow> 'a pop_result \<times> 'a spsc_ring" where
  "ring_pop r =
     (if \<not> (rg_head r \<noteq> rg_tail r \<or> rg_closed r) then (Blocked, r)
      else if rg_head r = rg_tail r then (Returned None, r)
      else (case ring_take r of (item, r') \<Rightarrow> (Returned item, r')))"

definition ring_tryPop :: "'a spsc_ring \<Rightarrow> 'a option \<times> 'a spsc_ring" where
  "ring_tryPop r = (if rg_head r = rg_tail r then (None, r) else ring_take r)"

definition ring_close :: "'a spsc_ring \<Rightarrow> 'a spsc_ring" where
  "ring_close r = r\<lparr>rg_closed := True\<rparr>"

definition ring_size :: "'a spsc_ring \<Rightarrow> u64" where
  "ring_size r = rg_head r - rg_tail r"

definition ring_empty :: "'a spsc_ring \<Rightarrow> bool" where
  "ring_empty r \<longleftrightarrow> rg_head r = rg_tail r"

section \<open>The ring as a list\<close>

text \<open>
  The capacity divides the counter range (\<open>rx_ring_slots\<close> is a power of two), so the
  reduction modulo the capacity survives the wrap-around of the 64-bit counters.
\<close>

abbreviation ring_cap :: "'a spsc_ring \<Rightarrow> nat" where
  "ring_cap r \<equiv> unat (rg_capacity r)"

abbreviation ring_len :: "'a spsc_ring \<Rightarrow> nat" where
  "ring_len r \<equiv> unat (rg_head r - rg_tail r)"

definition ring_pos :: "'a spsc_ring \<Rightarrow> nat \<Rightarrow> nat" where
  "ring_pos r i = (unat (rg_tail r) + i) mod ring_cap r"

definition ring_inv :: "'a spsc_ring \<Rightarrow> bool" where
  "ring_inv r \<longleftrightarrow>
     0 < ring_cap r \<and> ring_cap r dvd 2 ^ 64 \<and> length (rg_slots r) = ring_cap r \<and>
     ring_len r \<le> ring_cap r \<and> (\<forall>i < ring_len r. rg_slots r ! ring_pos r i \<noteq> None)"

definition ring_list :: "'a spsc_ring \<Rightarrow> 'a list" where
  "ring_list r = map (\<lambda>i. the (rg_slots r ! ring_pos r i)) [0..<ring_len r]"

lemma length_ring_list [simp]: "length (ring_list r) = ring_len r"
  by (simp add: ring_list_def)

lemma nth_ring_list: "i < ring_len r \<Longrightarrow> ring_list r ! i = the (rg_slots r ! ring_pos r i)"
  by (simp add: ring_list_def)

lemma ring_index_plus:
  assumes "ring_cap r dvd 2 ^ 64"
  shows "ring_index r (rg_tail r + of_nat i) = ring_pos r i"
proof -
  have "unat (rg_tail r + of_nat i) = (unat (rg_tail r) + i) mod 2 ^ 64"
    by (simp add: unat_word_ariths unat_of_nat take_bit_eq_mod mod_simps)
  then show ?thesis
    using assms by (simp add: ring_index_def ring_pos_def unat_mod mod_mod_cancel)
qed

lemma ring_index_head:
  "ring_cap r dvd 2 ^ 64 \<Longrightarrow> ring_index r (rg_head r) = ring_pos r (ring_len r)"
  using ring_index_plus [of r "ring_len r"] by simp

lemma ring_index_tail: "ring_index r (rg_tail r) = ring_pos r 0"
  by (simp add: ring_index_def ring_pos_def unat_mod)

lemma ring_pos_less: "0 < ring_cap r \<Longrightarrow> ring_pos r i < ring_cap r"
  by (simp add: ring_pos_def)

lemma ring_pos_inj:
  assumes "i < ring_cap r" "j < ring_cap r" "ring_pos r i = ring_pos r j"
  shows "i = j"
  using assms mod_plus_inj [of i "ring_cap r" j "unat (rg_tail r)"] by (simp add: ring_pos_def)

section \<open>Every operation refines an operation on lists\<close>

lemma ring_len_lt: "(rg_head r - rg_tail r < rg_capacity r) = (ring_len r < ring_cap r)"
  by (simp add: word_less_nat_alt)

lemma ring_len_zero: "ring_len r = 0 \<longleftrightarrow> rg_head r = rg_tail r"
  by (auto simp: unat_eq_0)

lemma ring_empty_list: "rg_head r = rg_tail r \<longleftrightarrow> ring_list r = []"
  using length_ring_list [of r] by (metis length_0_conv ring_len_zero)

lemma new_ring_inv: "0 < unat c \<Longrightarrow> unat c dvd 2 ^ 64 \<Longrightarrow> ring_inv (new_ring c)"
  by (simp add: ring_inv_def new_ring_def)

lemma new_ring_fields [simp]:
  "ring_list (new_ring c) = []" "rg_capacity (new_ring c) = c" "\<not> rg_closed (new_ring c)"
  by (simp_all add: new_ring_def ring_list_def)

lemma ring_inv_unfold:
  assumes "ring_inv r"
  shows "0 < ring_cap r" "ring_cap r dvd 2 ^ 64" "length (rg_slots r) = ring_cap r"
    "ring_len r \<le> ring_cap r" "\<And>i. i < ring_len r \<Longrightarrow> rg_slots r ! ring_pos r i \<noteq> None"
  using assms by (auto simp: ring_inv_def)

lemma publish_room:
  fixes x :: 'a and r :: "'a spsc_ring"
  assumes inv: "ring_inv r" and op: "\<not> rg_closed r" and room: "ring_len r < ring_cap r"
  defines "r' \<equiv> snd (ring_publish (Some x) r)"
  shows "ring_inv r'" "ring_list r' = ring_list r @ [x]" "rg_dropped r' = rg_dropped r"
    "ring_cap r' = ring_cap r" "rg_closed r' = rg_closed r"
proof -
  note I = ring_inv_unfold [OF inv]
  let ?p = "ring_pos r (ring_len r)"
  have r': "r' = r\<lparr>rg_slots := (rg_slots r)[?p := Some x], rg_head := rg_head r + 1\<rparr>"
    using op room by (simp add: r'_def ring_publish_def ring_len_lt ring_index_head [OF I(2)])
  have "rg_head r - rg_tail r \<noteq> - 1"
    using room unat_u64_bound [of "rg_capacity r"] by (auto simp: unsigned_minus_1_eq_mask mask_eq_exp_minus_1)
  then have len: "ring_len r' = Suc (ring_len r)"
    using unat_Suc_u64 [of "rg_head r - rg_tail r"] by (simp add: r' algebra_simps)
  have pos: "ring_pos r' = ring_pos r" by (simp add: r' ring_pos_def fun_eq_iff)
  have slot: "rg_slots r' ! ring_pos r i = (if i = ring_len r then Some x else rg_slots r ! ring_pos r i)"
    if "i \<le> ring_len r" for i
    using that room ring_pos_inj [of i r "ring_len r"] ring_pos_less [OF I(1)]
    by (auto simp: r' nth_list_update I(3))
  show "ring_inv r'"
    unfolding ring_inv_def len pos using I room slot by (auto simp: r' less_Suc_eq_le)
  show "ring_list r' = ring_list r @ [x]"
    unfolding ring_list_def len pos by (auto simp: slot)
qed (use op room in \<open>auto simp: r'_def ring_publish_def ring_len_lt\<close>)

lemma publish_full:
  fixes x :: 'a and r :: "'a spsc_ring"
  assumes inv: "ring_inv r" and op: "\<not> rg_closed r" and full: "ring_len r = ring_cap r"
  defines "r' \<equiv> snd (ring_publish (Some x) r)"
  shows "ring_inv r'" "ring_list r' = x # tl (ring_list r)" "rg_dropped r' = rg_dropped r + 1"
    "ring_cap r' = ring_cap r" "rg_closed r' = rg_closed r"
proof -
  note I = ring_inv_unfold [OF inv]
  let ?p = "ring_pos r 0"
  have r': "r' = r\<lparr>rg_slots := (rg_slots r)[?p := Some x], rg_dropped := rg_dropped r + 1\<rparr>"
    using op full by (simp add: r'_def ring_publish_def ring_len_lt ring_index_tail)
  have pos: "ring_pos r' = ring_pos r" by (simp add: r' ring_pos_def fun_eq_iff)
  have len: "ring_len r' = ring_len r" by (simp add: r')
  have slot: "rg_slots r' ! ring_pos r i = (if i = 0 then Some x else rg_slots r ! ring_pos r i)"
    if "i < ring_len r" for i
    using that full ring_pos_inj [of i r 0] ring_pos_less [OF I(1)] I(1)
    by (auto simp: r' nth_list_update I(3))
  show "ring_inv r'"
    unfolding ring_inv_def len pos using I slot by (auto simp: r')
  show "ring_list r' = x # tl (ring_list r)"
    by (rule nth_equalityI)
      (use I(1) full in \<open>auto simp: nth_ring_list len pos slot nth_Cons' nth_tl\<close>)
qed (use op full in \<open>auto simp: r'_def ring_publish_def ring_len_lt\<close>)

lemma take_front:
  assumes inv: "ring_inv r" and ne: "ring_list r \<noteq> []"
  shows "fst (ring_take r) = Some (hd (ring_list r))"
    "ring_inv (snd (ring_take r))" "ring_list (snd (ring_take r)) = tl (ring_list r)"
    "ring_cap (snd (ring_take r)) = ring_cap r"
    "rg_closed (snd (ring_take r)) = rg_closed r" "rg_dropped (snd (ring_take r)) = rg_dropped r"
proof -
  note I = ring_inv_unfold [OF inv]
  define r' where "r' = snd (ring_take r)"
  have pos0: "0 < ring_len r" using ne length_ring_list [of r] by (metis length_greater_0_conv)
  have r': "r' = r\<lparr>rg_slots := (rg_slots r)[ring_pos r 0 := None], rg_tail := rg_tail r + 1\<rparr>"
    by (simp add: r'_def ring_take_def Let_def ring_index_tail)
  have len: "ring_len r' = ring_len r - 1"
    using pos0 unat_minus_u64 [of 1 "rg_head r - rg_tail r"]
    by (simp add: r' algebra_simps word_le_nat_alt)
  have pos: "ring_pos r' i = ring_pos r (Suc i)" for i
    using ring_index_plus [OF I(2), of "Suc i"] ring_index_plus [of r' i] I(2)
    by (simp add: r' ring_index_def algebra_simps)
  have slot: "rg_slots r' ! ring_pos r' i = rg_slots r ! ring_pos r (Suc i)"
    if "i < ring_len r'" for i
  proof -
    have "Suc i < ring_cap r" using that len I(4) by linarith
    then have "ring_pos r 0 \<noteq> ring_pos r (Suc i)" using ring_pos_inj [of 0 r "Suc i"] I(1) by auto
    then show ?thesis by (simp add: r' pos [unfolded r'])
  qed
  have frame: "length (rg_slots r') = length (rg_slots r)" "rg_capacity r' = rg_capacity r"
    by (simp_all add: r')
  show "fst (ring_take r) = Some (hd (ring_list r))"
    using ne pos0 I(5) by (auto simp: ring_take_def ring_index_tail hd_conv_nth nth_ring_list Let_def)
  show "ring_inv (snd (ring_take r))"
    unfolding r'_def [symmetric] ring_inv_def frame using I slot len by auto
  show "ring_list (snd (ring_take r)) = tl (ring_list r)"
    unfolding r'_def [symmetric]
    by (rule nth_equalityI) (use slot in \<open>auto simp: len nth_ring_list nth_tl\<close>)
qed (simp_all add: ring_take_def Let_def)

text \<open>
  What \<open>publish\<close> does to the waiting frames, as the code does it: room at the end, or
  the frame at the read position replaced by the newest one. \<open>drop_oldest\<close> is the
  policy the header announces ("older frames are evicted, retained frames stay in order").
\<close>

definition lmo_publish :: "nat \<Rightarrow> 'a \<Rightarrow> 'a list \<Rightarrow> 'a list" where
  "lmo_publish c x q = (if length q < c then q @ [x] else x # tl q)"

definition drop_oldest :: "nat \<Rightarrow> 'a \<Rightarrow> 'a list \<Rightarrow> 'a list" where
  "drop_oldest c x q = (if length q < c then q @ [x] else tl q @ [x])"

abbreviation publish :: "'a \<Rightarrow> 'a spsc_ring \<Rightarrow> 'a spsc_ring" where
  "publish x r \<equiv> snd (ring_publish (Some x) r)"

lemma publish_closed [simp]: "rg_closed r \<Longrightarrow> ring_publish item r = (False, r)"
  by (simp add: ring_publish_def)

lemma publish_null [simp]: "ring_publish None r = (False, r)"
  by (simp add: ring_publish_def)

lemma publish_open:
  assumes "ring_inv r" "\<not> rg_closed r"
  shows "ring_inv (publish x r)" "ring_cap (publish x r) = ring_cap r"
    "\<not> rg_closed (publish x r)"
    "ring_list (publish x r) = lmo_publish (ring_cap r) x (ring_list r)"
    "rg_dropped (publish x r) =
       rg_dropped r + (if ring_len r < ring_cap r then 0 else 1)"
proof -
  have "ring_len r = ring_cap r" if "\<not> ring_len r < ring_cap r"
    using that ring_inv_unfold(4) [OF assms(1)] by simp
  note full = publish_full [OF assms this]
  note room = publish_room [OF assms]
  show "ring_inv (publish x r)" by (cases "ring_len r < ring_cap r") (rule room full; simp)+
  show "ring_cap (publish x r) = ring_cap r"
    by (cases "ring_len r < ring_cap r") (rule room full; simp)+
  show "\<not> rg_closed (publish x r)"
    using assms(2) by (cases "ring_len r < ring_cap r") (simp_all add: room full)
  show "ring_list (publish x r) = lmo_publish (ring_cap r) x (ring_list r)"
    by (cases "ring_len r < ring_cap r") (simp_all add: room full lmo_publish_def)
  show "rg_dropped (publish x r) = rg_dropped r + (if ring_len r < ring_cap r then 0 else 1)"
    by (cases "ring_len r < ring_cap r") (simp_all add: room full)
qed

lemma publish_inv: "ring_inv r \<Longrightarrow> ring_inv (publish x r)"
  by (cases "rg_closed r") (simp_all add: publish_open)

lemma tryPop_items:
  assumes "ring_inv r"
  shows "ring_inv (snd (ring_tryPop r))"
    "fst (ring_tryPop r) = (if ring_list r = [] then None else Some (hd (ring_list r)))"
    "ring_list (snd (ring_tryPop r)) = tl (ring_list r)"
    "ring_cap (snd (ring_tryPop r)) = ring_cap r"
    "rg_closed (snd (ring_tryPop r)) = rg_closed r"
    "rg_dropped (snd (ring_tryPop r)) = rg_dropped r"
  using assms take_front [OF assms] by (auto simp: ring_tryPop_def ring_empty_list)

lemma pop_items:
  assumes "ring_inv r"
  shows "ring_pop r =
    (if ring_list r \<noteq> [] then (Returned (Some (hd (ring_list r))), snd (ring_take r))
     else if rg_closed r then (Returned None, r) else (Blocked, r))"
  using take_front [OF assms]
  by (auto simp: ring_pop_def ring_empty_list split: prod.splits)

lemma ring_pop_inv:
  assumes "ring_inv r" "ring_pop r = (pop_result.Returned x, r')"
  shows "ring_inv r'"
  using assms pop_items [OF assms(1)] take_front(2) [OF assms(1)] by (auto split: if_splits)

section \<open>The interface of a bounded queue\<close>

text \<open>
  What the receive pipeline relies on while no frame is dropped: a put appends, a take
  removes the front, and both keep the representation well formed.
\<close>

fun drain :: "('q \<Rightarrow> 'a option \<times> 'q) \<Rightarrow> nat \<Rightarrow> 'q \<Rightarrow> 'a list \<times> 'q" where
  "drain get 0 q = ([], q)"
| "drain get (Suc n) q =
     (case get q of
        (None, q') \<Rightarrow> ([], q')
      | (Some x, q') \<Rightarrow> (case drain get n q' of (xs, q'') \<Rightarrow> (x # xs, q'')))"

locale bounded_queue =
  fixes ok :: "'q \<Rightarrow> bool" and items :: "'q \<Rightarrow> 'a list" and bound :: "'q \<Rightarrow> nat"
    and put :: "'a \<Rightarrow> 'q \<Rightarrow> 'q" and get :: "'q \<Rightarrow> 'a option \<times> 'q"
  assumes ok_put: "ok q \<Longrightarrow> ok (put x q)"
    and bound_put: "ok q \<Longrightarrow> bound (put x q) = bound q"
    and items_put: "ok q \<Longrightarrow> length (items q) < bound q \<Longrightarrow> items (put x q) = items q @ [x]"
    and ok_get: "ok q \<Longrightarrow> ok (snd (get q))"
    and get_front: "ok q \<Longrightarrow> fst (get q) = (if items q = [] then None else Some (hd (items q)))"
    and items_get: "ok q \<Longrightarrow> items (snd (get q)) = tl (items q)"
begin

lemma items_put_all:
  "ok q \<Longrightarrow> length (items q) + length xs \<le> bound q \<Longrightarrow>
   items (fold put xs q) = items q @ xs \<and> ok (fold put xs q)"
  by (induction xs arbitrary: q) (simp_all add: ok_put bound_put items_put)

lemma drain_all:
  "ok q \<Longrightarrow> length (items q) \<le> n \<Longrightarrow>
   fst (drain get n q) = items q \<and> items (snd (drain get n q)) = []"
proof (induction n arbitrary: q)
  case 0
  then show ?case by simp
next
  case (Suc n)
  obtain y q' where g: "get q = (y, q')" by fastforce
  then have "ok q'" "items q' = tl (items q)"
    using ok_get [OF Suc.prems(1)] items_get [OF Suc.prems(1)] by simp_all
  with Suc.IH [of q'] Suc.prems g get_front [OF Suc.prems(1)] show ?case
    by (cases "items q") (auto split: prod.splits)
qed

lemma fifo_without_loss:
  assumes "ok q" "items q = []" "length xs \<le> bound q" "length xs \<le> n"
  shows "fst (drain get n (fold put xs q)) = xs"
  using items_put_all [OF assms(1), of xs] drain_all [of "fold put xs q" n] assms by simp

end

interpretation rxring: bounded_queue
  "\<lambda>r. ring_inv r \<and> \<not> rg_closed r" ring_list "\<lambda>r. ring_cap r" publish ring_tryPop
  by unfold_locales (auto simp: publish_open tryPop_items lmo_publish_def)

section \<open>Correctness of the ring\<close>

text \<open>
  C13. \<open>publish\<close> refines the list operation: on a closed ring it is ignored, on a ring
  with room it appends, on a full ring the newest frame takes the place of the oldest one
  at the front. The invariant and the capacity are kept and \<open>notify_one\<close> is raised
  exactly when an empty ring receives a frame.
\<close>

theorem ring_publish_refines:
  assumes "ring_inv r"
  shows "ring_inv (publish x r) \<and> ring_cap (publish x r) = ring_cap r \<and>
    ring_list (publish x r) =
      (if rg_closed r then ring_list r else lmo_publish (ring_cap r) x (ring_list r)) \<and>
    (fst (ring_publish (Some x) r) \<longleftrightarrow> \<not> rg_closed r \<and> ring_list r = [])"
  using assms publish_open [OF assms]
  by (auto simp: ring_empty_list ring_publish_def Let_def)

definition full_ring :: "nat spsc_ring" where
  "full_ring = publish 2 (publish 1 (new_ring 2))"

lemma full_ring_state: "ring_inv full_ring" "ring_list full_ring = [1, 2]"
  "rg_closed full_ring = False" "ring_cap full_ring = 2"
proof -
  have i: "ring_inv (new_ring 2 :: nat spsc_ring)" by (rule new_ring_inv) simp_all
  note p1 = publish_open [OF i, of 1] and p2 = publish_open [OF publish_inv [OF i], of 1 2]
  show "ring_inv full_ring" "ring_list full_ring = [1, 2]" "rg_closed full_ring = False"
    "ring_cap full_ring = 2"
    using i p1 p2 by (simp_all add: full_ring_def lmo_publish_def)
qed

theorem ring_publish_refines_witness:
  "ring_list (publish 3 full_ring) = [3, 2]"
  using ring_publish_refines [OF full_ring_state(1), of 3]
  by (simp add: full_ring_state lmo_publish_def)

text \<open>
  \<open>pop\<close> refines the removal of the front: it blocks exactly on an empty open ring,
  returns null exactly on a closed and drained one, and otherwise returns the frame at
  the front and leaves the rest in order.
\<close>

theorem ring_pop_refines:
  assumes "ring_inv r"
  shows "case ring_list r of
      [] \<Rightarrow> ring_pop r = (if rg_closed r then Returned None else Blocked, r)
    | x # xs \<Rightarrow> \<exists>r'. ring_pop r = (Returned (Some x), r') \<and> ring_inv r' \<and> ring_list r' = xs \<and>
        ring_cap r' = ring_cap r \<and> rg_closed r' = rg_closed r"
  using pop_items [OF assms] take_front [OF assms] by (auto split: list.splits)

theorem ring_pop_refines_witness:
  "fst (ring_pop full_ring) = Returned (Some 1)"
  using ring_pop_refines [OF full_ring_state(1)] by (auto simp: full_ring_state)

text \<open>
  First in, first out without loss: while no more frames are published than the ring
  has slots, draining the ring yields exactly the published frames in their order.
\<close>

theorem ring_fifo:
  assumes "ring_inv r" "\<not> rg_closed r" "ring_list r = []" "length xs \<le> ring_cap r"
  shows "fst (drain ring_tryPop (ring_cap r) (fold publish xs r)) = xs"
  using assms by (intro rxring.fifo_without_loss) auto

theorem ring_fifo_witness:
  "fst (drain ring_tryPop 4 (fold publish [7, 8, 9] (new_ring 4 :: nat spsc_ring))) = [7, 8, 9]"
  using ring_fifo [of "new_ring 4" "[7, 8, 9 :: nat]"] by (simp add: new_ring_inv)

lemma publish_overflow:
  assumes "ring_inv r" "\<not> rg_closed r" "ring_len r = ring_cap r"
  shows "ring_list (publish x r) = x # tl (ring_list r)"
    "ring_inv (publish x r)" "\<not> rg_closed (publish x r)"
    "ring_len (publish x r) = ring_cap (publish x r)"
    "rg_dropped (publish x r) = rg_dropped r + 1"
  using publish_full [OF assms] assms(2,3) ring_inv_unfold(1) [OF assms(1)]
    length_ring_list [of "publish x r"] length_ring_list [of r]
  by simp_all

lemma ring_burst_aux:
  "ring_inv r \<Longrightarrow> \<not> rg_closed r \<Longrightarrow> ring_len r = ring_cap r \<Longrightarrow> xs \<noteq> [] \<Longrightarrow>
   ring_list (fold publish xs r) = last xs # tl (ring_list r) \<and>
   rg_dropped (fold publish xs r) = rg_dropped r + of_nat (length xs)"
proof (induction xs arbitrary: r)
  case Nil
  then show ?case by simp
next
  case (Cons x xs)
  note o = publish_overflow [OF Cons.prems(1-3), of x]
  show ?case
    using Cons.IH [OF o(2,3,4)] o(1,5) by (cases xs) (simp_all add: algebra_simps)
qed

text \<open>
  Overload: a burst of frames published to a full ring leaves the old backlog in place
  and keeps of the burst only its last frame, which moves to the front of the queue; every
  overwritten frame is counted as dropped. So the ring is not a drop-oldest queue once it
  overflows: the second overflow discards the newest frame, not the oldest, and the
  surviving frame overtakes the backlog.
\<close>

theorem ring_burst:
  assumes "ring_inv r" "\<not> rg_closed r" "ring_len r = ring_cap r" "xs \<noteq> []"
  shows "ring_list (fold publish xs r) = last xs # tl (ring_list r) \<and>
    rg_dropped (fold publish xs r) = rg_dropped r + of_nat (length xs)"
  by (rule ring_burst_aux [OF assms])

theorem ring_burst_witness:
  "ring_list (fold publish [3, 4, 5] full_ring) = [5, 2] \<and>
   fold (drop_oldest 2) [3, 4, 5] [1, 2] = [4, 5 :: nat]"
  using ring_burst [OF full_ring_state(1), of "[3, 4, 5]"] length_ring_list [of full_ring]
  by (simp add: full_ring_state drop_oldest_def)

text \<open>Any sequence of producer and consumer operations, with what it accepts and yields.\<close>

datatype 'a ring_op = Publish "'a option" | TryPop | CloseRing

fun ring_run :: "'a ring_op list \<Rightarrow> 'a spsc_ring \<Rightarrow> nat \<times> 'a list \<times> 'a spsc_ring" where
  "ring_run [] r = (0, [], r)"
| "ring_run (Publish item # ops) r =
     (case ring_run ops (snd (ring_publish item r)) of (n, out, r') \<Rightarrow>
        ((if rg_closed r \<or> item = None then n else Suc n), out, r'))"
| "ring_run (TryPop # ops) r =
     (case ring_tryPop r of (y, r1) \<Rightarrow>
        (case ring_run ops r1 of (n, out, r') \<Rightarrow>
           (n, (case y of None \<Rightarrow> out | Some x \<Rightarrow> x # out), r')))"
| "ring_run (CloseRing # ops) r = ring_run ops (ring_close r)"

definition accounted :: "nat \<Rightarrow> 'a list \<Rightarrow> 'a spsc_ring \<Rightarrow> 'a spsc_ring \<Rightarrow> nat \<Rightarrow> bool" where
  "accounted n out r r' d \<longleftrightarrow>
     rg_dropped r' = rg_dropped r + of_nat d \<and>
     n + length (ring_list r) = length out + length (ring_list r') + d"

lemma ring_close_same [simp]:
  "ring_inv (ring_close r) = ring_inv r" "ring_list (ring_close r) = ring_list r"
  "rg_dropped (ring_close r) = rg_dropped r"
  by (simp_all add: ring_close_def ring_inv_def ring_list_def ring_pos_def)

lemma ring_publish_accounts:
  assumes "ring_inv r"
  shows "\<exists>d. accounted (if rg_closed r \<or> item = None then 0 else 1) [] r
    (snd (ring_publish item r)) d"
proof (cases "rg_closed r \<or> item = None")
  case True
  then show ?thesis by (auto simp: accounted_def intro!: exI [of _ 0])
next
  case False
  then obtain x where x: "item = Some x" and op: "\<not> rg_closed r" by auto
  show ?thesis
    using publish_open [OF assms op, of x] x op ring_inv_unfold(1,4) [OF assms]
      length_ring_list [of r]
    by (auto simp: accounted_def lmo_publish_def simp del: length_ring_list split: if_splits
      intro!: exI [of _ "if ring_len r < ring_cap r then 0 else 1 :: nat"])
qed

lemma accounted_trans:
  "accounted n out r r1 d \<Longrightarrow> accounted n' out' r1 r' d' \<Longrightarrow>
   accounted (n + n') (out @ out') r r' (d + d')"
  by (auto simp: accounted_def)

lemma ring_tryPop_accounts:
  "ring_inv r \<Longrightarrow> accounted 0 (case fst (ring_tryPop r) of None \<Rightarrow> [] | Some x \<Rightarrow> [x]) r
     (snd (ring_tryPop r)) 0"
  using tryPop_items [of r] by (cases "ring_list r") (auto simp: accounted_def simp del: length_ring_list)

lemma ring_run_accounts:
  "ring_inv r \<Longrightarrow> ring_run ops r = (n, out, r') \<Longrightarrow> \<exists>d. accounted n out r r' d"
proof (induction ops r arbitrary: n out rule: ring_run.induct)
  case (1 r)
  then show ?case by (auto simp: accounted_def intro!: exI [of _ 0])
next
  case (2 item ops r)
  obtain n1 out1 where run: "ring_run ops (snd (ring_publish item r)) = (n1, out1, r')"
    using "2.prems"(2) by (auto split: prod.splits)
  have "ring_inv (snd (ring_publish item r))"
    using "2.prems"(1) publish_inv by (cases item) auto
  from "2.IH" [OF this run] obtain d1 where
    "accounted n1 out1 (snd (ring_publish item r)) r' d1" by blast
  with ring_publish_accounts [OF "2.prems"(1), of item] obtain d where
    "accounted ((if rg_closed r \<or> item = None then 0 else 1) + n1) ([] @ out1) r r' d"
    by (blast dest: accounted_trans)
  with run "2.prems"(2) show ?case by (auto split: if_splits)
next
  case (3 ops r)
  obtain y r1 where y: "ring_tryPop r = (y, r1)" by fastforce
  obtain n1 out1 where run: "ring_run ops r1 = (n1, out1, r')"
    using "3.prems"(2) y by (auto split: prod.splits)
  have "ring_inv r1" using tryPop_items(1) [OF "3.prems"(1)] y by simp
  from "3.IH" [OF y [symmetric] this run] obtain d where "accounted n1 out1 r1 r' d" by blast
  moreover have "accounted 0 (case y of None \<Rightarrow> [] | Some x \<Rightarrow> [x]) r r1 0"
    using ring_tryPop_accounts [OF "3.prems"(1)] y by simp
  ultimately have "accounted (0 + n1) ((case y of None \<Rightarrow> [] | Some x \<Rightarrow> [x]) @ out1) r r' (0 + d)"
    by (rule accounted_trans [rotated])
  with y run "3.prems"(2) show ?case by (auto split: option.splits)
next
  case (4 ops r)
  then show ?case by (fastforce simp: accounted_def simp del: length_ring_list)
qed



section \<open>The condition variable loses no wake-up\<close>

text \<open>
  The one consumer of a ring is running, blocked in \<open>cv_.wait\<close>, or woken but not yet
  holding the mutex again. A step is one critical section of a ring operation; waits may
  also end spuriously. \<open>notify_one\<close> and \<open>notify_all\<close> wake a blocked consumer.
\<close>

datatype consumer = Running | Waiting | Woken

definition wake :: "consumer \<Rightarrow> consumer" where
  "wake c = (if c = Waiting then Woken else c)"

inductive ring_step :: "consumer \<times> 'a spsc_ring \<Rightarrow> consumer \<times> 'a spsc_ring \<Rightarrow> bool" where
  rs_publish: "ring_publish item r = (notify, r') \<Longrightarrow>
     ring_step (c, r) (if notify then wake c else c, r')"
| rs_close: "ring_step (c, r) (wake c, ring_close r)"
| rs_tryPop: "ring_tryPop r = (y, r') \<Longrightarrow> c \<noteq> Waiting \<Longrightarrow> ring_step (c, r) (c, r')"
| rs_block: "ring_pop r = (Blocked, r') \<Longrightarrow> c \<noteq> Waiting \<Longrightarrow> ring_step (c, r) (Waiting, r')"
| rs_return: "ring_pop r = (Returned y, r') \<Longrightarrow> c \<noteq> Waiting \<Longrightarrow> ring_step (c, r) (Running, r')"
| rs_spurious: "ring_step (Waiting, r) (Woken, r)"

definition ring_start :: "consumer \<times> 'a spsc_ring \<Rightarrow> bool" where
  "ring_start s \<longleftrightarrow> fst s = Running"

definition wait_inv :: "consumer \<times> 'a spsc_ring \<Rightarrow> bool" where
  "wait_inv s \<longleftrightarrow> (fst s = Waiting \<longrightarrow> rg_head (snd s) = rg_tail (snd s) \<and> \<not> rg_closed (snd s))"

lemma ring_step_wait_inv: "ring_step s t \<Longrightarrow> wait_inv s \<Longrightarrow> wait_inv t"
  by (induction rule: ring_step.induct)
    (auto simp: wait_inv_def wake_def ring_publish_def ring_pop_def Let_def
      split: if_splits prod.splits)

interpretation ring_wait: invariant_system ring_start ring_step wait_inv
  by unfold_locales (simp add: ring_start_def wait_inv_def, rule ring_step_wait_inv)

text \<open>
  C33. No lost wake-up: in every interleaving of the producer, \<open>close\<close> and the consumer, a
  consumer that is still blocked faces an empty ring that is open, so a worker never
  sleeps on frames that wait for it or through the shutdown.
\<close>

theorem ring_no_lost_wakeup:
  assumes "reach ring_start ring_step (Waiting, r)"
  shows "rg_head r = rg_tail r \<and> \<not> rg_closed r"
  using ring_wait.reach_inv [OF assms] by (simp add: wait_inv_def)

theorem ring_no_lost_wakeup_witness:
  "reach ring_start ring_step (Waiting, new_ring 2 :: nat spsc_ring) \<and>
   rg_head (new_ring 2 :: nat spsc_ring) = rg_tail (new_ring 2 :: nat spsc_ring)"
proof -
  have "reach ring_start ring_step (Running, new_ring 2 :: nat spsc_ring)"
    by (rule reach_init) (simp add: ring_start_def)
  moreover have "ring_pop (new_ring 2 :: nat spsc_ring) = (Blocked, new_ring 2)"
    by (simp add: ring_pop_def new_ring_def)
  then have "ring_step (Running, new_ring 2 :: nat spsc_ring) (Waiting, new_ring 2)"
    by (rule rs_block) simp
  ultimately have r: "reach ring_start ring_step (Waiting, new_ring 2 :: nat spsc_ring)"
    by (rule reach_step)
  then show ?thesis using ring_no_lost_wakeup [OF r] by simp
qed

end
