(* ===== verification/Edriel_Double.thy ===== *)
theory Edriel_Double
  imports Complex_Main Edriel_Std
begin

text \<open>
  The double-precision arithmetic of the program: IEEE-754 binary64 with rounding to
  nearest even, on the finite values the code computes with, represented by the rational
  numbers they stand for; and \<open>std::stod\<close>, which the configuration uses for fractions.
\<close>

section \<open>Rounding to binary64\<close>

function bit_length :: "int \<Rightarrow> nat" where
  "bit_length n = (if n \<le> 0 then 0 else Suc (bit_length (n div 2)))"
  by auto
termination by (relation "measure nat") auto

declare bit_length.simps [simp del]

definition pow2 :: "int \<Rightarrow> rat" where
  "pow2 e = (if 0 \<le> e then 2 ^ nat e else 1 / 2 ^ nat (- e))"

text \<open>The exponent of the leading bit of a non-zero rational.\<close>

definition ilog2 :: "rat \<Rightarrow> int" where
  "ilog2 x =
     (case quotient_of \<bar>x\<bar> of (n, d) \<Rightarrow>
        let e = int (bit_length n) - int (bit_length d)
        in if pow2 e \<le> \<bar>x\<bar> then e else e - 1)"

definition round_half_even :: "rat \<Rightarrow> int" where
  "round_half_even m =
     (let f = \<lfloor>m\<rfloor>; r = m - of_int f in
      if r < 1 / 2 then f else if 1 / 2 < r then f + 1 else if even f then f else f + 1)"

text \<open>
  53 significant bits, and the fixed exponent of the subnormal numbers below \<open>2 ^ -1022\<close>.
  Results of \<open>2 ^ 1024\<close> and more overflow; no computation of the program gets there.
\<close>

definition rnd64 :: "rat \<Rightarrow> rat" where
  "rnd64 x =
     (if x = 0 then 0
      else let q = max (ilog2 x) (-1022) - 52
           in of_int (round_half_even (x / pow2 q)) * pow2 q)"

definition fp_mult :: "rat \<Rightarrow> rat \<Rightarrow> rat" where
  "fp_mult a b = rnd64 (a * b)"

definition fp_plus :: "rat \<Rightarrow> rat \<Rightarrow> rat" where
  "fp_plus a b = rnd64 (a + b)"

definition fp_minus :: "rat \<Rightarrow> rat \<Rightarrow> rat" where
  "fp_minus a b = rnd64 (a - b)"

definition fp_div :: "rat \<Rightarrow> rat \<Rightarrow> rat" where
  "fp_div a b = rnd64 (a / b)"

definition fp_of_nat :: "nat \<Rightarrow> rat" where
  "fp_of_nat n = rnd64 (of_nat n)"

lemma pow2_pos [simp]: "0 < pow2 e"
  by (simp add: pow2_def)

lemma round_half_even_nonneg: "0 \<le> m \<Longrightarrow> 0 \<le> round_half_even m"
  by (auto simp: round_half_even_def Let_def)

lemma rnd64_nonneg: "0 \<le> x \<Longrightarrow> 0 \<le> rnd64 x"
  by (simp add: rnd64_def Let_def round_half_even_nonneg less_imp_le)

lemma rnd64_zero [simp]: "rnd64 0 = 0"
  by (simp add: rnd64_def)

lemma fp_of_nat_nonneg [simp]: "0 \<le> fp_of_nat n"
  by (simp add: fp_of_nat_def rnd64_nonneg)

lemma round_half_even_int [simp]: "round_half_even (of_int k) = k"
  by (simp add: round_half_even_def)

lemma bit_length_le: "n < 2 ^ k \<Longrightarrow> bit_length n \<le> k"
proof (induction k arbitrary: n)
  case 0
  then show ?case by (simp add: bit_length.simps)
next
  case (Suc k)
  then have "bit_length (n div 2) \<le> k" by auto
  then show ?case by (subst bit_length.simps) simp
qed

lemma quotient_of_nat: "quotient_of (of_nat n) = (int n, 1)"
  using quotient_of_int [of "int n"] by simp

lemma bit_length_one [simp]: "bit_length 1 = 1"
  by (simp add: bit_length.simps)

lemma ilog2_nat_le: "n < 2 ^ 53 \<Longrightarrow> ilog2 (of_nat n) \<le> 52"
  using bit_length_le [of "int n" 53] by (simp add: ilog2_def quotient_of_nat Let_def)

lemma pow2_nonpos: "q \<le> 0 \<Longrightarrow> pow2 q = 1 / 2 ^ nat (- q)"
  by (cases "q = 0") (simp_all add: pow2_def)

lemma pow2_nonpos_cancel: "q \<le> 0 \<Longrightarrow> 2 ^ nat (- q) * pow2 q = 1"
  by (simp add: pow2_nonpos)

text \<open>Integers below \<open>2 ^ 53\<close> are represented exactly.\<close>

lemma fp_of_nat_exact:
  assumes "n < 2 ^ 53"
  shows "fp_of_nat n = of_nat n"
proof -
  define q where "q = max (ilog2 (of_nat n)) (-1022) - 52"
  have q: "q \<le> 0" using ilog2_nat_le [OF assms] by (simp add: q_def)
  have "of_nat n / pow2 q = (of_int (int n * 2 ^ nat (- q)) :: rat)"
    using q by (simp add: pow2_nonpos)
  then have "round_half_even (of_nat n / pow2 q) = int n * 2 ^ nat (- q)"
    by (simp only: round_half_even_int)
  moreover have "of_int (int n * 2 ^ nat (- q)) * pow2 q = (of_nat n :: rat)"
    using pow2_nonpos_cancel [OF q] by (simp add: mult.assoc)
  ultimately show ?thesis
    by (simp only: fp_of_nat_def rnd64_def Let_def q_def [symmetric] if_cancel)
      (simp add: mult.assoc)
qed

end
