(* ===== verification/Edriel_Stod.thy ===== *)
theory Edriel_Stod
  imports Edriel_Double
begin

text \<open>
  \<open>std::stod\<close> as the configuration uses it: \<open>strtod\<close> in the "C" locale on the characters
  before the first NUL, correctly rounded, with the two exceptions \<open>stod\<close> adds (nothing
  converted, or \<open>ERANGE\<close>) as \<open>None\<close>.
\<close>

datatype double = Fin rat | Inf bool | NaN

definition is_space :: "char \<Rightarrow> bool" where
  "is_space c \<longleftrightarrow> (of_char c :: nat) = 32 \<or> (9 \<le> (of_char c :: nat) \<and> (of_char c :: nat) \<le> 13)"

definition to_lower :: "char \<Rightarrow> char" where
  "to_lower c = (let n = (of_char c :: nat) in if 65 \<le> n \<and> n \<le> 90 then char_of (n + 32) else c)"

definition is_xdigit :: "char \<Rightarrow> bool" where
  "is_xdigit c \<longleftrightarrow> is_digit c \<or> to_lower c \<in> set ''abcdef''"

definition xdigit_val :: "char \<Rightarrow> nat" where
  "xdigit_val c = (if is_digit c then digit_val c else of_char (to_lower c) - 87)"

definition is_word_char :: "char \<Rightarrow> bool" where
  "is_word_char c \<longleftrightarrow> is_digit c \<or> (97 \<le> (of_char (to_lower c) :: nat) \<and> (of_char (to_lower c) :: nat) \<le> 122)
     \<or> c = CHR ''_''"

text \<open>An optional sign; \<open>True\<close> is minus.\<close>

fun sign_prefix :: "string \<Rightarrow> bool \<times> string" where
  "sign_prefix [] = (False, [])"
| "sign_prefix (c # s) =
     (if c = CHR ''-'' then (True, s) else if c = CHR ''+'' then (False, s) else (False, c # s))"

text \<open>Digits around at most one point: their value as an integer, the fraction's length, the rest.\<close>

definition mantissa :: "(char \<Rightarrow> bool) \<Rightarrow> (char \<Rightarrow> nat) \<Rightarrow> int \<Rightarrow> string \<Rightarrow> (int \<times> nat \<times> string) option" where
  "mantissa digit val base s =
     (let ip = takeWhile digit s; r = dropWhile digit s;
          (fp, rest) = (case r of [] \<Rightarrow> ([], r)
            | c # r' \<Rightarrow> if c = CHR ''.'' \<and> (ip \<noteq> [] \<or> (r' \<noteq> [] \<and> digit (hd r')))
                then (takeWhile digit r', dropWhile digit r') else ([], r))
      in if ip @ fp = [] then None
         else Some (foldl (\<lambda>a c. base * a + int (val c)) 0 (ip @ fp), length fp, rest))"

text \<open>An exponent after the given letter; it is only consumed when it has a digit.\<close>

definition exponent :: "char \<Rightarrow> string \<Rightarrow> int \<times> string" where
  "exponent letter s =
     (case s of [] \<Rightarrow> (0, s)
      | c # r \<Rightarrow>
          (let (neg, r') = sign_prefix r; ds = takeWhile is_digit r' in
           if to_lower c = letter \<and> ds \<noteq> []
           then ((if neg then - int (digits_val ds) else int (digits_val ds)), dropWhile is_digit r')
           else (0, s)))"

definition power_int10 :: "int \<Rightarrow> rat" where
  "power_int10 e = (if 0 \<le> e then 10 ^ nat e else 1 / 10 ^ nat (- e))"

definition strtod_number :: "string \<Rightarrow> (rat \<times> string) option" where
  "strtod_number s =
     (case (if map to_lower (take 2 s) = ''0x'' then mantissa is_xdigit xdigit_val 16 (drop 2 s) else None)
      of Some (m, k, r) \<Rightarrow>
           (case exponent (CHR ''p'') r of (e, r') \<Rightarrow> Some (of_int m * pow2 (e - 4 * int k), r'))
       | None \<Rightarrow>
           (case mantissa is_digit digit_val 10 s of None \<Rightarrow> None
            | Some (m, k, r) \<Rightarrow>
                (case exponent (CHR ''e'') r of (e, r') \<Rightarrow>
                   Some (of_int m * power_int10 (e - int k), r'))))"

definition nan_payload :: "string \<Rightarrow> string" where
  "nan_payload s =
     (case s of [] \<Rightarrow> s
      | c # r \<Rightarrow> (case dropWhile is_word_char r of
            d # r' \<Rightarrow> if c = CHR ''('' \<and> d = CHR '')'' then r' else s
          | [] \<Rightarrow> s))"

text \<open>
  Range errors: a result of \<open>2 ^ 1024\<close> or more, or one that is inexact and, rounded with an
  unbounded exponent, below the smallest normal number.
\<close>

definition rnd_free :: "rat \<Rightarrow> rat" where
  "rnd_free x =
     (if x = 0 then 0
      else let q = ilog2 x - 52 in of_int (round_half_even (x / pow2 q)) * pow2 q)"

definition range_error :: "rat \<Rightarrow> bool" where
  "range_error x \<longleftrightarrow> x \<noteq> 0 \<and>
     (1024 \<le> ilog2 (rnd64 x) \<or> (rnd64 x \<noteq> x \<and> ilog2 (rnd_free x) < - 1022))"

definition strtod :: "string \<Rightarrow> (double \<times> string \<times> bool) option" where
  "strtod s =
     (case sign_prefix (dropWhile is_space s) of (neg, t) \<Rightarrow>
        if map to_lower (take 8 t) = ''infinity'' then Some (Inf neg, drop 8 t, False)
        else if map to_lower (take 3 t) = ''inf'' then Some (Inf neg, drop 3 t, False)
        else if map to_lower (take 3 t) = ''nan'' then Some (NaN, nan_payload (drop 3 t), False)
        else case strtod_number t of None \<Rightarrow> None
          | Some (x, r) \<Rightarrow> Some (Fin (if neg then - rnd64 x else rnd64 x), r, range_error x))"

text \<open>The value and the number of characters consumed, or an exception.\<close>

definition stod :: "string \<Rightarrow> (double \<times> nat) option" where
  "stod value =
     (let s = takeWhile (\<lambda>c. c \<noteq> CHR 0x00) value in
      case strtod s of None \<Rightarrow> None
      | Some (x, r, erange) \<Rightarrow> if erange then None else Some (x, length s - length r))"

end
