(* ===== verification/Edriel_Config.thy ===== *)
theory Edriel_Config
  imports Edriel_Stod Edriel_Keys
begin

text \<open>
  \<open>EdrielConfig.cpp\<close>: the strict per-key parsers and \<open>loadConfig\<close>. The YAML parser is a
  library the program calls: \<open>loadConfig\<close> takes it as an argument, a function from the file
  content to a node tree, or \<open>None\<close> for \<open>YAML::Exception\<close>. The types are those of an LP64
  platform (\<open>unsigned long\<close> and \<open>std::size_t\<close> have 64 bits).
\<close>

section \<open>Constants\<close>

definition kDefaultDiscoverySendPeriod :: int where "kDefaultDiscoverySendPeriod = 2"
definition kDefaultParticipantTimeout :: int where "kDefaultParticipantTimeout = 10"
definition kMaxConfigurableDuration :: int where "kMaxConfigurableDuration = 24 * 3600"
definition kDefaultGrpcPort :: u16 where "kDefaultGrpcPort = 4000"
definition kDefaultMaxAdvertisedEndpoints :: u64 where "kDefaultMaxAdvertisedEndpoints = 4"
definition kMaxAdvertisedEndpointsCap :: u64 where "kMaxAdvertisedEndpointsCap = 64"
definition kDefaultReceiverThreads :: u32 where "kDefaultReceiverThreads = 1"
definition kMinReceiverThreads :: u32 where "kMinReceiverThreads = 1"
definition kMaxReceiverThreads :: u32 where "kMaxReceiverThreads = 4"
definition kDefaultWorkerThreads :: u32 where "kDefaultWorkerThreads = 4"
definition kMinWorkerThreads :: u32 where "kMinWorkerThreads = 1"
definition kMaxWorkerThreads :: u32 where "kMaxWorkerThreads = 16"
definition kDefaultRxRingSlots :: u64 where "kDefaultRxRingSlots = 4096"
definition kDefaultSoRcvbufBytes :: u32 where "kDefaultSoRcvbufBytes = 0"
definition kMaxSoRcvbufBytes :: u32 where "kMaxSoRcvbufBytes = 1073741824"
definition kDefaultReliableOutboxMaxFrames :: u64 where "kDefaultReliableOutboxMaxFrames = 1024"
definition kDefaultReliableOutboxHwm :: rat where "kDefaultReliableOutboxHwm = 3 / 4"
definition kDefaultReliableOutboxLwm :: rat where "kDefaultReliableOutboxLwm = 1 / 4"
definition kDefaultReliableSendRateLimit :: u32 where "kDefaultReliableSendRateLimit = 0"

lemmas config_constants = kDefaultDiscoverySendPeriod_def kDefaultParticipantTimeout_def
  kMaxConfigurableDuration_def kDefaultGrpcPort_def kDefaultMaxAdvertisedEndpoints_def
  kMaxAdvertisedEndpointsCap_def kDefaultReceiverThreads_def kMinReceiverThreads_def
  kMaxReceiverThreads_def kDefaultWorkerThreads_def kMinWorkerThreads_def kMaxWorkerThreads_def
  kDefaultRxRingSlots_def kDefaultSoRcvbufBytes_def kMaxSoRcvbufBytes_def
  kDefaultReliableOutboxMaxFrames_def kDefaultReliableOutboxHwm_def
  kDefaultReliableOutboxLwm_def kDefaultReliableSendRateLimit_def

section \<open>The parsers\<close>

text \<open>
  Durations are \<open>std::chrono::seconds\<close>, a signed 64-bit count: the parsed \<open>unsigned long\<close>
  goes through \<open>static_cast<long long>\<close>.
\<close>

definition parseDurationSeconds :: "string \<Rightarrow> int \<Rightarrow> int" where
  "parseDurationSeconds value fallback =
     (case strict_uint 64 value of None \<Rightarrow> fallback
      | Some parsed \<Rightarrow>
          if parsed < 1 \<or> sint (of_nat parsed :: u64) > kMaxConfigurableDuration then fallback
          else sint (of_nat parsed :: u64))"

definition parsePort :: "string \<Rightarrow> u16 \<Rightarrow> u16" where
  "parsePort value fallback =
     (case strict_uint 64 value of None \<Rightarrow> fallback
      | Some parsed \<Rightarrow> if parsed < 1 \<or> parsed > 65535 then fallback else of_nat parsed)"

definition parseMaxEndpoints :: "string \<Rightarrow> u64 \<Rightarrow> u64" where
  "parseMaxEndpoints value fallback =
     (case strict_uint 64 value of None \<Rightarrow> fallback
      | Some parsed \<Rightarrow>
          if parsed < 1 then fallback
          else if parsed \<ge> unat kMaxAdvertisedEndpointsCap then kMaxAdvertisedEndpointsCap
          else of_nat parsed)"

definition parseCountRange :: "string \<Rightarrow> u32 \<Rightarrow> u32 \<Rightarrow> u32 \<Rightarrow> u32" where
  "parseCountRange value minVal maxVal fallback =
     (case strict_uint 64 value of None \<Rightarrow> fallback
      | Some parsed \<Rightarrow>
          if parsed < unat minVal \<or> parsed > unat maxVal then fallback else of_nat parsed)"

definition parseRingSlots :: "string \<Rightarrow> u64 \<Rightarrow> u64" where
  "parseRingSlots value fallback =
     (case strict_uint 64 value of None \<Rightarrow> fallback
      | Some v \<Rightarrow>
          let parsed = (of_nat v :: u64) in
          if parsed < 2 \<or> parsed AND (parsed - 1) \<noteq> 0 then fallback else parsed)"

definition parseOutboxMaxFrames :: "string \<Rightarrow> u64 \<Rightarrow> u64" where
  "parseOutboxMaxFrames value fallback =
     (case strict_uint 64 value of None \<Rightarrow> fallback
      | Some parsed \<Rightarrow> if parsed = 0 then fallback else of_nat parsed)"

text \<open>Comparisons with NaN are false; the bounds are finite.\<close>

definition parseWaterMark :: "string \<Rightarrow> rat \<Rightarrow> rat \<Rightarrow> rat \<Rightarrow> rat" where
  "parseWaterMark value minVal maxVal fallback =
     (if value = [] then fallback
      else case stod value of None \<Rightarrow> fallback
        | Some (parsed, consumed) \<Rightarrow>
            if consumed \<noteq> length value then fallback
            else (case parsed of
                Fin x \<Rightarrow> if \<not> (x > minVal \<and> x < maxVal) then fallback else x
              | Inf neg \<Rightarrow> fallback
              | NaN \<Rightarrow> fallback))"

definition parseRateLimit :: "string \<Rightarrow> u32 \<Rightarrow> u32" where
  "parseRateLimit value fallback =
     (case strict_uint 64 value of None \<Rightarrow> fallback | Some parsed \<Rightarrow> of_nat parsed)"

lemma dropWhile_tail_less:
  "x \<in> set xs \<Longrightarrow> length (dropWhile P xs) - Suc 0 < length xs"
  using length_dropWhile_le [of P xs] by (cases xs) auto

text \<open>
  The loop over the dotted parts: \<open>rest.find('.')\<close> splits off one octet; the result is the
  first octet and the number of parts, \<open>None\<close> where the loop returns the fallback.
\<close>

function octet_loop :: "string \<Rightarrow> u8 option \<Rightarrow> nat \<Rightarrow> (u8 \<times> nat) option" where
  "octet_loop rest firstOctet parts =
     (let octet = takeWhile (\<lambda>c. c \<noteq> CHR ''.'') rest;
          tail = dropWhile (\<lambda>c. c \<noteq> CHR ''.'') rest
      in if octet = [] \<or> 3 < length octet \<or> (1 < length octet \<and> hd octet = CHR ''0'') then None
         else case strict_uint 32 octet of None \<Rightarrow> None
           | Some parsed \<Rightarrow>
               if 255 < parsed then None
               else
                 let f = (case firstOctet of None \<Rightarrow> of_nat parsed | Some f \<Rightarrow> f) in
                 if tail = [] then Some (f, Suc parts)
                 else octet_loop (tl tail) (Some f) (Suc parts))"
  by pat_completeness auto
termination
  by (relation "measure (\<lambda>(rest, _, _). length rest)") (auto simp: dropWhile_tail_less)

declare octet_loop.simps [simp del]

definition parseMulticastAddress :: "string \<Rightarrow> string \<Rightarrow> string" where
  "parseMulticastAddress value fallback =
     (case octet_loop value None 0 of None \<Rightarrow> fallback
      | Some (firstOctet, parts) \<Rightarrow>
          if parts \<noteq> 4 then fallback
          else if firstOctet < 224 \<or> firstOctet > 239 then fallback
          else value)"

section \<open>Loading the configuration\<close>

record config =
  cf_port :: u16
  cf_multicastAddress :: string
  cf_discoverySendPeriod :: int
  cf_participantTimeout :: int
  cf_grpcPort :: u16
  cf_advertiseAddresses :: "string list"
  cf_peerEndpoints :: "string list"
  cf_maxAdvertisedEndpoints :: u64
  cf_receiverThreads :: u32
  cf_workerThreads :: u32
  cf_rxRingSlots :: u64
  cf_soRcvbufBytes :: u32
  cf_reliableOutboxMaxFrames :: u64
  cf_reliableOutboxHwm :: rat
  cf_reliableOutboxLwm :: rat
  cf_reliableSendRateLimit :: u32
  cf_fellBackToDefaults :: bool

definition default_config :: config where
  "default_config =
     \<lparr>cf_port = 30002, cf_multicastAddress = ''239.255.0.1'',
      cf_discoverySendPeriod = kDefaultDiscoverySendPeriod,
      cf_participantTimeout = kDefaultParticipantTimeout,
      cf_grpcPort = kDefaultGrpcPort, cf_advertiseAddresses = [], cf_peerEndpoints = [],
      cf_maxAdvertisedEndpoints = kDefaultMaxAdvertisedEndpoints,
      cf_receiverThreads = kDefaultReceiverThreads, cf_workerThreads = kDefaultWorkerThreads,
      cf_rxRingSlots = kDefaultRxRingSlots, cf_soRcvbufBytes = kDefaultSoRcvbufBytes,
      cf_reliableOutboxMaxFrames = kDefaultReliableOutboxMaxFrames,
      cf_reliableOutboxHwm = kDefaultReliableOutboxHwm,
      cf_reliableOutboxLwm = kDefaultReliableOutboxLwm,
      cf_reliableSendRateLimit = kDefaultReliableSendRateLimit,
      cf_fellBackToDefaults = False\<rparr>"

text \<open>
  The node tree. \<open>root["key"]\<close> is the value of the first entry whose key is that scalar;
  \<open>None\<close> is the undefined node.
\<close>

datatype yaml = YNull | YScalar string | YSequence "yaml list" | YMap "(yaml \<times> yaml) list"

definition yaml_get :: "(yaml \<times> yaml) list \<Rightarrow> string \<Rightarrow> yaml option" where
  "yaml_get doc key = map_of doc (YScalar key)"

definition scalar_of :: "yaml option \<Rightarrow> string option" where
  "scalar_of n = (case n of Some (YScalar s) \<Rightarrow> Some s | _ \<Rightarrow> None)"

definition fell_back :: "config \<Rightarrow> config" where
  "fell_back c = c\<lparr>cf_fellBackToDefaults := True\<rparr>"

text \<open>
  A key whose absence counts as a fallback, and one whose absence does not: the parser with
  its sentinel, and the assignment of a valid value.
\<close>

definition required_key ::
  "yaml option \<Rightarrow> (string \<Rightarrow> 'a) \<Rightarrow> 'a \<Rightarrow> ('a \<Rightarrow> config \<Rightarrow> config) \<Rightarrow> config \<Rightarrow> config" where
  "required_key node parse sentinel assign c =
     (case scalar_of node of
        Some s \<Rightarrow> if parse s \<noteq> sentinel then assign (parse s) c else fell_back c
      | None \<Rightarrow> fell_back c)"

definition optional_key ::
  "yaml option \<Rightarrow> (string \<Rightarrow> 'a) \<Rightarrow> 'a \<Rightarrow> ('a \<Rightarrow> config \<Rightarrow> config) \<Rightarrow> config \<Rightarrow> config" where
  "optional_key node parse sentinel assign c =
     (case scalar_of node of
        Some s \<Rightarrow> if parse s \<noteq> sentinel then assign (parse s) c else fell_back c
      | None \<Rightarrow> c)"

text \<open>One member of the back-pressure trio: its value and whether anything was invalid so far.\<close>

definition outbox_frames :: "yaml option \<Rightarrow> u64 \<Rightarrow> u64 \<times> bool" where
  "outbox_frames node current =
     (case scalar_of node of
        Some s \<Rightarrow> (let parsed = parseOutboxMaxFrames s 0 in
                   if parsed \<noteq> 0 then (parsed, False) else (current, True))
      | None \<Rightarrow> (current, False))"

definition outbox_mark :: "yaml option \<Rightarrow> rat \<Rightarrow> bool \<Rightarrow> rat \<times> bool" where
  "outbox_mark node current invalid =
     (case scalar_of node of
        Some s \<Rightarrow> (let parsed = parseWaterMark s 0 1 (- 1) in
                   if parsed > 0 then (parsed, invalid) else (current, True))
      | None \<Rightarrow> (current, invalid))"

definition load_outbox :: "(yaml \<times> yaml) list \<Rightarrow> config \<Rightarrow> config" where
  "load_outbox doc c =
     (let (frames, inv1) = outbox_frames (yaml_get doc ''reliable_outbox_max_frames'')
            (cf_reliableOutboxMaxFrames c);
          (hwm, inv2) = outbox_mark (yaml_get doc ''reliable_outbox_hwm'') (cf_reliableOutboxHwm c) inv1;
          (lwm, outboxInvalid) =
            outbox_mark (yaml_get doc ''reliable_outbox_lwm'') (cf_reliableOutboxLwm c) inv2
      in if outboxInvalid \<or> \<not> lwm < hwm
         then fell_back (c\<lparr>cf_reliableOutboxMaxFrames := kDefaultReliableOutboxMaxFrames,
                cf_reliableOutboxHwm := kDefaultReliableOutboxHwm,
                cf_reliableOutboxLwm := kDefaultReliableOutboxLwm\<rparr>)
         else c\<lparr>cf_reliableOutboxMaxFrames := frames, cf_reliableOutboxHwm := hwm,
                cf_reliableOutboxLwm := lwm\<rparr>)"

text \<open>The addresses of \<open>advertise_address\<close>, and whether the node is malformed.\<close>

definition advertise_items :: "yaml list \<Rightarrow> string list" where
  "advertise_items items =
     concat (map (\<lambda>i. case i of YScalar s \<Rightarrow> if s = [] then [] else [s] | _ \<Rightarrow> []) items)"

definition load_advertise :: "yaml option \<Rightarrow> config \<Rightarrow> config" where
  "load_advertise node c =
     (case node of
        None \<Rightarrow> c
      | Some YNull \<Rightarrow> c
      | Some (YScalar address) \<Rightarrow>
          (if address = [] then c
           else c\<lparr>cf_advertiseAddresses := cf_advertiseAddresses c @ [address]\<rparr>)
      | Some (YSequence items) \<Rightarrow>
          (let c' = c\<lparr>cf_advertiseAddresses := cf_advertiseAddresses c @ advertise_items items\<rparr>
           in if list_all (\<lambda>i. scalar_of (Some i) \<noteq> None) items then c' else fell_back c')
      | Some (YMap _) \<Rightarrow> fell_back c)"

text \<open>
  \<open>addPeer\<close>: the endpoint to add, or \<open>None\<close> for an invalid entry. \<open>raw.rfind(':')\<close> splits
  off the part after the last colon.
\<close>

definition addPeer :: "u16 \<Rightarrow> string \<Rightarrow> string option" where
  "addPeer grpcPort raw =
     (if raw = [] then None
      else if CHR '':'' \<notin> set raw then Some (raw @ '':'' @ to_string (unat grpcPort))
      else if parsePort (rev (takeWhile (\<lambda>c. c \<noteq> CHR '':'') (rev raw))) 0 = 0 then None
      else Some raw)"

definition peer_entry :: "u16 \<Rightarrow> yaml \<Rightarrow> string option" where
  "peer_entry grpcPort entry =
     (case entry of YScalar raw \<Rightarrow> addPeer grpcPort raw | _ \<Rightarrow> None)"

definition load_peers :: "yaml option \<Rightarrow> config \<Rightarrow> config" where
  "load_peers node c =
     (case node of
        None \<Rightarrow> c
      | Some n \<Rightarrow>
          (let es = (case n of YScalar raw \<Rightarrow> [addPeer (cf_grpcPort c) raw]
               | YSequence entries \<Rightarrow> map (peer_entry (cf_grpcPort c)) entries
               | _ \<Rightarrow> [None]);
               c' = c\<lparr>cf_peerEndpoints := cf_peerEndpoints c @ List.map_filter (\<lambda>e. e) es\<rparr>
           in if None \<in> set es then fell_back c' else c'))"

definition load_root :: "(yaml \<times> yaml) list \<Rightarrow> config \<Rightarrow> config" where
  "load_root doc c0 =
     (let get = yaml_get doc;
          c1 = required_key (get ''port'') (\<lambda>s. parsePort s 0) 0 (\<lambda>v. cf_port_update (\<lambda>_. v)) c0;
          c2 = required_key (get ''multicast_ip'') (\<lambda>s. parseMulticastAddress s []) []
                 (\<lambda>v. cf_multicastAddress_update (\<lambda>_. v)) c1;
          c3 = required_key (get ''discovery_period_seconds'') (\<lambda>s. parseDurationSeconds s 0) 0
                 (\<lambda>v. cf_discoverySendPeriod_update (\<lambda>_. v)) c2;
          c4 = required_key (get ''participant_timeout_seconds'') (\<lambda>s. parseDurationSeconds s 0) 0
                 (\<lambda>v. cf_participantTimeout_update (\<lambda>_. v)) c3;
          c5 = required_key (get ''grpc_port'') (\<lambda>s. parsePort s 0) 0
                 (\<lambda>v. cf_grpcPort_update (\<lambda>_. v)) c4;
          c6 = required_key (get ''max_advertised_endpoints'') (\<lambda>s. parseMaxEndpoints s 0) 0
                 (\<lambda>v. cf_maxAdvertisedEndpoints_update (\<lambda>_. v)) c5;
          c7 = optional_key (get ''receiver_threads'')
                 (\<lambda>s. parseCountRange s kMinReceiverThreads kMaxReceiverThreads 0) 0
                 (\<lambda>v. cf_receiverThreads_update (\<lambda>_. v)) c6;
          c8 = optional_key (get ''worker_threads'')
                 (\<lambda>s. parseCountRange s kMinWorkerThreads kMaxWorkerThreads 0) 0
                 (\<lambda>v. cf_workerThreads_update (\<lambda>_. v)) c7;
          c9 = optional_key (get ''rx_ring_slots'') (\<lambda>s. parseRingSlots s 0) 0
                 (\<lambda>v. cf_rxRingSlots_update (\<lambda>_. v)) c8;
          c10 = optional_key (get ''so_rcvbuf_bytes'')
                 (\<lambda>s. parseCountRange s 0 kMaxSoRcvbufBytes (- 1)) (- 1)
                 (\<lambda>v. cf_soRcvbufBytes_update (\<lambda>_. v)) c9;
          c11 = load_outbox doc c10;
          c12 = optional_key (get ''reliable_send_rate_limit'') (\<lambda>s. parseRateLimit s (- 1)) (- 1)
                 (\<lambda>v. cf_reliableSendRateLimit_update (\<lambda>_. v)) c11;
          c13 = load_advertise (get ''advertise_address'') c12
      in load_peers (get ''peers'') c13)"

text \<open>\<open>content\<close> is \<open>None\<close> when the file cannot be opened.\<close>

definition loadConfig :: "(string \<Rightarrow> yaml option) \<Rightarrow> string option \<Rightarrow> config" where
  "loadConfig yamlLoad content =
     (case content of None \<Rightarrow> default_config
      | Some text \<Rightarrow>
          if text = [] then default_config
          else (case yamlLoad text of
              Some (YMap doc) \<Rightarrow> load_root doc default_config
            | _ \<Rightarrow> default_config))"

section \<open>The dotted quad\<close>

fun dotted :: "nat list \<Rightarrow> string" where
  "dotted [] = []"
| "dotted [n] = to_string n"
| "dotted (n # m # ns) = to_string n @ CHR ''.'' # dotted (m # ns)"

lemma not_digit_dot [simp]: "\<not> is_digit (CHR ''.'')"
  by (simp add: is_digit_def)

lemma octet_iff:
  "strict_uint 32 s = Some n \<and> n \<le> 255 \<and> s \<noteq> [] \<and> length s \<le> 3 \<and>
     \<not> (1 < length s \<and> hd s = CHR ''0'') \<longleftrightarrow> n \<le> 255 \<and> s = to_string n"
  (is "?l \<longleftrightarrow> ?r")
proof
  assume ?l
  then have "to_string (digits_val s) = s" "digits_val s = n" "n \<le> 255"
    using to_string_digits_val [of s] by (auto simp: strict_uint_iff)
  then show ?r by auto
next
  assume ?r
  then show ?l
    using strict_uint_to_string [of n 32] to_string_ne [of n] length_to_string_255 [of n]
      to_string_one_zero [of n] by auto
qed

lemma takeWhile_octet [simp]:
  "takeWhile (\<lambda>c. c \<noteq> CHR ''.'') (to_string n @ CHR ''.'' # r) = to_string n"
  "dropWhile (\<lambda>c. c \<noteq> CHR ''.'') (to_string n @ CHR ''.'' # r) = CHR ''.'' # r"
  "takeWhile (\<lambda>c. c \<noteq> CHR ''.'') (to_string n) = to_string n"
  "dropWhile (\<lambda>c. c \<noteq> CHR ''.'') (to_string n) = []"
proof -
  have *: "\<forall>c \<in> set (to_string n). c \<noteq> CHR ''.''"
    using not_digit_notin_to_string [OF not_digit_dot] by metis
  show "takeWhile (\<lambda>c. c \<noteq> CHR ''.'') (to_string n @ CHR ''.'' # r) = to_string n"
    "dropWhile (\<lambda>c. c \<noteq> CHR ''.'') (to_string n @ CHR ''.'' # r) = CHR ''.'' # r"
    using * by (simp_all add: takeWhile_append2 dropWhile_append2)
  show "takeWhile (\<lambda>c. c \<noteq> CHR ''.'') (to_string n) = to_string n"
    "dropWhile (\<lambda>c. c \<noteq> CHR ''.'') (to_string n) = []"
    using * by (simp_all add: takeWhile_eq_all_conv)
qed

lemma octet_step:
  "n \<le> 255 \<Longrightarrow> takeWhile (\<lambda>c. c \<noteq> CHR ''.'') s = to_string n \<Longrightarrow>
   octet_loop s f k =
     (let g = (case f of None \<Rightarrow> of_nat n | Some f \<Rightarrow> f); tl' = dropWhile (\<lambda>c. c \<noteq> CHR ''.'') s
      in if tl' = [] then Some (g, Suc k) else octet_loop (tl tl') (Some g) (Suc k))"
  using octet_iff [of "to_string n" n] by (subst octet_loop.simps) auto

lemma octet_loop_head:
  "n \<le> 255 \<Longrightarrow> octet_loop (to_string n @ CHR ''.'' # r) f k =
     octet_loop r (Some (case f of None \<Rightarrow> of_nat n | Some f \<Rightarrow> f)) (Suc k)"
  "n \<le> 255 \<Longrightarrow> octet_loop (to_string n) f k =
     Some (case f of None \<Rightarrow> of_nat n | Some f \<Rightarrow> f, Suc k)"
  by (simp_all add: octet_step [of n])

lemma octet_loop_dotted:
  "ns \<noteq> [] \<Longrightarrow> \<forall>n \<in> set ns. n \<le> 255 \<Longrightarrow>
   octet_loop (dotted ns) f k = Some (case f of None \<Rightarrow> of_nat (hd ns) | Some f \<Rightarrow> f, k + length ns)"
  by (induction ns arbitrary: f k rule: dotted.induct) (simp_all add: octet_loop_head split: option.splits)

lemma octet_loop_Some:
  "octet_loop s f k = Some r \<Longrightarrow> \<exists>ns. ns \<noteq> [] \<and> (\<forall>n \<in> set ns. n \<le> 255) \<and> s = dotted ns"
proof (induction s f k rule: octet_loop.induct)
  case (1 s f k)
  let ?o = "takeWhile (\<lambda>c. c \<noteq> CHR ''.'') s" and ?t = "dropWhile (\<lambda>c. c \<noteq> CHR ''.'') s"
  have "\<exists>n. strict_uint 32 ?o = Some n \<and> n \<le> 255 \<and> ?o \<noteq> [] \<and> length ?o \<le> 3 \<and>
      \<not> (1 < length ?o \<and> hd ?o = CHR ''0'')"
    using "1.prems" unfolding octet_loop.simps [of s f k] Let_def
    by (simp split: if_split_asm option.split_asm)
  then obtain n where n: "strict_uint 32 ?o = Some n" "n \<le> 255" and o: "?o = to_string n"
    using octet_iff [of ?o] by metis
  show ?case
  proof (cases "?t = []")
    case True
    then have "s = to_string n"
      using o takeWhile_dropWhile_id [of "\<lambda>c. c \<noteq> CHR ''.''" s] by (metis append_Nil2)
    then show ?thesis using n(2) by (intro exI [of _ "[n]"]) simp
  next
    case False
    then have s: "s = to_string n @ CHR ''.'' # tl ?t"
      using o takeWhile_dropWhile_id [of "\<lambda>c. c \<noteq> CHR ''.''" s] hd_dropWhile [OF False]
      by (cases ?t) auto
    define g where "g = (case f of None \<Rightarrow> of_nat n | Some f \<Rightarrow> f)"
    have "octet_loop (tl ?t) (Some g) (Suc k) = Some r"
      using "1.prems" False by (subst (asm) octet_step [OF n(2) o]) (auto simp: Let_def g_def split: if_splits)
    then have "\<exists>ns. ns \<noteq> [] \<and> (\<forall>n \<in> set ns. n \<le> 255) \<and> tl ?t = dotted ns"
      using "1.IH" [OF refl refl _ n(1) _ g_def False] n(2) o octet_iff [of ?o n] by auto
    then obtain ns where ns: "ns \<noteq> []" "\<forall>n \<in> set ns. n \<le> 255" "tl ?t = dotted ns" by blast
    then have "s = dotted (n # ns)" using s by (cases ns) auto
    then show ?thesis using ns n(2) by (intro exI [of _ "n # ns"]) simp
  qed
qed

text \<open>
  \<open>parseMulticastAddress\<close> accepts exactly the multicast addresses in canonical dotted
  form: four decimal octets up to 255 without leading zeros, signs or spaces, the first in
  224 to 239. Every other text gives the fallback, and an accepted text is returned as it is.
\<close>

theorem parseMulticastAddress_exact:
  "parseMulticastAddress value fallback =
     (if \<exists>a b c d. 224 \<le> a \<and> a \<le> 239 \<and> b \<le> 255 \<and> c \<le> 255 \<and> d \<le> 255 \<and>
         value = to_string a @ ''.'' @ to_string b @ ''.'' @ to_string c @ ''.'' @ to_string d
      then value else fallback)"
  (is "_ = (if ?P then _ else _)")
proof (cases ?P)
  case True
  then obtain a b c d where v: "value = dotted [a, b, c, d]"
    "224 \<le> a \<and> a \<le> 239 \<and> b \<le> 255 \<and> c \<le> 255 \<and> d \<le> 255" by auto
  then have "octet_loop value None 0 = Some (of_nat a, 4)"
    using octet_loop_dotted [of "[a, b, c, d]" None 0] by simp
  then have "parseMulticastAddress value fallback = value"
    using v(2) by (simp add: parseMulticastAddress_def word_less_nat_alt unat_of_nat take_bit_nat_eq_self)
  then show ?thesis by (simp only: True if_True)
next
  case False
  have ?P if acc: "octet_loop value None 0 = Some (f, 4)" "224 \<le> f" "f \<le> 239" for f
  proof -
    obtain ns where ns: "ns \<noteq> []" "\<forall>n \<in> set ns. n \<le> 255" "value = dotted ns"
      using octet_loop_Some [OF acc(1)] by blast
    then have "f = of_nat (hd ns)" "length ns = 4"
      using octet_loop_dotted [OF ns(1,2), of None 0] acc(1) by auto
    then obtain a b c d where "ns = [a, b, c, d]" "f = of_nat a"
      by (auto simp: length_Suc_conv numeral_eq_Suc)
    with ns acc(2,3) show ?thesis
      by (intro exI [of _ a] exI [of _ b] exI [of _ c] exI [of _ d])
        (simp add: word_le_nat_alt unat_of_nat take_bit_nat_eq_self)
  qed
  with False have "\<not> (\<exists>f. octet_loop value None 0 = Some (f, 4) \<and> 224 \<le> f \<and> f \<le> 239)"
    by blast
  then have "parseMulticastAddress value fallback = fallback"
    unfolding parseMulticastAddress_def by (auto simp: not_less split: option.split)
  then show ?thesis by (simp only: False if_False)
qed

lemma to_string_dot_inj:
  "to_string a @ CHR ''.'' # r = to_string a' @ CHR ''.'' # r' \<longleftrightarrow> a = a' \<and> r = r'"
  using split_at_first_sep [of "CHR ''.''" "to_string a" "to_string a'" r r']
  by (auto simp: not_digit_notin_to_string)

lemma formatIpv4_octets: "unat (x AND (255 :: u32)) \<le> 255"
  using word_and_le1 [of x 255] by (simp add: word_le_nat_alt and.commute)

text \<open>
  What a node renders from an interface address it can also read from its
  configuration: \<open>formatIpv4\<close> of a multicast address is accepted and of any other address
  refused.
\<close>

lemma formatIpv4_accepted:
  "parseMulticastAddress (formatIpv4 ip) fallback =
     (let first = unat (drop_bit 24 ip AND 255) in
      if 224 \<le> first \<and> first \<le> 239 then formatIpv4 ip else fallback)"
proof -
  define a b c d where "a = unat (drop_bit 24 ip AND 255)" "b = unat (drop_bit 16 ip AND 255)"
    "c = unat (drop_bit 8 ip AND 255)" "d = unat (ip AND 255)"
  then have f: "formatIpv4 ip = dotted [a, b, c, d]" "\<forall>n \<in> set [a, b, c, d]. n \<le> 255"
    by (simp_all add: formatIpv4_def formatIpv4_octets)
  have "octet_loop (formatIpv4 ip) None 0 = Some (of_nat a, 4)"
    unfolding f(1) using octet_loop_dotted [OF _ f(2), of None 0] by simp
  then show ?thesis
    using f(2) by (auto simp: parseMulticastAddress_def word_less_nat_alt unat_of_nat
      take_bit_nat_eq_self Let_def a_b_c_d_def(1) [symmetric] not_less)
qed

section \<open>The integer keys\<close>

definition decimal :: "string \<Rightarrow> bool" where
  "decimal s \<longleftrightarrow> s \<noteq> [] \<and> (\<forall>c \<in> set s. is_digit c)"

lemma strict_uint_decimal:
  "strict_uint bits s = (if decimal s \<and> digits_val s < 2 ^ bits then Some (digits_val s) else None)"
proof (cases "strict_uint bits s")
  case None
  then show ?thesis using strict_uint_iff [of bits s "digits_val s"] by (auto simp: decimal_def)
next
  case (Some v)
  then show ?thesis using strict_uint_iff [of bits s v] by (auto simp: decimal_def)
qed

text \<open>
  The strict integer parsers accept exactly a non-empty run of decimal digits whose value
  is in range, and give the fallback for everything else, overflowing numbers included:
  \<open>parsePort\<close> in 1 to 65535, \<open>parseCountRange\<close> between its bounds, and
  \<open>parseMaxEndpoints\<close> from 1, clamped to 64 (as long as the number fits 64 bits).
\<close>

theorem strict_parsers_exact:
  "parsePort s p = (if decimal s \<and> 1 \<le> digits_val s \<and> digits_val s \<le> 65535
     then of_nat (digits_val s) else p) \<and>
   parseCountRange s lo hi q = (if decimal s \<and> unat lo \<le> digits_val s \<and> digits_val s \<le> unat hi
     then of_nat (digits_val s) else q) \<and>
   parseMaxEndpoints s e = (if decimal s \<and> 1 \<le> digits_val s \<and> digits_val s < 2 ^ 64
     then of_nat (min (digits_val s) 64) else e)"
proof -
  have "unat hi < 2 ^ 64"
    using unsigned_less [of hi] by (rule order.strict_trans) simp
  then show ?thesis
    by (auto simp: parsePort_def parseCountRange_def parseMaxEndpoints_def strict_uint_decimal
      kMaxAdvertisedEndpointsCap_def min_def)
qed

text \<open>
  \<open>parseDurationSeconds\<close> in full: a decimal from 1 to 86400 is taken, but a decimal of
  \<open>2 ^ 63\<close> or more that fits 64 bits is taken too, as a negative duration, because the
  cast to \<open>long long\<close> precedes the comparison with the upper bound.
\<close>

theorem parseDurationSeconds_exact:
  "parseDurationSeconds s fallback =
     (if decimal s \<and> 1 \<le> digits_val s \<and> digits_val s \<le> 86400 then int (digits_val s)
      else if decimal s \<and> 2 ^ 63 \<le> digits_val s \<and> digits_val s < 2 ^ 64
      then int (digits_val s) - 2 ^ 64
      else fallback)"
proof -
  have lo: "sint (of_nat n :: u64) = int n" if "n < 2 ^ 63" for n
    using that by (simp add: signed_of_nat signed_take_bit_int_eq_self)
  have hi: "sint (of_nat n :: u64) = int n - 2 ^ 64" if "2 ^ 63 \<le> n" "n < 2 ^ 64" for n
  proof -
    have "(of_nat n :: u64) = of_int (int n - 2 ^ 64)" by simp
    then show ?thesis using that by (simp only: signed_of_int) (simp add: signed_take_bit_int_eq_self)
  qed
  show ?thesis
  proof (cases "decimal s \<and> digits_val s < 2 ^ 64")
    case True
    then show ?thesis
      using lo [of "digits_val s"] hi [of "digits_val s"]
      by (cases "digits_val s < 2 ^ 63")
        (simp_all add: parseDurationSeconds_def strict_uint_decimal kMaxConfigurableDuration_def)
  qed (auto simp: parseDurationSeconds_def strict_uint_decimal)
qed

lemma and_pred_power_of_two: "0 < n \<Longrightarrow> n AND (n - 1) = (0 :: nat) \<longleftrightarrow> (\<exists>k. n = 2 ^ k)"
proof (induction n rule: less_induct)
  case (less n)
  show ?case
  proof (cases "even n")
    case False
    then obtain m where n: "n = 2 * m + 1" by (elim oddE)
    then have "n AND (n - 1) = 2 * m" by (subst and_rec) simp
    moreover have "m = 0" if "n = 2 ^ k" for k using that False n by (cases k) auto
    ultimately show ?thesis using n by (auto intro: exI [of _ 0])
  next
    case True
    then obtain m where n: "n = 2 * m" by (elim evenE)
    then have m: "0 < m" "m < n" using less.prems by auto
    then have d: "(2 * m - Suc 0) div 2 = m - Suc 0" by (cases m) auto
    have "n AND (n - 1) = 2 * (m AND (m - 1))"
      unfolding n by (subst and_rec) (simp add: d)
    moreover have "(\<exists>k. n = 2 ^ k) \<longleftrightarrow> (\<exists>k. m = 2 ^ k)"
    proof
      assume "\<exists>k. n = 2 ^ k"
      then obtain k where "2 * m = 2 ^ k" using n by auto
      moreover then obtain j where "k = Suc j" by (cases k) auto
      ultimately show "\<exists>k. m = 2 ^ k" by auto
    next
      assume "\<exists>k. m = 2 ^ k"
      then obtain k where "m = 2 ^ k" ..
      then show "\<exists>k. n = 2 ^ k" unfolding n by (intro exI [of _ "Suc k"]) simp
    qed
    ultimately show ?thesis using less.IH [OF m(2,1)] by simp
  qed
qed

lemma u64_single_bit:
  assumes "2 \<le> n" "n < 2 ^ 64"
  shows "(of_nat n :: u64) AND (of_nat n - 1) = 0 \<longleftrightarrow> (\<exists>k. n = 2 ^ k)"
proof -
  have u: "unat (of_nat n :: u64) = n" using assms by (simp add: unat_of_nat_u64)
  have "unat (of_nat n - 1 :: u64) = n - 1"
    using assms u by (subst unat_minus_one) (auto simp: unat_eq_zero [symmetric] simp del: unat_eq_zero)
  then have "unat ((of_nat n :: u64) AND (of_nat n - 1)) = n AND (n - 1)"
    by (simp add: unsigned_and_eq u)
  then show ?thesis
    using and_pred_power_of_two [of n] assms by (simp add: unat_eq_zero [symmetric] del: unat_eq_zero)
qed

lemma power_two_range:
  "(\<exists>k. 1 \<le> k \<and> k < 64 \<and> n = 2 ^ k) \<longleftrightarrow> 2 \<le> n \<and> n < 2 ^ 64 \<and> (\<exists>k. n = (2 :: nat) ^ k)"
proof
  assume "\<exists>k. 1 \<le> k \<and> k < 64 \<and> n = 2 ^ k"
  then obtain k where k: "1 \<le> k" "k < 64" "n = 2 ^ k" by blast
  have "(2 :: nat) ^ 1 \<le> 2 ^ k" using k(1) by (intro power_increasing) auto
  moreover have "(2 :: nat) ^ k < 2 ^ 64" using k(2) by (intro power_strict_increasing) auto
  ultimately show "2 \<le> n \<and> n < 2 ^ 64 \<and> (\<exists>k. n = 2 ^ k)" using k(3) by auto
next
  assume "2 \<le> n \<and> n < 2 ^ 64 \<and> (\<exists>k. n = 2 ^ k)"
  then obtain k where k: "n = 2 ^ k" "2 \<le> (2 :: nat) ^ k" "(2 :: nat) ^ k < 2 ^ 64" by auto
  have "1 \<le> k" using k(2) by (cases k) auto
  moreover have "k < 64" using k(3) by (rule power_less_imp_less_exp [rotated]) simp
  ultimately show "\<exists>k. 1 \<le> k \<and> k < 64 \<and> n = 2 ^ k" using k(1) by blast
qed

lemma parseRingSlots_eq:
  "parseRingSlots s fallback =
     (if decimal s \<and> (\<exists>k. 1 \<le> k \<and> k < 64 \<and> digits_val s = 2 ^ k)
      then of_nat (digits_val s) else fallback)"
proof -
  let ?n = "digits_val s"
  have "(\<exists>k. 1 \<le> k \<and> k < 64 \<and> ?n = 2 ^ k) \<longleftrightarrow> 2 \<le> ?n \<and> ?n < 2 ^ 64 \<and> (\<exists>k. ?n = 2 ^ k)"
    by (rule power_two_range)
  moreover have "(of_nat ?n :: u64) < 2 \<longleftrightarrow> ?n < 2" if "?n < 2 ^ 64"
    using that by (simp add: word_less_nat_alt unat_of_nat_u64)
  ultimately show ?thesis
    using u64_single_bit [of ?n]
    by (auto simp: parseRingSlots_def strict_uint_decimal Let_def not_less)
qed

text \<open>
  \<open>parseRingSlots\<close> accepts exactly the decimals that are powers of two from 2 to
  \<open>2 ^ 63\<close>, and gives the fallback for everything else.
\<close>

theorem parseRingSlots_exact:
  "parseRingSlots s fallback =
     (if decimal s \<and> (\<exists>k. 1 \<le> k \<and> k < 64 \<and> digits_val s = 2 ^ k)
      then of_nat (digits_val s) else fallback)"
  by (rule parseRingSlots_eq)

section \<open>Water marks and unchecked ceilings\<close>

text \<open>
  A water mark is either the fallback or lies strictly between its bounds: the open
  interval excludes 0, 1, infinities and NaN.
\<close>

lemma parseWaterMark_range:
  "parseWaterMark s lo hi fallback = fallback \<or>
   (lo < parseWaterMark s lo hi fallback \<and> parseWaterMark s lo hi fallback < hi)"
  by (simp add: parseWaterMark_def split: option.split double.split prod.split)

text \<open>
  The laxness of the less strict keys: a water mark in scientific notation, in
  hexadecimal or after white space is accepted like the decimal 0.75; a rate limit of
  \<open>2 ^ 32\<close> is truncated to 0, which means unlimited; and the frame bound has no ceiling.
\<close>

theorem lax_keys:
  "parseWaterMark ''7.5e-1'' 0 1 (- 1) = 3 / 4 \<and> parseWaterMark '' 0.75'' 0 1 (- 1) = 3 / 4 \<and>
   parseWaterMark ''0xCp-4'' 0 1 (- 1) = 3 / 4 \<and>
   parseRateLimit ''4294967296'' fallback = 0 \<and>
   parseOutboxMaxFrames ''18446744073709551615'' n = - 1"
proof -
  have "parseWaterMark ''7.5e-1'' 0 1 (- 1) = 3 / 4" by code_simp
  moreover have "parseWaterMark '' 0.75'' 0 1 (- 1) = 3 / 4" by code_simp
  moreover have "parseWaterMark ''0xCp-4'' 0 1 (- 1) = 3 / 4" by code_simp
  moreover have "strict_uint 64 ''4294967296'' = Some 4294967296"
    "strict_uint 64 ''18446744073709551615'' = Some 18446744073709551615"
    by (simp_all add: strict_uint_iff is_digit_def digits_val_def digit_val_def)
  ultimately show ?thesis
    by (simp add: parseRateLimit_def parseOutboxMaxFrames_def)
qed

section \<open>Every loaded configuration is valid\<close>

definition peer_ok :: "string \<Rightarrow> bool" where
  "peer_ok p \<longleftrightarrow> CHR '':'' \<in> set p \<and> parsePort (rev (takeWhile (\<lambda>c. c \<noteq> CHR '':'') (rev p))) 0 \<noteq> 0"

definition config_ok :: "config \<Rightarrow> bool" where
  "config_ok c \<longleftrightarrow>
     cf_port c \<noteq> 0 \<and> cf_grpcPort c \<noteq> 0 \<and>
     cf_multicastAddress c \<noteq> [] \<and> parseMulticastAddress (cf_multicastAddress c) [] = cf_multicastAddress c \<and>
     cf_discoverySendPeriod c \<noteq> 0 \<and> cf_discoverySendPeriod c \<le> kMaxConfigurableDuration \<and>
     cf_participantTimeout c \<noteq> 0 \<and> cf_participantTimeout c \<le> kMaxConfigurableDuration \<and>
     1 \<le> unat (cf_maxAdvertisedEndpoints c) \<and> unat (cf_maxAdvertisedEndpoints c) \<le> 64 \<and>
     kMinReceiverThreads \<le> cf_receiverThreads c \<and> cf_receiverThreads c \<le> kMaxReceiverThreads \<and>
     kMinWorkerThreads \<le> cf_workerThreads c \<and> cf_workerThreads c \<le> kMaxWorkerThreads \<and>
     (\<exists>k. 1 \<le> k \<and> k < 64 \<and> unat (cf_rxRingSlots c) = 2 ^ k) \<and>
     cf_soRcvbufBytes c \<le> kMaxSoRcvbufBytes \<and>
     cf_reliableOutboxMaxFrames c \<noteq> 0 \<and>
     0 < cf_reliableOutboxLwm c \<and> cf_reliableOutboxLwm c < cf_reliableOutboxHwm c \<and>
     cf_reliableOutboxHwm c < 1 \<and>
     (\<forall>a \<in> set (cf_advertiseAddresses c). a \<noteq> []) \<and> (\<forall>p \<in> set (cf_peerEndpoints c). peer_ok p)"

lemma config_ok_fell_back [simp]: "config_ok (fell_back c) = config_ok c"
  by (simp add: config_ok_def fell_back_def)

lemma required_key_rule:
  assumes "P c" "\<And>c. P c \<Longrightarrow> P (fell_back c)"
    and "\<And>s c. P c \<Longrightarrow> parse s \<noteq> sentinel \<Longrightarrow> P (assign (parse s) c)"
  shows "P (required_key node parse sentinel assign c)"
  using assms(2) [OF assms(1)] assms(3) [OF assms(1)] by (simp add: required_key_def split: option.split)

lemma optional_key_rule:
  assumes "P c" "\<And>c. P c \<Longrightarrow> P (fell_back c)"
    and "\<And>s c. P c \<Longrightarrow> parse s \<noteq> sentinel \<Longrightarrow> P (assign (parse s) c)"
  shows "P (optional_key node parse sentinel assign c)"
  using assms(1) assms(2) [OF assms(1)] assms(3) [OF assms(1)]
  by (simp add: optional_key_def split: option.split)

lemma parseMulticastAddress_cases:
  "parseMulticastAddress s fb = s \<or> parseMulticastAddress s fb = fb"
  by (simp add: parseMulticastAddress_def split: option.split prod.split)

lemma parseMulticastAddress_idem:
  "parseMulticastAddress s [] \<noteq> [] \<Longrightarrow>
   parseMulticastAddress (parseMulticastAddress s []) [] = parseMulticastAddress s []"
  by (metis parseMulticastAddress_cases)

lemma parseDurationSeconds_le: "parseDurationSeconds s 0 \<le> kMaxConfigurableDuration"
  by (simp add: parseDurationSeconds_def kMaxConfigurableDuration_def split: option.split)

lemma parseMaxEndpoints_bounds:
  "parseMaxEndpoints s 0 \<noteq> 0 \<Longrightarrow>
   1 \<le> unat (parseMaxEndpoints s 0) \<and> unat (parseMaxEndpoints s 0) \<le> 64"
  by (auto simp: parseMaxEndpoints_def kMaxAdvertisedEndpointsCap_def unat_of_nat_u64
    strict_uint_decimal not_less not_le split: option.splits if_splits)

lemma parseCountRange_bounds:
  "parseCountRange s lo hi q \<noteq> q \<Longrightarrow>
   lo \<le> parseCountRange s lo hi q \<and> parseCountRange s lo hi q \<le> hi"
  using unat_u32_bound [of hi]
  by (auto simp: parseCountRange_def word_le_nat_alt unat_of_nat take_bit_nat_eq_self
    split: option.splits if_splits)

lemma parseRingSlots_pow:
  "parseRingSlots s 0 \<noteq> 0 \<Longrightarrow> \<exists>k. 1 \<le> k \<and> k < 64 \<and> unat (parseRingSlots s 0) = 2 ^ k"
proof -
  assume "parseRingSlots s 0 \<noteq> 0"
  then obtain k where k: "1 \<le> k" "k < 64" "digits_val s = 2 ^ k" "parseRingSlots s 0 = of_nat (2 ^ k)"
    by (auto simp: parseRingSlots_eq split: if_splits)
  moreover have "(2 :: nat) ^ k < 2 ^ 64" using k(2) by (intro power_strict_increasing) auto
  ultimately have "unat (parseRingSlots s 0) = 2 ^ k" by (simp only: unat_of_nat_u64)
  with k show ?thesis by blast
qed

lemma parseWaterMark_unit:
  "0 < parseWaterMark s 0 1 (- 1) \<Longrightarrow> parseWaterMark s 0 1 (- 1) < 1"
  by (simp add: parseWaterMark_def split: option.splits double.splits prod.splits if_splits)

lemma config_ok_default: "config_ok default_config"
proof -
  have "''239.255.0.1'' = dotted [239, 255, 0, 1]" by code_simp
  then have "parseMulticastAddress ''239.255.0.1'' [] = ''239.255.0.1''"
    using octet_loop_dotted [of "[239, 255, 0, 1]" None 0] by (simp add: parseMulticastAddress_def)
  then show ?thesis
    by (simp add: config_ok_def default_config_def config_constants exI [of _ 12])
qed

lemma outbox_frames_ok: "outbox_frames node n = (n', b) \<Longrightarrow> n \<noteq> 0 \<Longrightarrow> n' \<noteq> 0"
  by (auto simp: outbox_frames_def Let_def split: option.splits if_splits)

lemma outbox_mark_ok:
  "outbox_mark node m b = (m', b') \<Longrightarrow> 0 < m \<and> m < 1 \<Longrightarrow> 0 < m' \<and> m' < 1"
  by (auto simp: outbox_mark_def Let_def parseWaterMark_unit split: option.splits if_splits)

lemma load_outbox_ok:
  assumes c: "config_ok c"
  shows "config_ok (load_outbox doc c)"
proof -
  obtain frames inv1 where f: "outbox_frames (yaml_get doc ''reliable_outbox_max_frames'')
      (cf_reliableOutboxMaxFrames c) = (frames, inv1)" by fastforce
  obtain hwm inv2 where h: "outbox_mark (yaml_get doc ''reliable_outbox_hwm'')
      (cf_reliableOutboxHwm c) inv1 = (hwm, inv2)" by fastforce
  obtain lwm inv3 where l: "outbox_mark (yaml_get doc ''reliable_outbox_lwm'')
      (cf_reliableOutboxLwm c) inv2 = (lwm, inv3)" by fastforce
  have "frames \<noteq> 0" using outbox_frames_ok [OF f] c by (simp add: config_ok_def)
  moreover have "0 < hwm \<and> hwm < 1" "0 < lwm \<and> lwm < 1"
    using outbox_mark_ok [OF h] outbox_mark_ok [OF l] c by (auto simp: config_ok_def)
  ultimately show ?thesis
    using c by (simp add: load_outbox_def f h l config_ok_def fell_back_def
      kDefaultReliableOutboxMaxFrames_def kDefaultReliableOutboxHwm_def kDefaultReliableOutboxLwm_def)
qed

lemma advertise_items_ne: "a \<in> set (advertise_items items) \<Longrightarrow> a \<noteq> []"
  by (auto simp: advertise_items_def split: yaml.splits if_splits)

lemma load_advertise_ok: "config_ok c \<Longrightarrow> config_ok (load_advertise node c)"
  by (auto simp: load_advertise_def Let_def config_ok_def fell_back_def dest: advertise_items_ne
    split: option.split yaml.split)

lemma to_string_no_colon: "\<forall>c \<in> set (to_string n). c \<noteq> CHR '':''"
  using not_digit_notin_to_string [of "CHR '':''"] by (auto simp: is_digit_def)

lemma parsePort_to_string: "p \<noteq> 0 \<Longrightarrow> parsePort (to_string (unat p)) q = p"
proof -
  assume "p \<noteq> 0"
  then have "1 \<le> unat p" by (simp add: Suc_le_eq unat_gt_0)
  moreover have "unat p < 2 ^ 16" using unsigned_less [of p] by simp
  ultimately show ?thesis by (simp add: parsePort_def strict_uint_to_string)
qed

lemma last_part_to_string:
  "rev (takeWhile (\<lambda>c. c \<noteq> CHR '':'') (rev (raw @ CHR '':'' # to_string n))) = to_string n"
proof -
  have "\<forall>c \<in> set (rev (to_string n)). c \<noteq> CHR '':''" using to_string_no_colon by simp
  then have "takeWhile (\<lambda>c. c \<noteq> CHR '':'') (rev (to_string n) @ CHR '':'' # rev raw) = rev (to_string n)"
    by (subst takeWhile_append2) auto
  then show ?thesis by simp
qed

lemma addPeer_ok:
  assumes "g \<noteq> 0" "addPeer g raw = Some e"
  shows "peer_ok e"
proof (cases "CHR '':'' \<in> set raw")
  case True
  then show ?thesis using assms(2) by (simp add: addPeer_def peer_ok_def split: if_split_asm)
next
  case False
  then have "e = raw @ CHR '':'' # to_string (unat g)"
    using assms(2) by (simp add: addPeer_def split: if_split_asm)
  then show ?thesis
    using assms(1) parsePort_to_string [OF assms(1)] by (simp only: peer_ok_def last_part_to_string) simp
qed

lemma load_peers_ok: "config_ok c \<Longrightarrow> config_ok (load_peers node c)"
proof -
  assume c: "config_ok c"
  then have g: "cf_grpcPort c \<noteq> 0" by (simp add: config_ok_def)
  have "peer_ok p" if "peer_entry (cf_grpcPort c) e = Some p" for e p
    using that addPeer_ok [OF g] by (auto simp: peer_entry_def split: yaml.splits)
  then show ?thesis
    using c addPeer_ok [OF g]
    by (cases node) (auto simp: load_peers_def Let_def config_ok_def fell_back_def List.map_filter_def
      split: yaml.splits)
qed

lemmas config_key_facts = parseMulticastAddress_idem parseDurationSeconds_le
  parseMaxEndpoints_bounds parseCountRange_bounds parseRingSlots_pow

lemma config_key_ok:
  assumes "config_ok c"
  shows "config_ok (required_key node (\<lambda>s. parsePort s 0) 0
        (\<lambda>v. cf_port_update (\<lambda>_. v)) c)"
    and "config_ok (required_key node (\<lambda>s. parseMulticastAddress s []) []
        (\<lambda>v. cf_multicastAddress_update (\<lambda>_. v)) c)"
    and "config_ok (required_key node (\<lambda>s. parseDurationSeconds s 0) 0
        (\<lambda>v. cf_discoverySendPeriod_update (\<lambda>_. v)) c)"
    and "config_ok (required_key node (\<lambda>s. parseDurationSeconds s 0) 0
        (\<lambda>v. cf_participantTimeout_update (\<lambda>_. v)) c)"
    and "config_ok (required_key node (\<lambda>s. parsePort s 0) 0
        (\<lambda>v. cf_grpcPort_update (\<lambda>_. v)) c)"
    and "config_ok (required_key node (\<lambda>s. parseMaxEndpoints s 0) 0
        (\<lambda>v. cf_maxAdvertisedEndpoints_update (\<lambda>_. v)) c)"
    and "config_ok (optional_key node (\<lambda>s. parseCountRange s kMinReceiverThreads kMaxReceiverThreads 0) 0
        (\<lambda>v. cf_receiverThreads_update (\<lambda>_. v)) c)"
    and "config_ok (optional_key node (\<lambda>s. parseCountRange s kMinWorkerThreads kMaxWorkerThreads 0) 0
        (\<lambda>v. cf_workerThreads_update (\<lambda>_. v)) c)"
    and "config_ok (optional_key node (\<lambda>s. parseRingSlots s 0) 0
        (\<lambda>v. cf_rxRingSlots_update (\<lambda>_. v)) c)"
    and "config_ok (optional_key node (\<lambda>s. parseCountRange s 0 kMaxSoRcvbufBytes (- 1)) (- 1)
        (\<lambda>v. cf_soRcvbufBytes_update (\<lambda>_. v)) c)"
    and "config_ok (optional_key node (\<lambda>s. parseRateLimit s (- 1)) (- 1)
        (\<lambda>v. cf_reliableSendRateLimit_update (\<lambda>_. v)) c)"
proof -
  note r = required_key_rule [where P = config_ok, OF assms config_ok_fell_back [THEN iffD2]] and o = optional_key_rule [where P = config_ok, OF assms config_ok_fell_back [THEN iffD2]]
  show "config_ok (required_key node (\<lambda>s. parsePort s 0) 0
        (\<lambda>v. cf_port_update (\<lambda>_. v)) c)"
    by (rule r; simp add: config_ok_def )
  show "config_ok (required_key node (\<lambda>s. parseMulticastAddress s []) []
        (\<lambda>v. cf_multicastAddress_update (\<lambda>_. v)) c)"
    by (rule r; simp add: config_ok_def parseMulticastAddress_idem)
  show "config_ok (required_key node (\<lambda>s. parseDurationSeconds s 0) 0
        (\<lambda>v. cf_discoverySendPeriod_update (\<lambda>_. v)) c)"
    by (rule r; simp add: config_ok_def parseDurationSeconds_le)
  show "config_ok (required_key node (\<lambda>s. parseDurationSeconds s 0) 0
        (\<lambda>v. cf_participantTimeout_update (\<lambda>_. v)) c)"
    by (rule r; simp add: config_ok_def parseDurationSeconds_le)
  show "config_ok (required_key node (\<lambda>s. parsePort s 0) 0
        (\<lambda>v. cf_grpcPort_update (\<lambda>_. v)) c)"
    by (rule r; simp add: config_ok_def )
  show "config_ok (required_key node (\<lambda>s. parseMaxEndpoints s 0) 0
        (\<lambda>v. cf_maxAdvertisedEndpoints_update (\<lambda>_. v)) c)"
    by (rule r; simp add: config_ok_def parseMaxEndpoints_bounds [simplified])
  show "config_ok (optional_key node (\<lambda>s. parseCountRange s kMinReceiverThreads kMaxReceiverThreads 0) 0
        (\<lambda>v. cf_receiverThreads_update (\<lambda>_. v)) c)"
    by (rule o; simp add: config_ok_def parseCountRange_bounds)
  show "config_ok (optional_key node (\<lambda>s. parseCountRange s kMinWorkerThreads kMaxWorkerThreads 0) 0
        (\<lambda>v. cf_workerThreads_update (\<lambda>_. v)) c)"
    by (rule o; simp add: config_ok_def parseCountRange_bounds)
  show "config_ok (optional_key node (\<lambda>s. parseRingSlots s 0) 0
        (\<lambda>v. cf_rxRingSlots_update (\<lambda>_. v)) c)"
    by (rule o; simp add: config_ok_def parseRingSlots_pow [simplified])
  show "config_ok (optional_key node (\<lambda>s. parseCountRange s 0 kMaxSoRcvbufBytes (- 1)) (- 1)
        (\<lambda>v. cf_soRcvbufBytes_update (\<lambda>_. v)) c)"
    by (rule o; simp add: config_ok_def parseCountRange_bounds)
  show "config_ok (optional_key node (\<lambda>s. parseRateLimit s (- 1)) (- 1)
        (\<lambda>v. cf_reliableSendRateLimit_update (\<lambda>_. v)) c)"
    by (rule o; simp add: config_ok_def )
qed

lemma load_root_ok: "config_ok c \<Longrightarrow> config_ok (load_root doc c)"
  unfolding load_root_def Let_def
  by (intro load_peers_ok load_advertise_ok load_outbox_ok config_key_ok)

lemma loadConfig_ok: "config_ok (loadConfig yamlLoad content)"
  using load_root_ok [OF config_ok_default] config_ok_default
  by (simp add: loadConfig_def split: option.split yaml.split)

text \<open>
  C19. Whatever the file holds and whatever the YAML parser makes of it, the loaded
  configuration is valid: non-zero ports, a multicast group that parses, 1 to 64 endpoints,
  1 to 4 receivers, 1 to 16 workers, a ring size that is a power of two, a receive buffer of
  at most \<open>2 ^ 30\<close>, a positive frame bound, marks with \<open>0 < lwm < hwm < 1\<close>, non-empty
  addresses and peers with a valid port. Of the durations only "not zero and at most a day"
  holds.
\<close>

theorem loadConfig_valid: "config_ok (loadConfig yamlLoad content)"
  by (rule loadConfig_ok)

text \<open>
  A file that cannot be opened, is empty, is not parseable or is not a map at the top
  gives exactly the defaults, and the diagnostics flag stays down, so a node with an
  unparseable file does not report that it fell back.
\<close>

theorem loadConfig_unusable:
  assumes "content = None \<or> content = Some [] \<or>
    (\<exists>text. content = Some text \<and> (\<forall>doc. yamlLoad text \<noteq> Some (YMap doc)))"
  shows "loadConfig yamlLoad content = default_config \<and>
    \<not> cf_fellBackToDefaults (loadConfig yamlLoad content)"
proof -
  have "loadConfig yamlLoad content = default_config"
    using assms by (auto simp: loadConfig_def split: option.split yaml.split)
  then show ?thesis by (simp add: default_config_def)
qed

theorem loadConfig_unusable_witness:
  "loadConfig (\<lambda>_. None) (Some ''port: [1'') = default_config"
  using loadConfig_unusable [of "Some ''port: [1''" "\<lambda>_. None"] by simp

end
