(* ===== verification/Edriel_Outbox.thy ===== *)
theory Edriel_Outbox
  imports Edriel_Config Edriel_Proto "HOL-Library.Multiset"
begin

text \<open>
  \<open>SubscriberReactor\<close> of \<open>EdrielGrpcService.cpp\<close>: the bounded outbox of one subscriber
  stream. Each critical section under \<open>m_\<close> is a definition, each callback the composition
  of its sections with the gRPC calls it makes between them. The second half interleaves the
  sections of all threads and proves what the locking achieves.
\<close>

section \<open>State\<close>

datatype OutboxStatus = Accepted | Backpressured | NotConnected

datatype grpc_status = Status_OK | Status_CANCELLED string | Status_PERMISSION_DENIED string
  | Status_NOT_FOUND string | Status_INVALID_ARGUMENT string

text \<open>What a callback asks gRPC to do.\<close>

datatype grpc_call = StartRead | StartWrite participant_data | Finish grpc_status

record reactor =
  r_initialised :: bool
  r_finished :: bool
  r_cancelled :: bool
  r_key :: SubscriberKey
  r_writeBuffer :: participant_data
  r_outbox :: "participant_data list"
  r_writing :: bool
  r_finishPending :: bool
  r_outboxMaxFrames :: u64
  r_hwmFrames :: u64
  r_lwmFrames :: u64
  r_backpressured :: bool

text \<open>\<open>static_cast<std::size_t>\<close> of a non-negative double below \<open>2 ^ 64\<close>.\<close>

definition trunc_u64 :: "rat \<Rightarrow> u64" where
  "trunc_u64 x = of_int \<lfloor>x\<rfloor>"

text \<open>The coherence guard of the constructor, and the two thresholds in frames.\<close>

definition guard_marks :: "u64 \<Rightarrow> u64 \<Rightarrow> u64 \<Rightarrow> u64 \<times> u64" where
  "guard_marks maxFrames hwm0 lwm0 =
     (let hwm1 = (if hwm0 = 0 then 1 else hwm0);
          hwm = (if hwm1 \<ge> maxFrames then maxFrames - 1 else hwm1);
          lwm = (if lwm0 \<ge> hwm then hwm div 2 else lwm0)
      in (hwm, lwm))"

definition frame_marks :: "u64 \<Rightarrow> rat \<Rightarrow> rat \<Rightarrow> u64 \<times> u64" where
  "frame_marks maxFrames hwmFraction lwmFraction =
     (let d = fp_of_nat (unat maxFrames) in
      guard_marks maxFrames (trunc_u64 (fp_mult hwmFraction d)) (trunc_u64 (fp_mult lwmFraction d)))"

definition new_reactor :: "config \<Rightarrow> reactor \<times> grpc_call list" where
  "new_reactor cfg =
     (let m = cf_reliableOutboxMaxFrames cfg;
          marks = frame_marks m (cf_reliableOutboxHwm cfg) (cf_reliableOutboxLwm cfg)
      in (\<lparr>r_initialised = False, r_finished = False, r_cancelled = False,
           r_key = SubscriberKey 0 0 0, r_writeBuffer = empty_pd, r_outbox = [], r_writing = False,
           r_finishPending = False, r_outboxMaxFrames = m, r_hwmFrames = fst marks,
           r_lwmFrames = snd marks, r_backpressured = False\<rparr>, [StartRead]))"

section \<open>The critical sections\<close>

definition startWrite_section :: "reactor \<Rightarrow> participant_data option \<times> reactor" where
  "startWrite_section r =
     (if r_finished r \<or> r_writing r \<or> r_outbox r = [] then (None, r)
      else (Some (hd (r_outbox r)),
            r\<lparr>r_writeBuffer := hd (r_outbox r), r_outbox := tl (r_outbox r), r_writing := True\<rparr>))"

definition startWrite :: "reactor \<Rightarrow> grpc_call list \<times> reactor" where
  "startWrite r =
     (case startWrite_section r of
        (None, r') \<Rightarrow> ([], r')
      | (Some f, r') \<Rightarrow> ([StartWrite f], r'))"

definition finish_section :: "reactor \<Rightarrow> bool \<times> reactor" where
  "finish_section r = (if r_finished r then (False, r) else (True, r\<lparr>r_finished := True\<rparr>))"

definition finish :: "grpc_status \<Rightarrow> reactor \<Rightarrow> grpc_call list \<times> reactor" where
  "finish status r =
     (case finish_section r of (issue, r') \<Rightarrow> (if issue then [Finish status] else [], r'))"

definition teardownStatus :: "reactor \<Rightarrow> grpc_status" where
  "teardownStatus r = (if r_cancelled r then Status_CANCELLED ''client tore down'' else Status_OK)"

definition enqueue_section :: "participant_data \<Rightarrow> reactor \<Rightarrow> OutboxStatus \<times> bool \<times> reactor" where
  "enqueue_section frame r =
     (if r_finished r \<or> r_cancelled r then (NotConnected, False, r)
      else if r_backpressured r \<or> length (r_outbox r) \<ge> unat (r_hwmFrames r)
      then (Backpressured, False, r\<lparr>r_backpressured := True\<rparr>)
      else (Accepted, \<not> r_writing r, r\<lparr>r_outbox := r_outbox r @ [frame]\<rparr>))"

definition enqueue :: "participant_data \<Rightarrow> reactor \<Rightarrow> OutboxStatus \<times> grpc_call list \<times> reactor" where
  "enqueue frame r =
     (case enqueue_section frame r of (st, needWrite, r') \<Rightarrow>
        (if needWrite then (st, startWrite r') else (st, [], r')))"

text \<open>The first section of \<open>OnReadDone(false)\<close>: what remains to be done.\<close>

datatype read_end = Already_finished | Can_finish | Need_kick | Deferred

definition readEnd_section :: "reactor \<Rightarrow> read_end \<times> reactor" where
  "readEnd_section r =
     (if r_finished r then (Already_finished, r)
      else if r_writing r then (Deferred, r\<lparr>r_finishPending := True\<rparr>)
      else if r_outbox r = [] then (Can_finish, r)
      else (Need_kick, r\<lparr>r_finishPending := True\<rparr>))"

definition OnReadDone_false :: "reactor \<Rightarrow> grpc_call list \<times> reactor" where
  "OnReadDone_false r =
     (case readEnd_section r of
        (Can_finish, r') \<Rightarrow> finish (teardownStatus r') r'
      | (Need_kick, r') \<Rightarrow> startWrite r'
      | (_, r') \<Rightarrow> ([], r'))"

definition writeDone_section :: "bool \<Rightarrow> reactor \<Rightarrow> bool \<times> reactor" where
  "writeDone_section ok r =
     (let r' = r\<lparr>r_writing := False\<rparr> in (\<not> ok \<and> \<not> r_finished r', r'))"

definition latch_section :: "reactor \<Rightarrow> bool \<times> reactor" where
  "latch_section r =
     (let r' = (if r_backpressured r \<and> length (r_outbox r) \<le> unat (r_lwmFrames r)
                then r\<lparr>r_backpressured := False\<rparr> else r)
      in (r_finishPending r' \<and> \<not> r_writing r' \<and> r_outbox r' = [], r'))"

definition OnWriteDone :: "bool \<Rightarrow> reactor \<Rightarrow> grpc_call list \<times> reactor" where
  "OnWriteDone ok r =
     (case writeDone_section ok r of (finishNow, r1) \<Rightarrow>
        if \<not> ok
        then (if finishNow then finish (Status_CANCELLED ''stream broken'') r1 else ([], r1))
        else (case startWrite r1 of (calls, r2) \<Rightarrow>
               (case latch_section r2 of (finishNow', r3) \<Rightarrow>
                 if finishNow'
                 then (case finish (teardownStatus r3) r3 of (calls', r4) \<Rightarrow> (calls @ calls', r4))
                 else (calls, r3))))"

text \<open>The flag says that the reactor has to leave the subscriber table.\<close>

definition OnCancel :: "reactor \<Rightarrow> bool \<times> reactor" where
  "OnCancel r =
     (if r_finished r then (False, r) else (r_initialised r, r\<lparr>r_cancelled := True\<rparr>))"

definition OnDone :: "reactor \<Rightarrow> bool" where
  "OnDone r = r_initialised r"

definition supersede :: "reactor \<Rightarrow> reactor" where
  "supersede r = r\<lparr>r_cancelled := True\<rparr>"

definition isLive :: "reactor \<Rightarrow> bool" where
  "isLive r \<longleftrightarrow> \<not> r_finished r \<and> \<not> r_cancelled r"

definition isSendable :: "reactor \<Rightarrow> bool" where
  "isSendable r \<longleftrightarrow> \<not> r_finished r \<and> \<not> r_cancelled r \<and> \<not> r_backpressured r
     \<and> length (r_outbox r) < unat (r_hwmFrames r)"

definition outboxDepth :: "reactor \<Rightarrow> nat" where
  "outboxDepth r = length (r_outbox r)"

section \<open>The water marks\<close>

lemma guard_marks_bounds:
  assumes "2 \<le> m"
  shows "fst (guard_marks m h l) \<noteq> 0 \<and> fst (guard_marks m h l) < m \<and>
    snd (guard_marks m h l) < fst (guard_marks m h l)"
proof -
  have m: "m - 1 \<noteq> 0" "m - 1 < m" "1 < m"
    using assms by (auto simp: word_le_nat_alt word_less_nat_alt unat_minus_u64)
  have half: "x div 2 < x" if "x \<noteq> 0" for x :: u64
    using that by (simp add: word_less_nat_alt unat_div unat_gt_0)
  show ?thesis
    using m half by (auto simp: guard_marks_def Let_def not_le)
qed

lemma guard_marks_one: "guard_marks 1 h l = (0, 0)"
  by (auto simp: guard_marks_def Let_def)

lemma frame_marks_bounds:
  "2 \<le> m \<Longrightarrow> fst (frame_marks m h l) \<noteq> 0 \<and> fst (frame_marks m h l) < m \<and>
    snd (frame_marks m h l) < fst (frame_marks m h l)"
  unfolding frame_marks_def Let_def by (rule guard_marks_bounds)

lemma frame_marks_one: "frame_marks 1 h l = (0, 0)"
  unfolding frame_marks_def Let_def by (rule guard_marks_one)

section \<open>All interleavings of one stream\<close>

text \<open>
  Producer threads, the gRPC executor threads and the service run the callbacks
  concurrently. A task is what some thread still has to do after it left a critical
  section; a step runs one critical section or makes one gRPC call. The boolean of
  \<open>CallWrite\<close> says that the caller is \<open>OnWriteDone\<close>, which goes on to its latch section.
  gRPC reports a read only while one is armed and a write only while one is in flight.
\<close>

datatype task = Kick | AfterWrite | Latch | Teardown | DoFinish grpc_status
  | CallWrite participant_data bool | CallFinish grpc_status

record stream =
  s_reactor :: reactor
  s_tasks :: "task multiset"
  s_reading :: bool
  s_inflight :: bool
  s_accepted :: "participant_data list"
  s_started :: "participant_data list"
  s_finishes :: "grpc_status list"

definition frames_of :: "'a option \<Rightarrow> 'a list" where
  "frames_of w = (case w of None \<Rightarrow> [] | Some f \<Rightarrow> [f])"

definition after_start :: "bool \<Rightarrow> participant_data option \<Rightarrow> task multiset" where
  "after_start latch w =
     (case w of Some f \<Rightarrow> {#CallWrite f latch#} | None \<Rightarrow> if latch then {#Latch#} else {#})"

inductive stream_step :: "stream \<Rightarrow> stream \<Rightarrow> bool" where
  st_enqueue: "enqueue_section f (s_reactor s) = (st, needWrite, r') \<Longrightarrow>
     stream_step s (s\<lparr>s_reactor := r',
       s_tasks := (if needWrite then add_mset Kick (s_tasks s) else s_tasks s),
       s_accepted := (if st = Accepted then s_accepted s @ [f] else s_accepted s)\<rparr>)"
| st_kick: "s_tasks s = add_mset Kick p \<Longrightarrow> startWrite_section (s_reactor s) = (w, r') \<Longrightarrow>
     stream_step s (s\<lparr>s_reactor := r', s_tasks := p + after_start False w,
       s_started := s_started s @ frames_of w\<rparr>)"
| st_after: "s_tasks s = add_mset AfterWrite p \<Longrightarrow> startWrite_section (s_reactor s) = (w, r') \<Longrightarrow>
     stream_step s (s\<lparr>s_reactor := r', s_tasks := p + after_start True w,
       s_started := s_started s @ frames_of w\<rparr>)"
| st_callWrite: "s_tasks s = add_mset (CallWrite f latch) p \<Longrightarrow>
     stream_step s (s\<lparr>s_tasks := (if latch then add_mset Latch p else p), s_inflight := True\<rparr>)"
| st_writeDone: "s_inflight s \<Longrightarrow> writeDone_section ok (s_reactor s) = (finishNow, r') \<Longrightarrow>
     stream_step s (s\<lparr>s_reactor := r', s_inflight := False,
       s_tasks := (if ok then add_mset AfterWrite (s_tasks s)
         else if finishNow then add_mset (DoFinish (Status_CANCELLED ''stream broken'')) (s_tasks s)
         else s_tasks s)\<rparr>)"
| st_latch: "s_tasks s = add_mset Latch p \<Longrightarrow> latch_section (s_reactor s) = (finishNow, r') \<Longrightarrow>
     stream_step s (s\<lparr>s_reactor := r', s_tasks := (if finishNow then add_mset Teardown p else p)\<rparr>)"
| st_teardown: "s_tasks s = add_mset Teardown p \<Longrightarrow>
     stream_step s (s\<lparr>s_tasks := add_mset (DoFinish (teardownStatus (s_reactor s))) p\<rparr>)"
| st_finish: "s_tasks s = add_mset (DoFinish status) p \<Longrightarrow> finish_section (s_reactor s) = (issue, r') \<Longrightarrow>
     stream_step s (s\<lparr>s_reactor := r', s_tasks := (if issue then add_mset (CallFinish status) p else p)\<rparr>)"
| st_callFinish: "s_tasks s = add_mset (CallFinish status) p \<Longrightarrow>
     stream_step s (s\<lparr>s_tasks := p, s_finishes := s_finishes s @ [status]\<rparr>)"
| st_readEnd: "s_reading s \<Longrightarrow> readEnd_section (s_reactor s) = (e, r') \<Longrightarrow>
     stream_step s (s\<lparr>s_reactor := r', s_reading := False,
       s_tasks := (if e = Can_finish then add_mset Teardown (s_tasks s)
         else if e = Need_kick then add_mset Kick (s_tasks s) else s_tasks s)\<rparr>)"
| st_heartbeat: "s_reading s \<Longrightarrow> known \<or> r_initialised (s_reactor s) \<Longrightarrow>
     stream_step s (s\<lparr>s_reactor := (if r_initialised (s_reactor s) then s_reactor s
       else (s_reactor s)\<lparr>r_initialised := True, r_key := key\<rparr>)\<rparr>)"
| st_unknown: "s_reading s \<Longrightarrow> \<not> r_initialised (s_reactor s) \<Longrightarrow>
     stream_step s (s\<lparr>s_reactor := (s_reactor s)\<lparr>r_initialised := True, r_key := key\<rparr>, s_reading := False,
       s_tasks := add_mset (DoFinish (Status_PERMISSION_DENIED
         ''unknown dialer: not a known participant'')) (s_tasks s)\<rparr>)"
| st_cancel: "OnCancel (s_reactor s) = (evict, r') \<Longrightarrow> stream_step s (s\<lparr>s_reactor := r'\<rparr>)"
| st_supersede: "stream_step s (s\<lparr>s_reactor := supersede (s_reactor s)\<rparr>)"

definition stream_start :: "config \<Rightarrow> stream \<Rightarrow> bool" where
  "stream_start cfg s \<longleftrightarrow>
     s_reactor s = fst (new_reactor cfg) \<and> s_tasks s = {#} \<and> s_reading s \<and> \<not> s_inflight s \<and>
     s_accepted s = [] \<and> s_started s = [] \<and> s_finishes s = []"

section \<open>The invariant of a stream\<close>

fun is_call_write :: "task \<Rightarrow> bool" where
  "is_call_write (CallWrite f b) = True"
| "is_call_write _ = False"

fun is_call_finish :: "task \<Rightarrow> bool" where
  "is_call_finish (CallFinish st) = True"
| "is_call_finish _ = False"

text \<open>Tasks that end the stream, restart the writer, or reach the latch section.\<close>

fun is_ending :: "task \<Rightarrow> bool" where
  "is_ending Teardown = True"
| "is_ending (DoFinish st) = True"
| "is_ending _ = False"

definition is_waking :: "task \<Rightarrow> bool" where
  "is_waking t \<longleftrightarrow> t = Kick \<or> t = AfterWrite \<or> is_ending t"

definition is_latching :: "task \<Rightarrow> bool" where
  "is_latching t \<longleftrightarrow> t = AfterWrite \<or> t = Latch \<or> is_ending t"

definition has :: "(task \<Rightarrow> bool) \<Rightarrow> stream \<Rightarrow> bool" where
  "has P s \<longleftrightarrow> (\<exists>t \<in># s_tasks s. P t)"

definition calls_inv :: "stream \<Rightarrow> bool" where
  "calls_inv s \<longleftrightarrow>
     size (filter_mset is_call_write (s_tasks s)) + of_bool (s_inflight s) = of_bool (r_writing (s_reactor s)) \<and>
     size (filter_mset is_call_finish (s_tasks s)) + length (s_finishes s) = of_bool (r_finished (s_reactor s))"

definition fifo_inv :: "stream \<Rightarrow> bool" where
  "fifo_inv s \<longleftrightarrow>
     s_accepted s = s_started s @ r_outbox (s_reactor s) \<and>
     length (r_outbox (s_reactor s)) \<le> unat (r_hwmFrames (s_reactor s))"

definition progress_inv :: "stream \<Rightarrow> bool" where
  "progress_inv s \<longleftrightarrow>
     (let r = s_reactor s in
      \<not> r_finished r \<longrightarrow>
        (r_outbox r \<noteq> [] \<longrightarrow> r_writing r \<or> has is_waking s) \<and>
        (r_backpressured r \<and> r_lwmFrames r < r_hwmFrames r \<longrightarrow>
           unat (r_lwmFrames r) < length (r_outbox r) \<or> r_writing r \<or> has is_latching s) \<and>
        (r_finishPending r \<longrightarrow> r_outbox r \<noteq> [] \<or> r_writing r \<or> has is_latching s) \<and>
        (\<not> s_reading s \<longrightarrow> r_finishPending r \<or> has is_ending s))"

definition marks_inv :: "config \<Rightarrow> stream \<Rightarrow> bool" where
  "marks_inv cfg s \<longleftrightarrow>
     (r_hwmFrames (s_reactor s), r_lwmFrames (s_reactor s)) =
     frame_marks (cf_reliableOutboxMaxFrames cfg) (cf_reliableOutboxHwm cfg) (cf_reliableOutboxLwm cfg)"

lemmas section_defs = enqueue_section_def startWrite_section_def writeDone_section_def
  latch_section_def finish_section_def readEnd_section_def OnCancel_def supersede_def Let_def

lemmas task_defs = after_start_def frames_of_def is_waking_def is_latching_def

lemma calls_inv_step: "stream_step s t \<Longrightarrow> calls_inv s \<Longrightarrow> calls_inv t"
  by (induction rule: stream_step.induct)
    (auto simp: calls_inv_def section_defs task_defs of_bool_def split: if_splits)

lemma fifo_inv_step: "stream_step s t \<Longrightarrow> fifo_inv s \<Longrightarrow> fifo_inv t"
  by (induction rule: stream_step.induct)
    (auto simp: fifo_inv_def section_defs task_defs split: if_splits)

lemma marks_inv_step: "stream_step s t \<Longrightarrow> marks_inv cfg s \<Longrightarrow> marks_inv cfg t"
  by (induction rule: stream_step.induct)
    (auto simp: marks_inv_def section_defs split: if_splits)

lemma progress_inv_step: "stream_step s t \<Longrightarrow> progress_inv s \<Longrightarrow> progress_inv t"
  by (induction rule: stream_step.induct)
    (auto simp: progress_inv_def has_def section_defs task_defs word_less_nat_alt split: if_splits)

definition stream_inv :: "config \<Rightarrow> stream \<Rightarrow> bool" where
  "stream_inv cfg s \<longleftrightarrow> calls_inv s \<and> fifo_inv s \<and> progress_inv s \<and> marks_inv cfg s"

lemma stream_inv_start: "stream_start cfg s \<Longrightarrow> stream_inv cfg s"
  by (simp add: stream_inv_def calls_inv_def fifo_inv_def progress_inv_def marks_inv_def has_def
    stream_start_def new_reactor_def Let_def)

interpretation outbox_stream: invariant_system "stream_start cfg" stream_step "stream_inv cfg"
  for cfg
  by unfold_locales
    (auto simp: stream_inv_def stream_inv_start [unfolded stream_inv_def]
      intro: calls_inv_step fifo_inv_step progress_inv_step marks_inv_step)

abbreviation streams :: "config \<Rightarrow> stream \<Rightarrow> bool" where
  "streams cfg \<equiv> reach (stream_start cfg) stream_step"

lemma stream_marks:
  assumes "streams cfg s" "2 \<le> cf_reliableOutboxMaxFrames cfg"
  shows "r_lwmFrames (s_reactor s) < r_hwmFrames (s_reactor s) \<and> r_hwmFrames (s_reactor s) \<noteq> 0 \<and>
    r_hwmFrames (s_reactor s) < cf_reliableOutboxMaxFrames cfg"
proof -
  let ?m = "frame_marks (cf_reliableOutboxMaxFrames cfg) (cf_reliableOutboxHwm cfg) (cf_reliableOutboxLwm cfg)"
  have "?m = (r_hwmFrames (s_reactor s), r_lwmFrames (s_reactor s))"
    using outbox_stream.reach_inv [OF assms(1)] by (simp add: stream_inv_def marks_inv_def)
  then show ?thesis
    using frame_marks_bounds [OF assms(2), of "cf_reliableOutboxHwm cfg" "cf_reliableOutboxLwm cfg"]
    by simp
qed

text \<open>A concrete stream: the default configuration, one enqueue, its write begun.\<close>

definition start_stream :: "config \<Rightarrow> stream" where
  "start_stream cfg = \<lparr>s_reactor = fst (new_reactor cfg), s_tasks = {#}, s_reading = True,
     s_inflight = False, s_accepted = [], s_started = [], s_finishes = []\<rparr>"

lemma streams_start: "streams cfg (start_stream cfg)"
  by (rule reach_init) (simp add: stream_start_def start_stream_def)

text \<open>
  C21. Bounded publisher memory and no loss or reordering in the outbox: in every
  interleaving the queue never holds more frames than the high-water mark, which lies below
  the configured bound (from 2 frames on), and the accepted frames are exactly those
  handed to gRPC followed by those still queued, in order.
\<close>

theorem outbox_bounded_fifo:
  assumes "streams cfg s" "2 \<le> cf_reliableOutboxMaxFrames cfg"
  shows "length (r_outbox (s_reactor s)) < unat (cf_reliableOutboxMaxFrames cfg) \<and>
    length (r_outbox (s_reactor s)) \<le> unat (r_hwmFrames (s_reactor s)) \<and>
    s_accepted s = s_started s @ r_outbox (s_reactor s)"
  using outbox_stream.reach_inv [OF assms(1)] stream_marks [OF assms]
  by (auto simp: stream_inv_def fifo_inv_def word_less_nat_alt)


definition quiescent :: "stream \<Rightarrow> bool" where
  "quiescent s \<longleftrightarrow> s_tasks s = {#} \<and> \<not> s_inflight s"

lemma quiescent_facts:
  assumes "streams cfg s" "quiescent s"
  shows "\<not> r_writing (s_reactor s)"
    and "\<not> r_finished (s_reactor s) \<Longrightarrow> r_outbox (s_reactor s) = []"
    and "\<not> r_finished (s_reactor s) \<Longrightarrow> \<not> r_finishPending (s_reactor s)"
    and "\<not> r_finished (s_reactor s) \<Longrightarrow> s_reading s"
    and "r_finished (s_reactor s) \<Longrightarrow> length (s_finishes s) = 1"
  using outbox_stream.reach_inv [OF assms(1)] assms(2)
  by (auto simp: stream_inv_def progress_inv_def calls_inv_def quiescent_def has_def Let_def of_bool_def
    split: if_splits)

text \<open>
  C22. The writer never stalls and the back-pressure latch never sticks: when no thread has
  anything left to do and no write is in flight, an unfinished stream has an empty outbox
  and accepts frames again.
\<close>

theorem outbox_no_stall:
  assumes "streams cfg s" "2 \<le> cf_reliableOutboxMaxFrames cfg" "quiescent s"
    and "\<not> r_finished (s_reactor s)"
  shows "r_outbox (s_reactor s) = [] \<and> \<not> r_backpressured (s_reactor s) \<and>
    (\<not> r_cancelled (s_reactor s) \<longrightarrow> isSendable (s_reactor s))"
proof -
  have "\<not> r_backpressured (s_reactor s)"
    using outbox_stream.reach_inv [OF assms(1)] stream_marks [OF assms(1,2)] assms(3,4)
      quiescent_facts [OF assms(1,3)]
    by (auto simp: stream_inv_def progress_inv_def quiescent_def has_def Let_def)
  then show ?thesis
    using quiescent_facts [OF assms(1,3)] assms(4) stream_marks [OF assms(1,2)]
    by (simp add: isSendable_def unat_gt_0)
qed

theorem outbox_no_stall_witness: "isSendable (s_reactor (start_stream default_config))"
  using outbox_no_stall [OF streams_start [of default_config]]
  by (simp add: default_config_def kDefaultReliableOutboxMaxFrames_def quiescent_def
    start_stream_def new_reactor_def Let_def)

text \<open>
  A half-closed stream is always finished: once the client's side has ended and no
  thread has anything left to do, exactly one \<open>Finish\<close> has been issued, so gRPC can
  release the reactor.
\<close>

theorem half_close_finishes:
  assumes "streams cfg s" "quiescent s" "\<not> s_reading s"
  shows "r_finished (s_reactor s) \<and> length (s_finishes s) = 1"
  using quiescent_facts [OF assms(1,2)] assms(3) by auto

text \<open>
  A run in which the client half-closes an idle stream while a producer enqueues: the frame
  enters the outbox between the section that decides to finish and the section that marks
  the stream finished.
\<close>

definition lost_stream :: "config \<Rightarrow> participant_data \<Rightarrow> stream" where
  "lost_stream cfg f = (start_stream cfg)\<lparr>
     s_reactor := (fst (new_reactor cfg))\<lparr>r_outbox := [f], r_finished := True\<rparr>,
     s_reading := False, s_accepted := [f], s_finishes := [Status_OK]\<rparr>"

lemma lost_stream_reachable:
  assumes "2 \<le> cf_reliableOutboxMaxFrames cfg"
  shows "streams cfg (lost_stream cfg f)"
proof -
  let ?s0 = "start_stream cfg" and ?r = "fst (new_reactor cfg)"
  let ?s1 = "?s0\<lparr>s_reading := False, s_tasks := {#Teardown#}\<rparr>"
  let ?s2 = "?s1\<lparr>s_reactor := ?r\<lparr>r_outbox := [f]\<rparr>, s_tasks := {#Kick, Teardown#}, s_accepted := [f]\<rparr>"
  let ?s3 = "?s2\<lparr>s_tasks := {#DoFinish Status_OK, Kick#}\<rparr>"
  let ?s4 = "?s3\<lparr>s_reactor := ?r\<lparr>r_outbox := [f], r_finished := True\<rparr>,
    s_tasks := {#CallFinish Status_OK, Kick#}\<rparr>"
  let ?s5 = "?s4\<lparr>s_tasks := {#CallFinish Status_OK#}\<rparr>"
  note simps = start_stream_def new_reactor_def Let_def section_defs task_defs
  have hwm: "0 < unat (r_hwmFrames ?r)"
    using frame_marks_bounds [OF assms] by (simp add: new_reactor_def Let_def unat_gt_0)
  have "stream_step ?s0 ?s1"
    using st_readEnd [of ?s0 Can_finish ?r] by (simp add: simps)
  moreover have "stream_step ?s1 ?s2"
    using st_enqueue [of f ?s1 Accepted True "?r\<lparr>r_outbox := [f]\<rparr>"] hwm
    by (simp add: simps)
  moreover have "stream_step ?s2 ?s3"
    using st_teardown [of ?s2 "{#Kick#}"] by (simp add: simps teardownStatus_def add_mset_commute)
  moreover have "stream_step ?s3 ?s4"
    using st_finish [of ?s3 Status_OK "{#Kick#}" True "?r\<lparr>r_outbox := [f], r_finished := True\<rparr>"]
    by (simp add: simps)
  moreover have "stream_step ?s4 ?s5"
    using st_kick [of ?s4 "{#CallFinish Status_OK#}" None "?r\<lparr>r_outbox := [f], r_finished := True\<rparr>"]
    by (simp add: simps add_mset_commute)
  moreover have "stream_step ?s5 (lost_stream cfg f)"
    using st_callFinish [of ?s5 Status_OK "{#}"] by (simp add: simps lost_stream_def)
  ultimately show ?thesis
    using streams_start [of cfg] by (meson reach_step)
qed

text \<open>The run also has a frame in the outbox and a \<open>Finish\<close>.\<close>

lemma lost_stream_default: "streams default_config (lost_stream default_config empty_pd)"
  by (rule lost_stream_reachable) (simp add: default_config_def kDefaultReliableOutboxMaxFrames_def)

theorem outbox_bounded_fifo_witness:
  "r_outbox (s_reactor (lost_stream default_config empty_pd)) = [empty_pd] \<and>
   length (r_outbox (s_reactor (lost_stream default_config empty_pd))) < 1024 \<and>
   s_accepted (lost_stream default_config empty_pd) = s_started (lost_stream default_config empty_pd) @ [empty_pd]"
  using outbox_bounded_fifo [OF lost_stream_default]
  by (simp add: default_config_def kDefaultReliableOutboxMaxFrames_def) (simp add: lost_stream_def)


theorem half_close_finishes_witness:
  "r_finished (s_reactor (lost_stream default_config empty_pd))"
  by (rule half_close_finishes [THEN conjunct1, OF lost_stream_reachable])
    (simp_all add: default_config_def kDefaultReliableOutboxMaxFrames_def lost_stream_def
      start_stream_def quiescent_def)

text \<open>
  An accepted frame can be lost: on every configuration there is an interleaving in
  which the subscriber cleanly ends its side, \<open>enqueue\<close> has answered \<open>Accepted\<close>, and at
  rest the stream is finished with status OK while the frame still lies in the outbox and
  was never handed to gRPC.
\<close>

theorem accepted_frame_lost:
  assumes "2 \<le> cf_reliableOutboxMaxFrames cfg"
  shows "\<exists>s. streams cfg s \<and> quiescent s \<and> s_accepted s = [f] \<and> s_started s = [] \<and>
    s_finishes s = [Status_OK]"
  using lost_stream_reachable [OF assms]
  by (intro exI [of _ "lost_stream cfg f"]) (simp add: lost_stream_def start_stream_def quiescent_def)

theorem accepted_frame_lost_witness:
  "\<exists>s. streams default_config s \<and> quiescent s \<and> s_accepted s = [empty_pd] \<and> s_started s = []"
  using accepted_frame_lost [of default_config empty_pd]
  by (auto simp: default_config_def kDefaultReliableOutboxMaxFrames_def)

definition shut_inv :: "stream \<Rightarrow> bool" where
  "shut_inv s \<longleftrightarrow> r_hwmFrames (s_reactor s) = 0 \<and> s_accepted s = []"

lemma shut_inv_step: "stream_step s t \<Longrightarrow> shut_inv s \<Longrightarrow> shut_inv t"
  by (induction rule: stream_step.induct) (auto simp: shut_inv_def section_defs split: if_splits)

lemma bound_one_shut: "streams cfg s \<Longrightarrow> cf_reliableOutboxMaxFrames cfg = 1 \<Longrightarrow> shut_inv s"
proof (induction rule: reach.induct)
  case (reach_init s)
  then show ?case
    by (simp add: stream_start_def shut_inv_def new_reactor_def Let_def frame_marks_one)
next
  case (reach_step s t)
  then show ?case using shut_inv_step by blast
qed

text \<open>
  A bound of one frame, which the configuration accepts, makes a stream useless: the
  high-water mark becomes 0 and no frame is ever accepted, in any interleaving.
\<close>

theorem bound_one_refuses:
  assumes "streams cfg s" "cf_reliableOutboxMaxFrames cfg = 1"
  shows "s_accepted s = [] \<and> fst (enqueue_section f (s_reactor s)) \<noteq> Accepted"
  using bound_one_shut [OF assms] by (simp add: shut_inv_def enqueue_section_def)

theorem bound_one_refuses_witness:
  "fst (enqueue_section empty_pd (s_reactor (start_stream
     (default_config\<lparr>cf_reliableOutboxMaxFrames := parseOutboxMaxFrames ''1'' 0\<rparr>)))) \<noteq> Accepted"
proof -
  have "strict_uint 64 ''1'' = Some 1"
    by (simp add: strict_uint_iff is_digit_def digits_val_def digit_val_def)
  then have "parseOutboxMaxFrames ''1'' 0 = 1" by (simp add: parseOutboxMaxFrames_def)
  then show ?thesis using bound_one_refuses [OF streams_start] by simp
qed

end
