(* ===== verification/Edriel_Service.thy ===== *)
theory Edriel_Service
  imports Edriel_Outbox
begin

text \<open>
  \<open>ParticipantStreamServiceImpl\<close> of \<open>EdrielGrpcService.cpp\<close>: the table of subscriber
  streams and the operations on it. Reactors are reached through pointers, so the state has
  a heap of reactors beside the table; gRPC calls are listed with the reactor that makes
  them. The theory states the push interface the sender relies on as a locale.
\<close>

section \<open>State and operations\<close>

type_synonym reactor_ptr = nat

record service =
  sv_subscribers :: "(SubscriberKey, reactor_ptr) omap"
  sv_reactors :: "reactor_ptr \<Rightarrow> reactor"

definition set_reactor :: "reactor_ptr \<Rightarrow> reactor \<Rightarrow> service \<Rightarrow> service" where
  "set_reactor p r sv = sv\<lparr>sv_reactors := (sv_reactors sv)(p := r)\<rparr>"

definition pushData ::
  "SubscriberKey \<Rightarrow> participant_data \<Rightarrow> service \<Rightarrow> OutboxStatus \<times> (reactor_ptr \<times> grpc_call) list \<times> service"
where
  "pushData key frame sv =
     (case map_of (sv_subscribers sv) key of
        None \<Rightarrow> (NotConnected, [], sv)
      | Some p \<Rightarrow>
          (case enqueue frame (sv_reactors sv p) of (st, calls, r') \<Rightarrow>
             (st, map (Pair p) calls, set_reactor p r' sv)))"

definition service_isSendable :: "SubscriberKey \<Rightarrow> service \<Rightarrow> bool" where
  "service_isSendable key sv =
     (case map_of (sv_subscribers sv) key of None \<Rightarrow> False | Some p \<Rightarrow> isSendable (sv_reactors sv p))"

definition service_outboxDepth :: "SubscriberKey \<Rightarrow> service \<Rightarrow> nat" where
  "service_outboxDepth key sv =
     (case map_of (sv_subscribers sv) key of None \<Rightarrow> 0 | Some p \<Rightarrow> outboxDepth (sv_reactors sv p))"

definition hasSubscriber :: "SubscriberKey \<Rightarrow> service \<Rightarrow> bool" where
  "hasSubscriber key sv =
     (case map_of (sv_subscribers sv) key of None \<Rightarrow> False | Some p \<Rightarrow> isLive (sv_reactors sv p))"

definition registerSubscriber :: "SubscriberKey \<Rightarrow> reactor_ptr \<Rightarrow> service \<Rightarrow> service" where
  "registerSubscriber key reactor sv =
     (let sv' = (case map_of (sv_subscribers sv) key of
            None \<Rightarrow> sv
          | Some p \<Rightarrow> if p \<noteq> reactor then set_reactor p (supersede (sv_reactors sv p)) sv else sv)
      in sv'\<lparr>sv_subscribers := om_put key reactor (sv_subscribers sv')\<rparr>)"

definition unregisterSubscriber :: "SubscriberKey \<Rightarrow> reactor_ptr \<Rightarrow> service \<Rightarrow> service" where
  "unregisterSubscriber key reactor sv =
     (if map_of (sv_subscribers sv) key = Some reactor
      then sv\<lparr>sv_subscribers := om_erase key (sv_subscribers sv)\<rparr> else sv)"

section \<open>The callbacks that touch the table\<close>

text \<open>A new dial: \<open>StreamParticipants\<close> allocates the reactor at a fresh address.\<close>

definition StreamParticipants :: "config \<Rightarrow> reactor_ptr \<Rightarrow> service \<Rightarrow> (reactor_ptr \<times> grpc_call) list \<times> service" where
  "StreamParticipants cfg p sv =
     (case new_reactor cfg of (r, calls) \<Rightarrow> (map (Pair p) calls, set_reactor p r sv))"

fun enqueue_all :: "reactor_ptr \<Rightarrow> participant_data list \<Rightarrow> service \<Rightarrow> (reactor_ptr \<times> grpc_call) list \<times> service" where
  "enqueue_all p [] sv = ([], sv)"
| "enqueue_all p (pd # pds) sv =
     (case enqueue pd (sv_reactors sv p) of (st, calls, r') \<Rightarrow>
        (case enqueue_all p pds (set_reactor p r' sv) of (calls', sv') \<Rightarrow>
           (map (Pair p) calls @ calls', sv')))"

definition key_of_heartbeat :: "participant_heartbeat \<Rightarrow> SubscriberKey" where
  "key_of_heartbeat hb = SubscriberKey (hb_pid hb) (hb_tid hb) (hb_uid hb)"

text \<open>
  \<open>OnReadDone(true)\<close>: \<open>known\<close> is the owner's \<open>isKnownParticipant\<close> and \<open>presence\<close> its
  \<open>snapshotParticipantData\<close>.
\<close>

definition OnReadDone_true ::
  "(SubscriberKey \<Rightarrow> bool) \<Rightarrow> participant_data list \<Rightarrow> participant_heartbeat \<Rightarrow> reactor_ptr \<Rightarrow> service \<Rightarrow>
   (reactor_ptr \<times> grpc_call) list \<times> service"
where
  "OnReadDone_true known presence hb p sv =
     (let r = sv_reactors sv p in
      if r_initialised r then ([(p, StartRead)], sv)
      else
        let key = key_of_heartbeat hb; r1 = r\<lparr>r_initialised := True, r_key := key\<rparr> in
        if \<not> known key
        then (case finish (Status_PERMISSION_DENIED ''unknown dialer: not a known participant'') r1
              of (calls, r2) \<Rightarrow> (map (Pair p) calls, set_reactor p r2 sv))
        else (case enqueue_all p presence (registerSubscriber key p (set_reactor p r1 sv))
              of (calls, sv') \<Rightarrow> (calls @ [(p, StartRead)], sv')))"

definition service_OnReadDone_false :: "reactor_ptr \<Rightarrow> service \<Rightarrow> (reactor_ptr \<times> grpc_call) list \<times> service" where
  "service_OnReadDone_false p sv =
     (case OnReadDone_false (sv_reactors sv p) of (calls, r') \<Rightarrow> (map (Pair p) calls, set_reactor p r' sv))"

definition service_OnWriteDone :: "bool \<Rightarrow> reactor_ptr \<Rightarrow> service \<Rightarrow> (reactor_ptr \<times> grpc_call) list \<times> service" where
  "service_OnWriteDone ok p sv =
     (case OnWriteDone ok (sv_reactors sv p) of (calls, r') \<Rightarrow> (map (Pair p) calls, set_reactor p r' sv))"

definition service_OnCancel :: "reactor_ptr \<Rightarrow> service \<Rightarrow> service" where
  "service_OnCancel p sv =
     (case OnCancel (sv_reactors sv p) of (evict, r') \<Rightarrow>
        (if evict then unregisterSubscriber (r_key r') p (set_reactor p r' sv) else set_reactor p r' sv))"

definition service_OnDone :: "reactor_ptr \<Rightarrow> service \<Rightarrow> service" where
  "service_OnDone p sv =
     (if OnDone (sv_reactors sv p)
      then unregisterSubscriber (r_key (sv_reactors sv p)) p sv else sv)"

text \<open>\<open>GetParticipantInfo\<close>: \<open>lookup\<close> is the owner's \<open>lookupParticipantData\<close>.\<close>

definition GetParticipantInfo ::
  "(u32 \<Rightarrow> u64 \<Rightarrow> u64 \<Rightarrow> participant_data \<Rightarrow> bool \<times> participant_data) \<Rightarrow> participant_heartbeat option \<Rightarrow>
   participant_data option \<Rightarrow> grpc_status \<times> participant_data option"
where
  "GetParticipantInfo lookup request response =
     (case (request, response) of
        (Some rq, Some rs) \<Rightarrow>
          (case lookup (hb_pid rq) (hb_tid rq) (hb_uid rq) rs of (found, rs') \<Rightarrow>
             (if found then Status_OK else Status_NOT_FOUND ''unknown participant'', Some rs'))
      | _ \<Rightarrow> (Status_INVALID_ARGUMENT ''null request/response'', response))"

section \<open>One live stream per subscriber\<close>

text \<open>
  The table points each key to an identified reactor of that key, and every identified live
  reactor is the one in the table.
\<close>

definition service_inv :: "service \<Rightarrow> bool" where
  "service_inv sv \<longleftrightarrow>
     (\<forall>k p. map_of (sv_subscribers sv) k = Some p \<longrightarrow>
        r_initialised (sv_reactors sv p) \<and> r_key (sv_reactors sv p) = k) \<and>
     (\<forall>p. r_initialised (sv_reactors sv p) \<and> isLive (sv_reactors sv p) \<longrightarrow>
        map_of (sv_subscribers sv) (r_key (sv_reactors sv p)) = Some p)"

text \<open>The identity of a reactor is kept, and it never comes back to life.\<close>

definition ages :: "reactor \<Rightarrow> reactor \<Rightarrow> bool" where
  "ages r r' \<longleftrightarrow> r_initialised r' = r_initialised r \<and> r_key r' = r_key r \<and> (isLive r' \<longrightarrow> isLive r)"

lemmas handler_defs = enqueue_def startWrite_def finish_def OnReadDone_false_def OnWriteDone_def
  enqueue_section_def startWrite_section_def finish_section_def readEnd_section_def
  writeDone_section_def latch_section_def OnCancel_def supersede_def Let_def

lemma ages_enqueue: "enqueue f r = (st, calls, r') \<Longrightarrow> ages r r'"
  by (auto simp: ages_def isLive_def handler_defs split: if_splits)

lemma ages_finish: "finish st r = (calls, r') \<Longrightarrow> ages r r' \<and> \<not> isLive r'"
  by (auto simp: ages_def isLive_def handler_defs split: if_splits)

lemma ages_OnReadDone_false: "OnReadDone_false r = (calls, r') \<Longrightarrow> ages r r'"
  by (auto simp: ages_def isLive_def handler_defs split: if_splits)

lemma ages_trans: "ages a b \<Longrightarrow> ages b c \<Longrightarrow> ages a c"
  by (simp add: ages_def)

lemma ages_startWrite: "startWrite r = (calls, r') \<Longrightarrow> ages r r'"
  by (auto simp: ages_def isLive_def handler_defs split: if_splits)

lemma ages_writeDone: "writeDone_section ok r = (b, r') \<Longrightarrow> ages r r'"
  by (auto simp: ages_def isLive_def handler_defs)

lemma ages_latch: "latch_section r = (b, r') \<Longrightarrow> ages r r'"
  by (auto simp: ages_def isLive_def handler_defs split: if_splits)

lemma ages_OnWriteDone:
  assumes "OnWriteDone ok r = (calls, r')"
  shows "ages r r'"
proof -
  obtain b r1 where 1: "writeDone_section ok r = (b, r1)" by fastforce
  obtain c r2 where 2: "startWrite r1 = (c, r2)" by fastforce
  obtain b' r3 where 3: "latch_section r2 = (b', r3)" by fastforce
  note a = ages_writeDone [OF 1] ages_startWrite [OF 2] ages_latch [OF 3]
  show ?thesis
  proof (cases ok)
    case False
    then have "r' = r1 \<or> (\<exists>st cs. finish st r1 = (cs, r'))"
      using assms 1 by (simp add: OnWriteDone_def split: if_splits) blast
    then show ?thesis using a(1) ages_finish ages_trans by blast
  next
    case True
    then have "r' = r3 \<or> (\<exists>st cs. finish st r3 = (cs, r'))"
      using assms 1 2 3 by (auto simp: OnWriteDone_def split: if_splits prod.splits)
    then show ?thesis using a ages_finish ages_trans by blast
  qed
qed

lemma ages_supersede: "ages r (supersede r)" "\<not> isLive (supersede r)"
  by (simp_all add: ages_def isLive_def supersede_def)

lemma service_inv_ages:
  "service_inv sv \<Longrightarrow> ages (sv_reactors sv p) r' \<Longrightarrow> service_inv (set_reactor p r' sv)"
  by (auto simp: service_inv_def ages_def set_reactor_def)

lemma service_inv_key:
  "service_inv sv \<Longrightarrow> map_of (sv_subscribers sv) k = Some p \<Longrightarrow>
   r_initialised (sv_reactors sv p) \<and> r_key (sv_reactors sv p) = k"
  by (simp add: service_inv_def)

lemma service_inv_live:
  "service_inv sv \<Longrightarrow> r_initialised (sv_reactors sv p) \<Longrightarrow> isLive (sv_reactors sv p) \<Longrightarrow>
   map_of (sv_subscribers sv) (r_key (sv_reactors sv p)) = Some p"
  by (simp add: service_inv_def)

text \<open>Registering in effect: the predecessor, if any, is superseded and the key moves on.\<close>

lemma registerSubscriber_eq:
  "sv_subscribers (registerSubscriber k p sv) = om_put k p (sv_subscribers sv)"
  "sv_reactors (registerSubscriber k p sv) p' =
     (if map_of (sv_subscribers sv) k = Some p' \<and> p' \<noteq> p then supersede (sv_reactors sv p')
      else sv_reactors sv p')"
  by (auto simp: registerSubscriber_def set_reactor_def Let_def split: option.split)

lemma service_inv_register:
  assumes inv: "service_inv sv" and p: "\<not> r_initialised (sv_reactors sv p)" "r_initialised r" "r_key r = k"
  shows "service_inv (registerSubscriber k p (set_reactor p r sv))" (is "service_inv ?sv")
  unfolding service_inv_def
proof (intro conjI allI impI)
  let ?f = "sv_reactors sv" and ?T = "map_of (sv_subscribers sv)"
  have T: "map_of (sv_subscribers ?sv) = ?T(k \<mapsto> p)"
    by (simp add: registerSubscriber_eq set_reactor_def)
  have f: "sv_reactors ?sv p' = (if p' = p then r else if ?T k = Some p' then supersede (?f p') else ?f p')" for p'
    using service_inv_key [OF inv, of k p] p(1) by (auto simp: registerSubscriber_eq set_reactor_def)
  fix k' p' assume a: "map_of (sv_subscribers ?sv) k' = Some p'"
  have "r_initialised (sv_reactors ?sv p') \<and> r_key (sv_reactors ?sv p') = k'"
  proof (cases "k' = k")
    case True
    then have "p' = p" using a by (simp add: T)
    then show ?thesis using p True unfolding f by simp
  next
    case False
    then have t: "?T k' = Some p'" using a by (simp add: T)
    then show ?thesis
      using service_inv_key [OF inv t] p(1) ages_supersede [of "?f p'"] by (auto simp: f ages_def)
  qed
  then show "r_initialised (sv_reactors ?sv p')" "r_key (sv_reactors ?sv p') = k'" by auto
next
  let ?f = "sv_reactors sv" and ?T = "map_of (sv_subscribers sv)"
  fix p' assume l: "r_initialised (sv_reactors ?sv p') \<and> isLive (sv_reactors ?sv p')"
  have T: "map_of (sv_subscribers ?sv) = ?T(k \<mapsto> p)"
    by (simp add: registerSubscriber_eq set_reactor_def)
  have f: "sv_reactors ?sv p' = (if p' = p then r else if ?T k = Some p' then supersede (?f p') else ?f p')"
    using service_inv_key [OF inv, of k p] p(1) by (auto simp: registerSubscriber_eq set_reactor_def)
  show "map_of (sv_subscribers ?sv) (r_key (sv_reactors ?sv p')) = Some p'"
  proof (cases "p' = p")
    case True
    then show ?thesis using p unfolding T f by simp
  next
    case False
    then have "?T k \<noteq> Some p'" using l ages_supersede [of "?f p'"] by (auto simp: f)
    moreover then have "?T (r_key (?f p')) = Some p'"
      using l False service_inv_live [OF inv, of p'] by (simp add: f)
    ultimately show ?thesis using False by (auto simp: T f)
  qed
qed

lemma service_inv_unregister:
  assumes "service_inv sv" "\<not> isLive (sv_reactors sv p)"
  shows "service_inv (unregisterSubscriber k p sv)"
  using assms by (auto simp: service_inv_def unregisterSubscriber_def)

section \<open>Runs of the service\<close>

text \<open>
  The operations of producers, gRPC callbacks and diagnostics, each as a whole. gRPC calls
  \<open>OnDone\<close> once the stream is finished, and reactors are allocated at unused addresses.
\<close>

inductive service_step :: "service \<Rightarrow> service \<Rightarrow> bool" where
  sv_push: "pushData key frame sv = (st, calls, sv') \<Longrightarrow> service_step sv sv'"
| sv_dial: "StreamParticipants cfg p sv = (calls, sv') \<Longrightarrow> p \<notin> snd ` set (sv_subscribers sv) \<Longrightarrow>
     service_step sv sv'"
| sv_read: "OnReadDone_true known presence hb p sv = (calls, sv') \<Longrightarrow> service_step sv sv'"
| sv_readEnd: "service_OnReadDone_false p sv = (calls, sv') \<Longrightarrow> service_step sv sv'"
| sv_write: "service_OnWriteDone ok p sv = (calls, sv') \<Longrightarrow> service_step sv sv'"
| sv_cancel: "service_step sv (service_OnCancel p sv)"
| sv_done: "r_finished (sv_reactors sv p) \<Longrightarrow> service_step sv (service_OnDone p sv)"

definition service_start :: "service \<Rightarrow> bool" where
  "service_start sv \<longleftrightarrow> sv_subscribers sv = [] \<and> (\<forall>p. \<not> r_initialised (sv_reactors sv p))"

lemma enqueue_all_inv: "service_inv sv \<Longrightarrow> enqueue_all p pds sv = (calls, sv') \<Longrightarrow> service_inv sv'"
proof (induction pds arbitrary: sv calls)
  case (Cons pd pds)
  obtain st c r' where e: "enqueue pd (sv_reactors sv p) = (st, c, r')" by (metis prod_cases3)
  then have "service_inv (set_reactor p r' sv)"
    using Cons.prems(1) ages_enqueue service_inv_ages by blast
  then show ?case using Cons e by (auto split: prod.splits)
qed simp

lemma read_true_inv:
  assumes inv: "service_inv sv" and step: "OnReadDone_true known presence hb p sv = (calls, sv')"
  shows "service_inv sv'"
proof (cases "r_initialised (sv_reactors sv p)")
  case True
  then show ?thesis using assms by (simp add: OnReadDone_true_def Let_def)
next
  case False
  let ?k = "key_of_heartbeat hb"
  let ?r1 = "(sv_reactors sv p)\<lparr>r_initialised := True, r_key := ?k\<rparr>"
  show ?thesis
  proof (cases "known ?k")
    case True
    then obtain c where "enqueue_all p presence (registerSubscriber ?k p (set_reactor p ?r1 sv)) = (c, sv')"
      using step False by (auto simp: OnReadDone_true_def Let_def split: prod.splits)
    moreover have "service_inv (registerSubscriber ?k p (set_reactor p ?r1 sv))"
      by (rule service_inv_register [OF inv False]) simp_all
    ultimately show ?thesis using enqueue_all_inv by blast
  next
    case unknown: False
    then obtain c r2 where r2: "finish (Status_PERMISSION_DENIED ''unknown dialer: not a known participant'') ?r1 = (c, r2)"
      and sv': "sv' = set_reactor p r2 sv"
      using step False by (auto simp: OnReadDone_true_def Let_def split: prod.splits)
    have "p' \<noteq> p" if "map_of (sv_subscribers sv) k = Some p'" for k p'
      using service_inv_key [OF inv that] False by auto
    then show ?thesis
      using inv ages_finish [OF r2] by (auto simp: sv' service_inv_def set_reactor_def)
  qed
qed

lemma service_inv_step: "service_step sv sv' \<Longrightarrow> service_inv sv \<Longrightarrow> service_inv sv'"
proof (induction rule: service_step.induct)
  case (sv_push key frame sv st calls sv')
  then show ?case
    using service_inv_ages ages_enqueue by (fastforce simp: pushData_def split: option.splits prod.splits)
next
  case (sv_dial cfg p sv calls sv')
  have "p' \<noteq> p" if "map_of (sv_subscribers sv) k = Some p'" for k p'
    using sv_dial.hyps(2) map_of_SomeD [OF that] by force
  then show ?case
    using sv_dial by (auto simp: StreamParticipants_def new_reactor_def Let_def set_reactor_def service_inv_def)
next
  case (sv_read known presence hb p sv calls sv')
  then show ?case using read_true_inv by blast
next
  case (sv_readEnd p sv calls sv')
  then show ?case
    using service_inv_ages ages_OnReadDone_false
    by (fastforce simp: service_OnReadDone_false_def split: prod.splits)
next
  case (sv_write ok p sv calls sv')
  then show ?case
    using service_inv_ages ages_OnWriteDone
    by (fastforce simp: service_OnWriteDone_def split: prod.splits)
next
  case (sv_cancel sv p)
  obtain e r' where c: "OnCancel (sv_reactors sv p) = (e, r')" by fastforce
  then have "ages (sv_reactors sv p) r'" "\<not> isLive r'"
    by (auto simp: OnCancel_def ages_def isLive_def split: if_splits)
  then have "service_inv (set_reactor p r' sv)" "\<not> isLive (sv_reactors (set_reactor p r' sv) p)"
    using sv_cancel service_inv_ages by (auto simp: set_reactor_def)
  then show ?case by (simp add: service_OnCancel_def c service_inv_unregister)
next
  case (sv_done sv p)
  then show ?case by (simp add: service_OnDone_def service_inv_unregister isLive_def)
qed

interpretation service_runs: invariant_system service_start service_step service_inv
  by unfold_locales (simp add: service_start_def service_inv_def, rule service_inv_step)

text \<open>
  One live stream per subscriber: in every reachable state two identified live reactors
  of the same key are the same, the key counts as connected exactly when there is such a
  reactor, and it is the one that pushes reach. So a predecessor never swallows frames after
  its successor has registered.
\<close>

theorem single_live_stream:
  assumes "reach service_start service_step sv"
    and "r_initialised (sv_reactors sv p)" "isLive (sv_reactors sv p)" "r_key (sv_reactors sv p) = key"
  shows "(\<forall>q. r_initialised (sv_reactors sv q) \<longrightarrow> isLive (sv_reactors sv q) \<longrightarrow>
      r_key (sv_reactors sv q) = key \<longrightarrow> q = p) \<and>
    hasSubscriber key sv \<and> map_of (sv_subscribers sv) key = Some p"
proof -
  note live = service_inv_live [OF service_runs.reach_inv [OF assms(1)]]
  have T: "map_of (sv_subscribers sv) key = Some p" using live [OF assms(2,3)] assms(4) by simp
  then have "q = p" if "r_initialised (sv_reactors sv q)" "isLive (sv_reactors sv q)"
    "r_key (sv_reactors sv q) = key" for q
    using live [OF that(1,2)] that(3) by simp
  then show ?thesis using T assms(3) by (simp add: hasSubscriber_def)
qed

text \<open>A service with one registered subscriber.\<close>

definition empty_service :: service where
  "empty_service = \<lparr>sv_subscribers = [], sv_reactors = (\<lambda>_. fst (new_reactor default_config))\<rparr>"

definition one_subscriber :: service where
  "one_subscriber = snd (OnReadDone_true (\<lambda>_. True) [] \<lparr>hb_pid = 1, hb_tid = 2, hb_uid = 3\<rparr> 0 empty_service)"

lemma one_subscriber_eq:
  "sv_subscribers one_subscriber = [(SubscriberKey 1 2 3, 0)]"
  "sv_reactors one_subscriber 0 =
     (fst (new_reactor default_config))\<lparr>r_initialised := True, r_key := SubscriberKey 1 2 3\<rparr>"
  by (simp_all add: one_subscriber_def OnReadDone_true_def empty_service_def new_reactor_def Let_def
    registerSubscriber_def set_reactor_def key_of_heartbeat_def)

lemma one_subscriber_reachable: "reach service_start service_step one_subscriber"
proof (rule reach_step)
  show "reach service_start service_step empty_service"
    by (rule reach_init) (simp add: service_start_def empty_service_def new_reactor_def Let_def)
  show "service_step empty_service one_subscriber"
    unfolding one_subscriber_def by (rule sv_read [OF prod.collapse [symmetric]])
qed

theorem single_live_stream_witness: "hasSubscriber (SubscriberKey 1 2 3) one_subscriber"
  using single_live_stream [OF one_subscriber_reachable, of 0]
  by (simp add: one_subscriber_eq new_reactor_def Let_def isLive_def)

text \<open>
  A stale stream never evicts its successor: when the cancelled or finished predecessor
  of a key leaves the table after the key was registered again, the successor stays
  registered, and unregistering touches no other key.
\<close>

theorem unregister_keeps_successor:
  "map_of (sv_subscribers (unregisterSubscriber key old (registerSubscriber key new sv))) =
     (if old = new then (map_of (sv_subscribers sv))(key := None)
      else (map_of (sv_subscribers sv))(key \<mapsto> new)) \<and>
   isLive (sv_reactors (registerSubscriber key new sv) old) =
     (isLive (sv_reactors sv old) \<and> \<not> (map_of (sv_subscribers sv) key = Some old \<and> old \<noteq> new))"
  using ages_supersede(2) by (auto simp: unregisterSubscriber_def registerSubscriber_eq)

section \<open>The push interface\<close>

text \<open>
  What the sender relies on: a push either queues the frame behind everything that waits for
  that subscriber, or leaves its queue alone; other subscribers are not affected either way.
  \<open>pending\<close> lists what is accepted and not yet acknowledged as written.
\<close>

locale push_service =
  fixes push :: "'k \<Rightarrow> 'f \<Rightarrow> 's \<Rightarrow> OutboxStatus \<times> 's"
    and pending :: "'s \<Rightarrow> 'k \<Rightarrow> 'f list"
    and inv :: "'s \<Rightarrow> bool"
  assumes push_inv: "inv s \<Longrightarrow> inv (snd (push k f s))"
    and push_accepted: "inv s \<Longrightarrow> fst (push k f s) = Accepted \<Longrightarrow>
      pending (snd (push k f s)) k = pending s k @ [f]"
    and push_refused: "inv s \<Longrightarrow> fst (push k f s) \<noteq> Accepted \<Longrightarrow> pending (snd (push k f s)) k = pending s k"
    and push_other: "inv s \<Longrightarrow> k' \<noteq> k \<Longrightarrow> pending (snd (push k f s)) k' = pending s k'"
    and push_status_other: "inv s \<Longrightarrow> k' \<noteq> k \<Longrightarrow> fst (push k' f' (snd (push k f s))) = fst (push k' f' s)"
begin

text \<open>One frame offered to each subscriber in turn, with the statuses.\<close>

fun offer :: "'k list \<Rightarrow> 'f \<Rightarrow> 's \<Rightarrow> (('k \<times> OutboxStatus) list \<times> 's)" where
  "offer [] f s = ([], s)"
| "offer (k # ks) f s =
     (case push k f s of (st, s') \<Rightarrow> (case offer ks f s' of (sts, s'') \<Rightarrow> ((k, st) # sts, s'')))"

lemma offer_inv: "inv s \<Longrightarrow> inv (snd (offer ks f s))"
proof (induction ks arbitrary: s)
  case (Cons k ks)
  then show ?case using push_inv [of s k f] by (auto split: prod.splits) (metis snd_conv)
qed simp

lemma offer_other: "inv s \<Longrightarrow> k \<notin> set ks \<Longrightarrow> pending (snd (offer ks f s)) k = pending s k"
proof (induction ks arbitrary: s)
  case (Cons k' ks)
  obtain st s' where p: "push k' f s = (st, s')" by fastforce
  have "inv s'" "pending s' k = pending s k"
    using push_inv [of s k' f] push_other [of s k k' f] Cons.prems p by auto
  then show ?case using Cons.IH [of s'] Cons.prems p by (auto split: prod.splits)
qed simp

text \<open>
  Offering to distinct subscribers answers each as if it were asked alone, and queues the
  frame exactly for those that accept.
\<close>

lemma offer_spec:
  "inv s \<Longrightarrow> distinct ks \<Longrightarrow>
   fst (offer ks f s) = map (\<lambda>k. (k, fst (push k f s))) ks \<and>
   (\<forall>k \<in> set ks. pending (snd (offer ks f s)) k =
      pending s k @ (if fst (push k f s) = Accepted then [f] else []))"
proof (induction ks arbitrary: s)
  case (Cons k ks)
  obtain st s' where p: "push k f s = (st, s')" by fastforce
  have i: "inv s'" using push_inv [of s k f] Cons.prems p by simp
  have same: "fst (push k' f s') = fst (push k' f s)" "pending s' k' = pending s k'" if "k' \<in> set ks" for k'
    using that push_status_other [of s k' k f f] push_other [of s k' k f] Cons.prems p by auto
  have k: "pending s' k = pending s k @ (if st = Accepted then [f] else [])"
    using push_accepted [of s k f] push_refused [of s k f] Cons.prems p by auto
  have "pending (snd (offer ks f s')) k = pending s' k"
    using offer_other [OF i] Cons.prems by simp
  with Cons.IH [OF i] Cons.prems same k p show ?case by (auto split: prod.splits)
qed simp

end

definition undelivered :: "reactor \<Rightarrow> participant_data list" where
  "undelivered r = (if r_writing r then [r_writeBuffer r] else []) @ r_outbox r"

definition service_pending :: "service \<Rightarrow> SubscriberKey \<Rightarrow> participant_data list" where
  "service_pending sv k =
     (case map_of (sv_subscribers sv) k of None \<Rightarrow> [] | Some p \<Rightarrow> undelivered (sv_reactors sv p))"

definition service_push :: "SubscriberKey \<Rightarrow> participant_data \<Rightarrow> service \<Rightarrow> OutboxStatus \<times> service" where
  "service_push k f sv = (case pushData k f sv of (st, calls, sv') \<Rightarrow> (st, sv'))"

lemma undelivered_enqueue:
  "enqueue f r = (st, calls, r') \<Longrightarrow> undelivered r' = undelivered r @ (if st = Accepted then [f] else [])"
  by (cases "r_outbox r") (auto simp: undelivered_def handler_defs split: if_splits)

lemma service_push_eq:
  "service_push k f sv =
     (case map_of (sv_subscribers sv) k of None \<Rightarrow> (NotConnected, sv)
      | Some p \<Rightarrow> (case enqueue f (sv_reactors sv p) of (st, calls, r') \<Rightarrow> (st, set_reactor p r' sv)))"
  by (auto simp: service_push_def pushData_def split: option.splits prod.splits)

lemma set_reactor_sel [simp]:
  "sv_subscribers (set_reactor p r sv) = sv_subscribers sv"
  "sv_reactors (set_reactor p r sv) = (sv_reactors sv)(p := r)"
  by (simp_all add: set_reactor_def)

lemma service_distinct:
  "service_inv sv \<Longrightarrow> map_of (sv_subscribers sv) k = Some p \<Longrightarrow> map_of (sv_subscribers sv) k' = Some p \<Longrightarrow> k' = k"
  using service_inv_key by metis

interpretation outbox_push: push_service service_push service_pending service_inv
proof
  fix sv k f
  assume inv: "service_inv sv"
  show "service_inv (snd (service_push k f sv))"
    using inv service_inv_ages ages_enqueue
    by (fastforce simp: service_push_eq split: option.splits prod.splits)
  show "fst (service_push k f sv) = Accepted \<Longrightarrow>
      service_pending (snd (service_push k f sv)) k = service_pending sv k @ [f]"
    by (auto simp: service_push_eq service_pending_def undelivered_enqueue split: option.splits prod.splits)
  show "fst (service_push k f sv) \<noteq> Accepted \<Longrightarrow>
      service_pending (snd (service_push k f sv)) k = service_pending sv k"
    by (auto simp: service_push_eq service_pending_def undelivered_enqueue split: option.splits prod.splits)
  fix k' f' assume "k' \<noteq> k"
  then have ne: "map_of (sv_subscribers sv) k = Some p \<Longrightarrow> map_of (sv_subscribers sv) k' = Some q \<Longrightarrow> q \<noteq> p" for p q
    using service_distinct [OF inv] by blast
  then show "service_pending (snd (service_push k f sv)) k' = service_pending sv k'"
    "fst (service_push k' f' (snd (service_push k f sv))) = fst (service_push k' f' sv)"
    by (auto simp: service_push_eq service_pending_def split: option.splits prod.splits)
qed

end
