(* ===== verification/Edriel_Registry.thy ===== *)
theory Edriel_Registry
  imports Edriel_Config Edriel_Window
begin

text \<open>
  The sharded registry of \<open>Edriel.hpp\<close> and \<open>Edriel.cpp\<close>: peers keyed by uid, topics keyed
  by their composite key, both spread over the worker shards by a hash. The operations are
  the handlers of the discovery messages, the timeout cleanup, the registration calls and
  the queries of the gRPC service. The theory relates the shards to one flat registry, so
  that the number of shards does not matter.

  Time points and durations are integers in nanoseconds; \<open>now\<close> is the clock reading the
  handler makes.
\<close>

section \<open>State\<close>

text \<open>
  \<open>Participant\<close>. A \<open>std::set<Participant>\<close> is ordered by (pid, tid, uid) and an insertion
  keeps an equal element, so it is a map from that triple.
\<close>

record participant =
  p_pid :: u64
  p_tid :: u64
  p_uid :: u64
  p_lastSeen :: int
  p_endpoints :: "endpoint list"
  p_timeout :: int

type_synonym participant_set = "(u64 \<times> u64 \<times> u64, participant) omap"

definition p_key :: "participant \<Rightarrow> u64 \<times> u64 \<times> u64" where
  "p_key p = (p_pid p, p_tid p, p_uid p)"

definition ps_insert :: "participant \<Rightarrow> participant_set \<Rightarrow> participant_set" where
  "ps_insert p ps = om_emplace (p_key p) p ps"

definition seconds :: "int \<Rightarrow> int" where
  "seconds n = n * 1000000000"

definition new_participant :: "u64 \<Rightarrow> u64 \<Rightarrow> u64 \<Rightarrow> int \<Rightarrow> int \<Rightarrow> participant" where
  "new_participant pid tid uid timeout now =
     \<lparr>p_pid = pid, p_tid = tid, p_uid = uid, p_lastSeen = now, p_endpoints = [], p_timeout = timeout\<rparr>"

definition shouldBeRemoved :: "int \<Rightarrow> participant \<Rightarrow> bool" where
  "shouldBeRemoved now p \<longleftrightarrow> now - p_lastSeen p > p_timeout p"

text \<open>A type-erased callback: its message type and its function, \<open>None\<close> if empty.\<close>

record callback =
  cb_messageType :: string
  cb_invoke :: "nat option"

record topic_entry =
  te_topicName :: string
  te_messageType :: string
  te_reliable :: bool
  te_publishers :: participant_set
  te_subscribers :: participant_set
  te_callbacks :: "callback list"

definition empty_entry :: topic_entry where
  "empty_entry = \<lparr>te_topicName = [], te_messageType = [], te_reliable = False,
     te_publishers = [], te_subscribers = [], te_callbacks = []\<rparr>"

record shard =
  sh_participants :: "(u64, participant) omap"
  sh_topics :: "(string, topic_entry) omap"

record registry =
  reg_shards :: "shard list"
  reg_self :: participant
  reg_config :: config

definition workerCount :: "registry \<Rightarrow> nat" where
  "workerCount reg = length (reg_shards reg)"

definition on_shard :: "nat \<Rightarrow> (shard \<Rightarrow> shard) \<Rightarrow> registry \<Rightarrow> registry" where
  "on_shard i f reg = reg\<lparr>reg_shards := (reg_shards reg)[i := f (reg_shards reg ! i)]\<rparr>"

definition uid_shard :: "registry \<Rightarrow> u64 \<Rightarrow> nat" where
  "uid_shard reg uid = shardIndexForUid (workerCount reg) uid"

definition topic_shard :: "registry \<Rightarrow> string \<Rightarrow> nat" where
  "topic_shard reg key = shardIndexForTopic (workerCount reg) key"

definition find_participant :: "registry \<Rightarrow> u64 \<Rightarrow> participant option" where
  "find_participant reg uid = map_of (sh_participants (reg_shards reg ! uid_shard reg uid)) uid"

definition find_topic :: "registry \<Rightarrow> string \<Rightarrow> topic_entry option" where
  "find_topic reg key = map_of (sh_topics (reg_shards reg ! topic_shard reg key)) key"

definition put_participant :: "u64 \<Rightarrow> participant \<Rightarrow> registry \<Rightarrow> registry" where
  "put_participant uid p reg =
     on_shard (uid_shard reg uid) (\<lambda>sh. sh\<lparr>sh_participants := om_put uid p (sh_participants sh)\<rparr>) reg"

definition put_topic :: "string \<Rightarrow> topic_entry \<Rightarrow> registry \<Rightarrow> registry" where
  "put_topic key e reg =
     on_shard (topic_shard reg key) (\<lambda>sh. sh\<lparr>sh_topics := om_put key e (sh_topics sh)\<rparr>) reg"

definition erase_topic :: "string \<Rightarrow> registry \<Rightarrow> registry" where
  "erase_topic key reg =
     on_shard (topic_shard reg key) (\<lambda>sh. sh\<lparr>sh_topics := om_erase key (sh_topics sh)\<rparr>) reg"

text \<open>\<open>shard.topics[key]\<close>: the entry, a fresh one when there is none.\<close>

definition entry_at :: "registry \<Rightarrow> string \<Rightarrow> topic_entry" where
  "entry_at reg key = (case find_topic reg key of None \<Rightarrow> empty_entry | Some e \<Rightarrow> e)"

section \<open>Discovery messages\<close>

definition handleParticipantHeartbeat ::
  "u64 \<Rightarrow> u64 \<Rightarrow> u64 \<Rightarrow> endpoint list \<Rightarrow> int \<Rightarrow> registry \<Rightarrow> registry" where
  "handleParticipantHeartbeat pid tid uid endpoints now reg =
     (if uid = p_uid (reg_self reg) then reg
      else case find_participant reg uid of
          None \<Rightarrow> put_participant uid
            ((new_participant pid tid uid (seconds (cf_participantTimeout (reg_config reg))) now)
               \<lparr>p_endpoints := endpoints\<rparr>) reg
        | Some p \<Rightarrow> put_participant uid (p\<lparr>p_lastSeen := now, p_endpoints := endpoints\<rparr>) reg)"

definition handleTopicAnnouncement ::
  "u64 \<Rightarrow> u64 \<Rightarrow> u64 \<Rightarrow> string \<Rightarrow> string \<Rightarrow> bool \<Rightarrow> int \<Rightarrow> registry \<Rightarrow> registry" where
  "handleTopicAnnouncement pid tid uid topicName messageType isPublisher now reg =
     (if uid = p_uid (reg_self reg) then reg
      else
        let key = ti_key (TopicInfo topicName messageType);
            remote = new_participant pid tid uid (seconds 10) now;
            e = (entry_at reg key)\<lparr>te_topicName := topicName, te_messageType := messageType\<rparr>
        in put_topic key
             (if isPublisher then e\<lparr>te_publishers := ps_insert remote (te_publishers e)\<rparr>
              else e\<lparr>te_subscribers := ps_insert remote (te_subscribers e)\<rparr>) reg)"

text \<open>
  \<open>types\<close> is the generated descriptor pool: a parser for each known message type. The
  result lists the callbacks invoked, each with the message decoded once.
\<close>

definition handleDataMessageReceive ::
  "(string \<Rightarrow> (bytes \<Rightarrow> 'm option) option) \<Rightarrow> data_message \<Rightarrow> registry \<Rightarrow> (nat \<times> 'm) list" where
  "handleDataMessageReceive types data reg =
     (case find_topic reg (makeCompositeKey (dm_topic_name data) (dm_message_type data)) of
        None \<Rightarrow> []
      | Some e \<Rightarrow>
          let matched = List.map_filter
                (\<lambda>cb. if cb_messageType cb = dm_message_type data then cb_invoke cb else None) (te_callbacks e)
          in if matched = [] then []
             else case types (dm_message_type data) of
                 None \<Rightarrow> []
               | Some parse \<Rightarrow>
                   (case parse (dm_payload data) of None \<Rightarrow> [] | Some m \<Rightarrow> map (\<lambda>f. (f, m)) matched))"

definition handleAutoDiscoveryParse ::
  "(string \<Rightarrow> (bytes \<Rightarrow> 'm option) option) \<Rightarrow> message \<Rightarrow> int \<Rightarrow> registry \<Rightarrow> (nat \<times> 'm) list \<times> registry" where
  "handleAutoDiscoveryParse types msg now reg =
     (case msg of
        Content_identifier i \<Rightarrow>
          ([], handleParticipantHeartbeat (ucast (id_pid i)) (id_tid i) (id_uid i) (collectEndpoints i) now reg)
      | Content_data_message data \<Rightarrow> (handleDataMessageReceive types data reg, reg)
      | Content_advertisement ad \<Rightarrow>
          (let i = ad_identifier ad; t = ad_topic ad;
               reg' = handleParticipantHeartbeat (ucast (id_pid i)) (id_tid i) (id_uid i)
                        (collectEndpoints i) now reg
           in ([], handleTopicAnnouncement (ucast (id_pid i)) (id_tid i) (id_uid i) (tp_topic_name t)
                     (tp_message_type t) (tp_is_publisher t) now reg'))
      | Content_not_set \<Rightarrow> ([], reg))"

section \<open>Timeouts\<close>

definition ageParticipant :: "u64 \<Rightarrow> registry \<Rightarrow> registry" where
  "ageParticipant uid reg =
     (case find_participant reg uid of None \<Rightarrow> reg
      | Some p \<Rightarrow> put_participant uid (p\<lparr>p_lastSeen := p_lastSeen p - seconds (24 * 3600)\<rparr>) reg)"

definition isStale :: "participant list \<Rightarrow> participant \<Rightarrow> bool" where
  "isStale stale p \<longleftrightarrow> (\<exists>s \<in> set stale. p_uid s = p_uid p)"

text \<open>Phase 1: the stale peers, and the shards without them.\<close>

definition stale_participants :: "int \<Rightarrow> registry \<Rightarrow> participant list" where
  "stale_participants now reg =
     concat (map (\<lambda>sh. map snd (filter (\<lambda>(u, p). shouldBeRemoved now p) (sh_participants sh))) (reg_shards reg))"

definition evict_stale :: "int \<Rightarrow> shard \<Rightarrow> shard" where
  "evict_stale now sh =
     sh\<lparr>sh_participants := filter (\<lambda>(u, p). \<not> shouldBeRemoved now p) (sh_participants sh)\<rparr>"

text \<open>Phase 2: a topic without the stale peers, dropped when nothing is left of it.\<close>

definition purge_entry :: "participant list \<Rightarrow> topic_entry \<Rightarrow> topic_entry" where
  "purge_entry stale e =
     e\<lparr>te_publishers := filter (\<lambda>(k, p). \<not> isStale stale p) (te_publishers e),
       te_subscribers := filter (\<lambda>(k, p). \<not> isStale stale p) (te_subscribers e)\<rparr>"

definition deserted :: "topic_entry \<Rightarrow> bool" where
  "deserted e \<longleftrightarrow> te_publishers e = [] \<and> te_subscribers e = [] \<and> te_callbacks e = []"

definition purge_topics :: "participant list \<Rightarrow> shard \<Rightarrow> shard" where
  "purge_topics stale sh =
     sh\<lparr>sh_topics := filter (\<lambda>(k, e). \<not> deserted e)
          (map (\<lambda>(k, e). (k, purge_entry stale e)) (sh_topics sh))\<rparr>"

text \<open>Phase 3: the receive windows of the stale publishers.\<close>

definition prune_windows :: "participant list \<Rightarrow> rx_state \<Rightarrow> rx_state" where
  "prune_windows stale st =
     st\<lparr>reliableWindows := filter (\<lambda>(k, w). \<not> (\<exists>s \<in> set stale. starts_with (window_prefix (p_uid s)) k))
          (reliableWindows st)\<rparr>"

definition removeTimedOutParticipants :: "int \<Rightarrow> registry \<Rightarrow> rx_state \<Rightarrow> registry \<times> rx_state" where
  "removeTimedOutParticipants now reg st =
     (let stale = stale_participants now reg in
      (reg\<lparr>reg_shards := map (purge_topics stale \<circ> evict_stale now) (reg_shards reg)\<rparr>,
       prune_windows stale st))"

section \<open>Registration\<close>

text \<open>
  The advertisement is handed to \<open>sendPacket\<close>, an argument that says whether it was
  dispatched. \<open>messageType\<close> is \<open>T::descriptor()->full_name()\<close>, and the set of reliable
  subscriptions is the node's \<open>reliableSubscribedTopics_\<close>.
\<close>

definition self_identifier :: "registry \<Rightarrow> proto_identifier" where
  "self_identifier reg =
     \<lparr>id_pid = ucast (p_pid (reg_self reg)), id_tid = p_tid (reg_self reg),
      id_uid = p_uid (reg_self reg), id_endpoints = []\<rparr>"

definition self_advertisement :: "string \<Rightarrow> string \<Rightarrow> bool \<Rightarrow> bool \<Rightarrow> registry \<Rightarrow> topic_advertisement" where
  "self_advertisement topicName messageType isPublisher reliable reg =
     \<lparr>ad_identifier = self_identifier reg,
      ad_topic = \<lparr>tp_topic_name = topicName, tp_message_type = messageType,
                  tp_is_publisher = isPublisher, tp_reliable = reliable\<rparr>\<rparr>"

definition register_entry :: "string \<Rightarrow> string \<Rightarrow> bool \<Rightarrow> registry \<Rightarrow> registry" where
  "register_entry topicName messageType reliable reg =
     (let key = ti_key (TopicInfo topicName messageType) in
      put_topic key ((entry_at reg key)\<lparr>te_topicName := topicName, te_messageType := messageType,
        te_reliable := reliable\<rparr>) reg)"

definition registerPublisherTopic ::
  "(topic_advertisement \<Rightarrow> bool) \<Rightarrow> string \<Rightarrow> string \<Rightarrow> bool \<Rightarrow> registry \<Rightarrow> bool \<times> registry" where
  "registerPublisherTopic sendPacket topicName messageType reliable reg =
     (sendPacket (self_advertisement topicName messageType True reliable reg),
      register_entry topicName messageType reliable reg)"

definition unregisterPublisherTopic :: "string \<Rightarrow> string \<Rightarrow> registry \<Rightarrow> bool \<times> registry" where
  "unregisterPublisherTopic topicName messageType reg =
     (let key = ti_key (TopicInfo topicName messageType) in
      case find_topic reg key of None \<Rightarrow> (False, reg)
      | Some e \<Rightarrow> (True, if te_callbacks e = [] then erase_topic key reg else reg))"

definition registerSubscriberTopic ::
  "(topic_advertisement \<Rightarrow> bool) \<Rightarrow> string \<Rightarrow> string \<Rightarrow> bool \<Rightarrow> registry \<Rightarrow> string set \<Rightarrow>
   bool \<times> registry \<times> string set" where
  "registerSubscriberTopic sendPacket topicName messageType reliable reg subs =
     (sendPacket (self_advertisement topicName messageType False reliable reg),
      register_entry topicName messageType reliable reg,
      if reliable then insert (ti_key (TopicInfo topicName messageType)) subs else subs)"

definition push_callback :: "string \<Rightarrow> callback \<Rightarrow> registry \<Rightarrow> registry" where
  "push_callback key cb reg =
     (let e = entry_at reg key in put_topic key (e\<lparr>te_callbacks := te_callbacks e @ [cb]\<rparr>) reg)"

definition registerSubscriberTopic_callback ::
  "(topic_advertisement \<Rightarrow> bool) \<Rightarrow> string \<Rightarrow> string \<Rightarrow> nat option \<Rightarrow> bool \<Rightarrow> registry \<Rightarrow> string set \<Rightarrow>
   bool \<times> registry \<times> string set" where
  "registerSubscriberTopic_callback sendPacket topicName messageType fn reliable reg subs =
     (if fn = None then (False, reg, subs)
      else
        let key = ti_key (TopicInfo topicName messageType);
            reg' = push_callback key \<lparr>cb_messageType = messageType, cb_invoke = fn\<rparr>
                     (register_entry topicName messageType reliable reg);
            subs' = (if reliable then insert key subs else subs)
        in registerSubscriberTopic sendPacket topicName messageType reliable reg' subs')"

definition subscribe :: "string \<Rightarrow> string \<Rightarrow> nat option \<Rightarrow> registry \<Rightarrow> bool \<times> registry" where
  "subscribe topicName messageType fn reg =
     (if fn = None then (False, reg)
      else
        let key = ti_key (TopicInfo topicName messageType) in
        case find_topic reg key of None \<Rightarrow> (False, reg)
        | Some e \<Rightarrow> (True, push_callback key \<lparr>cb_messageType = messageType, cb_invoke = fn\<rparr> reg))"

definition unregisterSubscriberTopic ::
  "string \<Rightarrow> string \<Rightarrow> registry \<Rightarrow> string set \<Rightarrow> bool \<times> registry \<times> string set" where
  "unregisterSubscriberTopic topicName messageType reg subs =
     (let key = ti_key (TopicInfo topicName messageType) in
      case find_topic reg key of None \<Rightarrow> (False, reg, subs)
      | Some e \<Rightarrow>
          (True,
           (if te_publishers e = [] \<and> te_subscribers e = [] then erase_topic key reg
            else put_topic key (e\<lparr>te_callbacks := []\<rparr>) reg),
           subs - {key}))"

section \<open>Queries\<close>

definition mergeRegistrySnapshot :: "registry \<Rightarrow> (string, topic_entry) omap" where
  "mergeRegistrySnapshot reg =
     fold (\<lambda>sh m. fold (\<lambda>(k, e) m. om_emplace k e m) (sh_topics sh) m) (reg_shards reg) []"

definition mergeParticipantSnapshot :: "registry \<Rightarrow> participant_set" where
  "mergeParticipantSnapshot reg =
     fold (\<lambda>sh m. fold (\<lambda>(u, p) m. ps_insert p m) (sh_participants sh) m) (reg_shards reg) []"

text \<open>The sorted names of the topics whose given peer set contains the participant.\<close>

definition topics_with :: "(topic_entry \<Rightarrow> participant_set) \<Rightarrow> participant \<Rightarrow> registry \<Rightarrow> string list" where
  "topics_with peers p reg =
     remdups (sort (concat (map (\<lambda>sh. map (te_topicName \<circ> snd)
       (filter (\<lambda>(k, e). map_of (peers e) (p_key p) \<noteq> None) (sh_topics sh))) (reg_shards reg))))"

definition lookupParticipantData ::
  "u32 \<Rightarrow> u64 \<Rightarrow> u64 \<Rightarrow> participant_data \<Rightarrow> registry \<Rightarrow> bool \<times> participant_data" where
  "lookupParticipantData pid tid uid out reg =
     (case find_participant reg uid of None \<Rightarrow> (False, out)
      | Some found \<Rightarrow>
          (True, out\<lparr>pd_pid := pid, pd_tid := tid, pd_uid := uid, pd_status := ''online'',
             pd_endpoints := pd_endpoints out @ p_endpoints found,
             pd_topics_published := pd_topics_published out @ topics_with te_publishers found reg,
             pd_topics_subscribed := pd_topics_subscribed out @ topics_with te_subscribers found reg\<rparr>))"

definition snapshotParticipantData :: "registry \<Rightarrow> participant_data list" where
  "snapshotParticipantData reg =
     concat (map (\<lambda>sh. map (\<lambda>(u, p). empty_pd\<lparr>pd_pid := ucast (p_pid p), pd_tid := p_tid p,
       pd_uid := p_uid p, pd_status := ''online'', pd_endpoints := p_endpoints p\<rparr>) (sh_participants sh))
       (reg_shards reg))"

definition isKnownParticipant :: "u32 \<Rightarrow> u64 \<Rightarrow> u64 \<Rightarrow> registry \<Rightarrow> bool" where
  "isKnownParticipant pid tid uid reg \<longleftrightarrow>
     (let matches = (\<lambda>p. p_pid p = ucast pid \<and> p_tid p = tid \<and> p_uid p = uid) in
      (\<exists>sh \<in> set (reg_shards reg). \<exists>(u, p) \<in> set (sh_participants sh). matches p) \<or>
      (\<exists>sh \<in> set (reg_shards reg). \<exists>(k, e) \<in> set (sh_topics sh).
         (\<exists>(i, p) \<in> set (te_publishers e). matches p) \<or> (\<exists>(i, p) \<in> set (te_subscribers e). matches p)) \<or>
      (\<exists>seed \<in> set (cf_peerEndpoints (reg_config reg)).
         pid = sk_pid (peerKeyForEndpoint seed) \<and> uid = sk_uid (peerKeyForEndpoint seed)))"

section \<open>Stores\<close>

text \<open>
  What the handlers need of the two sharded maps: reading back what was stored, and an
  invariant (here, that there is a shard at all) that every operation keeps.
\<close>

locale keyed_store =
  fixes lookup :: "'s \<Rightarrow> 'k \<Rightarrow> 'v option"
    and put :: "'k \<Rightarrow> 'v \<Rightarrow> 's \<Rightarrow> 's"
    and ok :: "'s \<Rightarrow> bool"
  assumes put_ok: "ok s \<Longrightarrow> ok (put k v s)"
    and lookup_put: "ok s \<Longrightarrow> lookup (put k v s) = (lookup s)(k \<mapsto> v)"
begin

text \<open>Storing twice, or at two keys, in terms of what is read back.\<close>

lemma lookup_put_put: "ok s \<Longrightarrow> lookup (put k w (put k v s)) = lookup (put k w s)"
  by (simp add: lookup_put put_ok)

lemma lookup_put_comm: "ok s \<Longrightarrow> k \<noteq> k' \<Longrightarrow> lookup (put k v (put k' v' s)) = lookup (put k' v' (put k v s))"
  by (simp add: lookup_put put_ok fun_upd_twist)

lemma lookup_put_all:
  "ok s \<Longrightarrow> lookup (fold (\<lambda>(k, v). put k v) kvs s) = lookup s ++ map_of (rev kvs) \<and>
    ok (fold (\<lambda>(k, v). put k v) kvs s)"
proof (induction kvs arbitrary: s)
  case (Cons kv kvs)
  then show ?case
    using Cons.IH [OF put_ok [OF Cons.prems], of "fst kv" "snd kv"] lookup_put [OF Cons.prems]
    by (auto simp: case_prod_beta fun_eq_iff map_add_def split: option.splits)
qed simp

end

definition has_shards :: "registry \<Rightarrow> bool" where
  "has_shards reg \<longleftrightarrow> reg_shards reg \<noteq> []"

lemma on_shard_simps [simp]:
  "workerCount (on_shard i f reg) = workerCount reg" "reg_self (on_shard i f reg) = reg_self reg"
  "reg_config (on_shard i f reg) = reg_config reg" "has_shards (on_shard i f reg) = has_shards reg"
  by (simp_all add: on_shard_def workerCount_def has_shards_def)

lemma shard_bound:
  "has_shards reg \<Longrightarrow> uid_shard reg u < length (reg_shards reg)"
  "has_shards reg \<Longrightarrow> topic_shard reg k < length (reg_shards reg)"
  using shardIndex_less [of "workerCount reg"]
  by (auto simp: uid_shard_def topic_shard_def workerCount_def has_shards_def)

lemma shard_of_on_shard [simp]:
  "uid_shard (on_shard i f reg) u = uid_shard reg u" "topic_shard (on_shard i f reg) k = topic_shard reg k"
  by (simp_all add: uid_shard_def topic_shard_def)

lemma nth_on_shard:
  "i < length (reg_shards reg) \<Longrightarrow> reg_shards (on_shard i f reg) ! j =
     (if j = i then f (reg_shards reg ! i) else reg_shards reg ! j)"
  by (simp add: on_shard_def)

lemma put_simps [simp]:
  "workerCount (put_participant u p reg) = workerCount reg" "workerCount (put_topic k e reg) = workerCount reg"
  "reg_self (put_participant u p reg) = reg_self reg" "reg_self (put_topic k e reg) = reg_self reg"
  "reg_config (put_participant u p reg) = reg_config reg" "reg_config (put_topic k e reg) = reg_config reg"
  "has_shards (put_participant u p reg) = has_shards reg" "has_shards (put_topic k e reg) = has_shards reg"
  "has_shards (erase_topic k reg) = has_shards reg" "reg_self (erase_topic k reg) = reg_self reg"
  by (simp_all add: put_participant_def put_topic_def erase_topic_def)

lemma find_after_put:
  assumes "has_shards reg"
  shows "find_participant (put_participant u p reg) = (find_participant reg)(u \<mapsto> p)"
    and "find_topic (put_topic k e reg) = (find_topic reg)(k \<mapsto> e)"
    and "find_topic (erase_topic k reg) = (find_topic reg)(k := None)"
    and "find_topic (put_participant u p reg) = find_topic reg"
    and "find_participant (put_topic k e reg) = find_participant reg"
    and "find_participant (erase_topic k reg) = find_participant reg"
  using shard_bound [OF assms]
  by (auto simp: fun_eq_iff find_participant_def find_topic_def put_participant_def put_topic_def
    erase_topic_def nth_on_shard)

interpretation peer_store: keyed_store find_participant put_participant has_shards
  by unfold_locales (simp_all add: find_after_put)

interpretation topic_store: keyed_store find_topic put_topic has_shards
  by unfold_locales (simp_all add: find_after_put)

section \<open>The flat registry\<close>

record flat =
  fl_peers :: "u64 \<Rightarrow> participant option"
  fl_topics :: "string \<Rightarrow> topic_entry option"

definition flat_of :: "registry \<Rightarrow> flat" where
  "flat_of reg = \<lparr>fl_peers = find_participant reg, fl_topics = find_topic reg\<rparr>"

text \<open>The handlers on it, for a node with the given own uid and participant timeout.\<close>

definition flat_heartbeat :: "u64 \<Rightarrow> int \<Rightarrow> u64 \<Rightarrow> u64 \<Rightarrow> u64 \<Rightarrow> endpoint list \<Rightarrow> int \<Rightarrow> flat \<Rightarrow> flat" where
  "flat_heartbeat self timeout pid tid uid eps now f =
     (if uid = self then f
      else f\<lparr>fl_peers := (fl_peers f)(uid \<mapsto>
        (case fl_peers f uid of
           None \<Rightarrow> (new_participant pid tid uid timeout now)\<lparr>p_endpoints := eps\<rparr>
         | Some p \<Rightarrow> p\<lparr>p_lastSeen := now, p_endpoints := eps\<rparr>))\<rparr>)"

definition flat_announce :: "u64 \<Rightarrow> u64 \<Rightarrow> u64 \<Rightarrow> u64 \<Rightarrow> string \<Rightarrow> string \<Rightarrow> bool \<Rightarrow> int \<Rightarrow> flat \<Rightarrow> flat" where
  "flat_announce self pid tid uid tn mt isPub now f =
     (if uid = self then f
      else
        let key = makeCompositeKey tn mt; remote = new_participant pid tid uid (seconds 10) now;
            e = (case fl_topics f key of None \<Rightarrow> empty_entry | Some e \<Rightarrow> e)
                  \<lparr>te_topicName := tn, te_messageType := mt\<rparr>
        in f\<lparr>fl_topics := (fl_topics f)(key \<mapsto>
             (if isPub then e\<lparr>te_publishers := ps_insert remote (te_publishers e)\<rparr>
              else e\<lparr>te_subscribers := ps_insert remote (te_subscribers e)\<rparr>))\<rparr>)"

definition flat_message :: "u64 \<Rightarrow> int \<Rightarrow> message \<Rightarrow> int \<Rightarrow> flat \<Rightarrow> flat" where
  "flat_message self timeout msg now f =
     (case msg of
        Content_identifier i \<Rightarrow>
          flat_heartbeat self timeout (ucast (id_pid i)) (id_tid i) (id_uid i) (id_endpoints i) now f
      | Content_advertisement ad \<Rightarrow>
          (let i = ad_identifier ad; t = ad_topic ad in
           flat_announce self (ucast (id_pid i)) (id_tid i) (id_uid i) (tp_topic_name t)
             (tp_message_type t) (tp_is_publisher t) now
             (flat_heartbeat self timeout (ucast (id_pid i)) (id_tid i) (id_uid i) (id_endpoints i) now f))
      | _ \<Rightarrow> f)"

definition own_uid :: "registry \<Rightarrow> u64" where
  "own_uid reg = p_uid (reg_self reg)"

definition own_timeout :: "registry \<Rightarrow> int" where
  "own_timeout reg = seconds (cf_participantTimeout (reg_config reg))"

lemma heartbeat_flat:
  assumes "has_shards reg"
  shows "flat_of (handleParticipantHeartbeat pid tid uid eps now reg) =
      flat_heartbeat (own_uid reg) (own_timeout reg) pid tid uid eps now (flat_of reg)"
  using find_after_put [OF assms]
  by (auto simp: handleParticipantHeartbeat_def flat_heartbeat_def flat_of_def own_uid_def own_timeout_def
    split: option.split)

lemma heartbeat_keeps [simp]:
  "has_shards (handleParticipantHeartbeat pid tid uid eps now reg) = has_shards reg"
  "reg_self (handleParticipantHeartbeat pid tid uid eps now reg) = reg_self reg"
  "reg_config (handleParticipantHeartbeat pid tid uid eps now reg) = reg_config reg"
  by (auto simp: handleParticipantHeartbeat_def split: option.split)

lemma announce_flat:
  assumes "has_shards reg"
  shows "flat_of (handleTopicAnnouncement pid tid uid tn mt isPub now reg) =
      flat_announce (own_uid reg) pid tid uid tn mt isPub now (flat_of reg)"
  using find_after_put [OF assms]
  by (auto simp: handleTopicAnnouncement_def flat_announce_def flat_of_def own_uid_def entry_at_def
    TopicInfo_def Let_def)

lemma announce_keeps [simp]:
  "has_shards (handleTopicAnnouncement pid tid uid tn mt isPub now reg) = has_shards reg"
  "reg_self (handleTopicAnnouncement pid tid uid tn mt isPub now reg) = reg_self reg"
  "reg_config (handleTopicAnnouncement pid tid uid tn mt isPub now reg) = reg_config reg"
  by (auto simp: handleTopicAnnouncement_def Let_def)

lemma parse_flat:
  assumes "has_shards reg"
  shows "flat_of (snd (handleAutoDiscoveryParse types msg now reg)) =
      flat_message (own_uid reg) (own_timeout reg) msg now (flat_of reg)"
  using heartbeat_flat [OF assms] announce_flat assms
  by (auto simp: handleAutoDiscoveryParse_def flat_message_def Let_def own_uid_def own_timeout_def
    split: message.split)

lemma parse_keeps [simp]:
  "has_shards (snd (handleAutoDiscoveryParse types msg now reg)) = has_shards reg"
  "own_uid (snd (handleAutoDiscoveryParse types msg now reg)) = own_uid reg"
  "own_timeout (snd (handleAutoDiscoveryParse types msg now reg)) = own_timeout reg"
  by (auto simp: handleAutoDiscoveryParse_def Let_def own_uid_def own_timeout_def split: message.split)

lemma receive_flat:
  "flat_of reg = flat_of reg' \<Longrightarrow>
   fst (handleAutoDiscoveryParse types msg now reg) = fst (handleAutoDiscoveryParse types msg now reg')"
  by (simp add: handleAutoDiscoveryParse_def handleDataMessageReceive_def flat_of_def Let_def
    split: message.split)

text \<open>A stream of parsed messages with their clock readings, and everything it makes the node invoke.\<close>

fun handle_all ::
  "(string \<Rightarrow> (bytes \<Rightarrow> 'm option) option) \<Rightarrow> (message \<times> int) list \<Rightarrow> registry \<Rightarrow> (nat \<times> 'm) list \<times> registry" where
  "handle_all types [] reg = ([], reg)"
| "handle_all types ((msg, now) # ms) reg =
     (case handleAutoDiscoveryParse types msg now reg of (out, reg') \<Rightarrow>
        (case handle_all types ms reg' of (out', reg'') \<Rightarrow> (out @ out', reg'')))"

lemma handle_all_flat:
  "has_shards reg \<Longrightarrow> flat_of (snd (handle_all types ms reg)) =
     fold (\<lambda>(msg, now). flat_message (own_uid reg) (own_timeout reg) msg now) ms (flat_of reg)"
proof (induction ms arbitrary: reg)
  case (Cons m ms)
  obtain msg now where m: "m = (msg, now)" by fastforce
  let ?reg' = "snd (handleAutoDiscoveryParse types msg now reg)"
  have "snd (handle_all types (m # ms) reg) = snd (handle_all types ms ?reg')"
    by (simp add: m split: prod.split)
  then show ?case using Cons parse_flat [OF Cons.prems, of types msg now] by (simp add: m)
qed simp

lemma handle_all_same:
  assumes "has_shards reg" "has_shards reg'" "flat_of reg = flat_of reg'"
    and "own_uid reg = own_uid reg'" "own_timeout reg = own_timeout reg'"
  shows "fst (handle_all types ms reg) = fst (handle_all types ms reg')"
  using assms
proof (induction ms arbitrary: reg reg')
  case (Cons m ms)
  obtain msg now where m: "m = (msg, now)" by fastforce
  let ?h = "\<lambda>reg. snd (handleAutoDiscoveryParse types msg now reg)"
  have "fst (handle_all types ms (?h reg)) = fst (handle_all types ms (?h reg'))"
    by (rule Cons.IH) (use Cons.prems in \<open>simp_all add: parse_flat\<close>)
  moreover have "fst (handle_all types (m # ms) r) =
      fst (handleAutoDiscoveryParse types msg now r) @ fst (handle_all types ms (?h r))" for r
    by (simp add: m split: prod.split)
  ultimately show ?case using receive_flat [OF Cons.prems(3), of types msg now] by simp
qed simp

text \<open>
  C15. The shards are invisible: two nodes with the same registry content but different worker
  counts, fed with the same messages, invoke the same callbacks with the same payloads and
  end with the same registry content, and that content is what the flat specification
  computes message by message.
\<close>

theorem shards_invisible:
  assumes "has_shards reg" "has_shards reg'" "flat_of reg = flat_of reg'"
    and "own_uid reg = own_uid reg'" "own_timeout reg = own_timeout reg'"
  shows "fst (handle_all types ms reg) = fst (handle_all types ms reg') \<and>
    flat_of (snd (handle_all types ms reg)) =
      fold (\<lambda>(msg, now). flat_message (own_uid reg) (own_timeout reg) msg now) ms (flat_of reg) \<and>
    flat_of (snd (handle_all types ms reg)) = flat_of (snd (handle_all types ms reg'))"
  using handle_all_same [OF assms] handle_all_flat [OF assms(1), of types ms]
    handle_all_flat [OF assms(2), of types ms] assms(3-5) by simp

definition fresh_registry :: "nat \<Rightarrow> registry" where
  "fresh_registry n =
     \<lparr>reg_shards = replicate n \<lparr>sh_participants = [], sh_topics = []\<rparr>,
      reg_self = new_participant 9 0 99 0 0, reg_config = default_config\<rparr>"

lemma fresh_registry_simps [simp]:
  "has_shards (fresh_registry n) \<longleftrightarrow> 0 < n" "own_uid (fresh_registry n) = 99"
  "own_timeout (fresh_registry n) = seconds 10" "workerCount (fresh_registry n) = n"
  by (simp_all add: fresh_registry_def has_shards_def own_uid_def own_timeout_def new_participant_def
    default_config_def kDefaultParticipantTimeout_def workerCount_def)

lemma find_fresh [simp]:
  "0 < n \<Longrightarrow> find_participant (fresh_registry n) u = None" "0 < n \<Longrightarrow> find_topic (fresh_registry n) k = None"
  using shard_bound [of "fresh_registry n"]
  by (simp_all add: find_participant_def find_topic_def) (simp_all add: fresh_registry_def)

theorem shards_invisible_witness:
  "flat_of (snd (handle_all (\<lambda>_. Some Some) [(Content_identifier \<lparr>id_pid = 1, id_tid = 0, id_uid = 5,
     id_endpoints = []\<rparr>, 7)] (fresh_registry 1))) =
   flat_of (snd (handle_all (\<lambda>_. Some Some) [(Content_identifier \<lparr>id_pid = 1, id_tid = 0, id_uid = 5,
     id_endpoints = []\<rparr>, 7)] (fresh_registry 4)))"
  by (rule shards_invisible [THEN conjunct2, THEN conjunct2]) (simp_all add: flat_of_def fun_eq_iff)

section \<open>Well-formed registries\<close>

text \<open>
  Every peer sits under its own uid in the shard of that uid, every topic under its own
  composite key in the shard of that key, and the node itself is nowhere. Process ids come
  from 32-bit protobuf fields, so narrowing them loses nothing.
\<close>

definition small_pid :: "u64 \<Rightarrow> bool" where
  "small_pid pid \<longleftrightarrow> ucast (ucast pid :: u32) = pid"

lemma small_pid_ucast [simp]: "small_pid (ucast (pid :: u32))"
  unfolding small_pid_def
  by (rule bit_word_eqI) (auto simp: bit_ucast_iff dest: bit_imp_le_length)

definition peers_ok :: "u64 \<Rightarrow> participant_set \<Rightarrow> bool" where
  "peers_ok self ps \<longleftrightarrow> om_ok ps \<and> (\<forall>(i, p) \<in> set ps. i = p_key p \<and> small_pid (p_pid p) \<and> p_uid p \<noteq> self)"

definition entry_ok :: "u64 \<Rightarrow> string \<Rightarrow> topic_entry \<Rightarrow> bool" where
  "entry_ok self k e \<longleftrightarrow> k = makeCompositeKey (te_topicName e) (te_messageType e) \<and>
     peers_ok self (te_publishers e) \<and> peers_ok self (te_subscribers e)"

definition shard_ok :: "registry \<Rightarrow> nat \<Rightarrow> bool" where
  "shard_ok reg i \<longleftrightarrow>
     (let sh = reg_shards reg ! i in
      om_ok (sh_participants sh) \<and> om_ok (sh_topics sh) \<and>
      (\<forall>(u, p) \<in> set (sh_participants sh). uid_shard reg u = i \<and> p_uid p = u \<and> u \<noteq> own_uid reg) \<and>
      (\<forall>(k, e) \<in> set (sh_topics sh). topic_shard reg k = i \<and> entry_ok (own_uid reg) k e))"

definition registry_inv :: "registry \<Rightarrow> bool" where
  "registry_inv reg \<longleftrightarrow> has_shards reg \<and> (\<forall>i < workerCount reg. shard_ok reg i)"

lemma set_om_put: "x \<in> set (om_put k v m) \<Longrightarrow> x = (k, v) \<or> x \<in> set m"
  by (induction k v m rule: om_put.induct) (auto split: if_splits)

lemma own_uid_simps [simp]:
  "own_uid (put_participant u p reg) = own_uid reg" "own_uid (put_topic k e reg) = own_uid reg"
  "own_uid (erase_topic k reg) = own_uid reg" "own_uid (on_shard i f reg) = own_uid reg"
  by (simp_all add: own_uid_def)

lemma shard_ok_on_shard:
  assumes "registry_inv reg" "i < workerCount reg"
    and "let sh = f (reg_shards reg ! i) in
      om_ok (sh_participants sh) \<and> om_ok (sh_topics sh) \<and>
      (\<forall>(u, p) \<in> set (sh_participants sh). uid_shard reg u = i \<and> p_uid p = u \<and> u \<noteq> own_uid reg) \<and>
      (\<forall>(k, e) \<in> set (sh_topics sh). topic_shard reg k = i \<and> entry_ok (own_uid reg) k e)"
  shows "registry_inv (on_shard i f reg)"
  using assms by (auto simp: registry_inv_def shard_ok_def Let_def nth_on_shard workerCount_def [symmetric])

lemma inv_put_participant:
  assumes "registry_inv reg" "p_uid p = u" "u \<noteq> own_uid reg"
  shows "registry_inv (put_participant u p reg)"
proof -
  have i: "uid_shard reg u < workerCount reg"
    using assms(1) shard_bound(1) [of reg u] by (simp add: registry_inv_def workerCount_def)
  then have "shard_ok reg (uid_shard reg u)" using assms(1) by (simp add: registry_inv_def)
  then show ?thesis
    unfolding put_participant_def
    by (intro shard_ok_on_shard [OF assms(1) i]) (use assms in \<open>auto simp: shard_ok_def Let_def dest!: set_om_put\<close>)
qed

lemma inv_put_topic:
  assumes "registry_inv reg" "entry_ok (own_uid reg) k e"
  shows "registry_inv (put_topic k e reg)"
proof -
  have i: "topic_shard reg k < workerCount reg"
    using assms(1) shard_bound(2) [of reg k] by (simp add: registry_inv_def workerCount_def)
  then have "shard_ok reg (topic_shard reg k)" using assms(1) by (simp add: registry_inv_def)
  then show ?thesis
    unfolding put_topic_def
    by (intro shard_ok_on_shard [OF assms(1) i]) (use assms in \<open>auto simp: shard_ok_def Let_def dest!: set_om_put\<close>)
qed

lemma inv_erase_topic:
  assumes "registry_inv reg"
  shows "registry_inv (erase_topic k reg)"
proof -
  have i: "topic_shard reg k < workerCount reg"
    using assms(1) shard_bound(2) [of reg k] by (simp add: registry_inv_def workerCount_def)
  then have "shard_ok reg (topic_shard reg k)" using assms(1) by (simp add: registry_inv_def)
  then show ?thesis
    unfolding erase_topic_def
    by (intro shard_ok_on_shard [OF assms(1) i]) (auto simp: shard_ok_def Let_def om_erase_def)
qed

lemma inv_find:
  assumes "registry_inv reg"
  shows "find_participant reg u = Some p \<Longrightarrow> p_uid p = u \<and> u \<noteq> own_uid reg"
    and "find_topic reg k = Some e \<Longrightarrow> entry_ok (own_uid reg) k e"
proof -
  have "shard_ok reg (uid_shard reg u)" "shard_ok reg (topic_shard reg k)"
    using assms shard_bound [of reg] by (simp_all add: registry_inv_def workerCount_def)
  then show "find_participant reg u = Some p \<Longrightarrow> p_uid p = u \<and> u \<noteq> own_uid reg"
    "find_topic reg k = Some e \<Longrightarrow> entry_ok (own_uid reg) k e"
    by (auto simp: shard_ok_def Let_def find_participant_def find_topic_def dest!: map_of_SomeD)
qed

lemma entry_at_ok:
  "registry_inv reg \<Longrightarrow> peers_ok (own_uid reg) (te_publishers (entry_at reg k)) \<and>
     peers_ok (own_uid reg) (te_subscribers (entry_at reg k))"
  using inv_find(2) [of reg k] by (auto simp: entry_at_def entry_ok_def empty_entry_def peers_ok_def split: option.split)

lemma peers_ok_insert: "peers_ok self ps \<Longrightarrow> small_pid (p_pid p) \<Longrightarrow> p_uid p \<noteq> self \<Longrightarrow> peers_ok self (ps_insert p ps)"
  by (auto simp: peers_ok_def ps_insert_def om_emplace_def dest!: set_om_put)

lemma peers_ok_filter: "peers_ok self ps \<Longrightarrow> peers_ok self (filter P ps)"
  by (auto simp: peers_ok_def)

lemma inv_heartbeat: "registry_inv reg \<Longrightarrow> registry_inv (handleParticipantHeartbeat pid tid uid eps now reg)"
  using inv_find(1) [of reg uid]
  by (auto simp: handleParticipantHeartbeat_def own_uid_def new_participant_def intro!: inv_put_participant
    split: option.split)

lemma inv_announce: "registry_inv reg \<Longrightarrow> small_pid pid \<Longrightarrow> registry_inv (handleTopicAnnouncement pid tid uid tn mt isPub now reg)"
  using entry_at_ok [of reg "makeCompositeKey tn mt"]
  by (auto simp: handleTopicAnnouncement_def own_uid_def Let_def TopicInfo_def entry_ok_def
    new_participant_def intro!: inv_put_topic peers_ok_insert)

lemma inv_parse: "registry_inv reg \<Longrightarrow> registry_inv (snd (handleAutoDiscoveryParse types msg now reg))"
  by (auto simp: handleAutoDiscoveryParse_def Let_def inv_heartbeat inv_announce split: message.split)

section \<open>The cleanup\<close>

definition cleaned :: "int \<Rightarrow> registry \<Rightarrow> registry" where
  "cleaned now reg =
     reg\<lparr>reg_shards := map (purge_topics (stale_participants now reg) \<circ> evict_stale now) (reg_shards reg)\<rparr>"

lemma cleanup_eq:
  "removeTimedOutParticipants now reg st = (cleaned now reg, prune_windows (stale_participants now reg) st)"
  by (simp add: removeTimedOutParticipants_def cleaned_def Let_def)

lemma cleaned_simps [simp]:
  "workerCount (cleaned now reg) = workerCount reg" "has_shards (cleaned now reg) = has_shards reg"
  "own_uid (cleaned now reg) = own_uid reg" "uid_shard (cleaned now reg) u = uid_shard reg u"
  "topic_shard (cleaned now reg) k = topic_shard reg k"
  by (simp_all add: cleaned_def workerCount_def has_shards_def own_uid_def uid_shard_def topic_shard_def)

lemma cleaned_shard:
  assumes "i < workerCount reg"
  shows "sh_participants (reg_shards (cleaned now reg) ! i) =
      filter (\<lambda>(u, p). \<not> shouldBeRemoved now p) (sh_participants (reg_shards reg ! i))"
    and "sh_topics (reg_shards (cleaned now reg) ! i) =
      filter (\<lambda>(k, e). \<not> deserted e) (map (\<lambda>(k, e). (k, purge_entry (stale_participants now reg) e))
        (sh_topics (reg_shards reg ! i)))"
  using assms by (simp_all add: cleaned_def workerCount_def purge_topics_def evict_stale_def)

lemma entry_ok_purge: "entry_ok self k e \<Longrightarrow> entry_ok self k (purge_entry stale e)"
  by (auto simp: entry_ok_def purge_entry_def peers_ok_filter)

lemma inv_cleaned:
  assumes "registry_inv reg"
  shows "registry_inv (cleaned now reg)"
proof -
  have "shard_ok (cleaned now reg) i" if i: "i < workerCount reg" for i
  proof -
    have "shard_ok reg i" using assms i by (simp add: registry_inv_def)
    then show ?thesis
      by (auto simp: shard_ok_def Let_def cleaned_shard [OF i] entry_ok_purge)
  qed
  then show ?thesis using assms by (simp add: registry_inv_def)
qed

lemma map_of_map_values: "map_of (map (\<lambda>(k, v). (k, f v)) m) k = map_option f (map_of m k)"
  by (induction m) auto

lemma found_peers:
  assumes "registry_inv reg"
  shows "om_ok (sh_participants (reg_shards reg ! uid_shard reg u))" "uid_shard reg u < workerCount reg"
  using assms shard_bound(1) [of reg u] by (auto simp: registry_inv_def shard_ok_def Let_def workerCount_def)

lemma found_topics:
  assumes "registry_inv reg"
  shows "om_ok (sh_topics (reg_shards reg ! topic_shard reg k))" "topic_shard reg k < workerCount reg"
  using assms shard_bound(2) [of reg k] by (auto simp: registry_inv_def shard_ok_def Let_def workerCount_def)

lemma find_participant_cleaned:
  assumes "registry_inv reg"
  shows "find_participant (cleaned now reg) u =
    (case find_participant reg u of None \<Rightarrow> None | Some p \<Rightarrow> if shouldBeRemoved now p then None else Some p)"
  using found_peers [OF assms, of u]
  by (simp add: find_participant_def cleaned_shard map_of_filter_om split: option.split)

lemma find_topic_cleaned:
  assumes "registry_inv reg"
  shows "find_topic (cleaned now reg) k =
    (case find_topic reg k of None \<Rightarrow> None
     | Some e \<Rightarrow> let e' = purge_entry (stale_participants now reg) e in if deserted e' then None else Some e')"
  using found_topics [OF assms, of k]
  by (simp add: find_topic_def cleaned_shard map_of_filter_om map_of_map_values Let_def split: option.split)

lemma stale_participants_iff:
  assumes "registry_inv reg"
  shows "p \<in> set (stale_participants now reg) \<longleftrightarrow>
    find_participant reg (p_uid p) = Some p \<and> shouldBeRemoved now p"
proof
  assume "p \<in> set (stale_participants now reg)"
  then obtain sh u where sh: "sh \<in> set (reg_shards reg)" "(u, p) \<in> set (sh_participants sh)"
    and s: "shouldBeRemoved now p"
    by (auto simp: stale_participants_def)
  then obtain i where i: "i < workerCount reg" "(u, p) \<in> set (sh_participants (reg_shards reg ! i))"
    by (auto simp: in_set_conv_nth [of sh] workerCount_def)
  then have "shard_ok reg i" using assms by (simp add: registry_inv_def)
  then have "uid_shard reg u = i" "p_uid p = u" "om_ok (sh_participants (reg_shards reg ! i))"
    using i(2) by (auto simp: shard_ok_def Let_def)
  then show "find_participant reg (p_uid p) = Some p \<and> shouldBeRemoved now p"
    using map_of_is_SomeI [OF om_ok_distinct i(2)] s by (auto simp: find_participant_def)
next
  assume p: "find_participant reg (p_uid p) = Some p \<and> shouldBeRemoved now p"
  then have "(p_uid p, p) \<in> set (sh_participants (reg_shards reg ! uid_shard reg (p_uid p)))"
    by (auto simp: find_participant_def dest: map_of_SomeD)
  moreover have "reg_shards reg ! uid_shard reg (p_uid p) \<in> set (reg_shards reg)"
    using found_peers(2) [OF assms] by (simp add: workerCount_def)
  ultimately show "p \<in> set (stale_participants now reg)"
    using p by (force simp: stale_participants_def)
qed

lemma stale_uid_iff:
  assumes "registry_inv reg"
  shows "(\<exists>s \<in> set (stale_participants now reg). p_uid s = u) \<longleftrightarrow>
    (\<exists>q. find_participant reg u = Some q \<and> shouldBeRemoved now q)"
proof
  assume "\<exists>q. find_participant reg u = Some q \<and> shouldBeRemoved now q"
  then obtain q where q: "find_participant reg u = Some q" "shouldBeRemoved now q" by blast
  then have "p_uid q = u" using inv_find(1) [OF assms] by blast
  with q show "\<exists>s \<in> set (stale_participants now reg). p_uid s = u"
    by (intro bexI [of _ q]) (simp_all add: stale_participants_iff [OF assms])
qed (auto simp: stale_participants_iff [OF assms])

lemma isStale_iff:
  assumes "registry_inv reg"
  shows "isStale (stale_participants now reg) p \<longleftrightarrow>
    (\<exists>q. find_participant reg (p_uid p) = Some q \<and> shouldBeRemoved now q)"
  using stale_uid_iff [OF assms] by (simp add: isStale_def)

lemma prune_windows_lookup:
  "om_ok (reliableWindows st) \<Longrightarrow>
   map_of (reliableWindows (prune_windows stale st)) (window_key u k) =
     (if \<exists>s \<in> set stale. p_uid s = u then None else map_of (reliableWindows st) (window_key u k))"
  using map_of_filter_om [of "reliableWindows st"
      "\<lambda>k w. \<not> (\<exists>s \<in> set stale. starts_with (window_prefix (p_uid s)) k)" "window_key u k"]
  by (auto simp: prune_windows_def window_key_prefix_iff split: option.splits)

text \<open>
  C16. The timeout cleanup removes exactly what has timed out: a peer disappears exactly when
  it was silent for longer than its timeout, it leaves the peer sets of all topics on all
  shards and takes all its receive windows with it, no window of another publisher is
  touched, and a topic is dropped exactly when it has neither peers nor callbacks left.
\<close>

theorem cleanup_exact:
  assumes "registry_inv reg" "om_ok (reliableWindows st)"
    and "removeTimedOutParticipants now reg st = (reg', st')"
  shows "let gone = (\<lambda>u. \<exists>p. find_participant reg u = Some p \<and> now - p_lastSeen p > p_timeout p) in
    find_participant reg' u = (if gone u then None else find_participant reg u) \<and>
    map_of (reliableWindows st') (window_key u k) =
      (if gone u then None else map_of (reliableWindows st) (window_key u k)) \<and>
    find_topic reg' k =
      (case find_topic reg k of None \<Rightarrow> None
       | Some e \<Rightarrow>
           let pubs = filter (\<lambda>(i, p). \<not> gone (p_uid p)) (te_publishers e);
               subs = filter (\<lambda>(i, p). \<not> gone (p_uid p)) (te_subscribers e)
           in if pubs = [] \<and> subs = [] \<and> te_callbacks e = [] then None
              else Some (e\<lparr>te_publishers := pubs, te_subscribers := subs\<rparr>))"
proof -
  let ?stale = "stale_participants now reg"
  have r: "reg' = cleaned now reg" "st' = prune_windows ?stale st" using assms(3) by (simp_all add: cleanup_eq)
  show ?thesis
    unfolding Let_def r
    by (simp add: find_participant_cleaned [OF assms(1)] find_topic_cleaned [OF assms(1)]
      prune_windows_lookup [OF assms(2)] shouldBeRemoved_def purge_entry_def isStale_iff [OF assms(1)]
      stale_uid_iff [OF assms(1)] deserted_def Let_def split: option.split)
qed

lemma fresh_registry_inv: "0 < n \<Longrightarrow> registry_inv (fresh_registry n)"
  by (simp add: registry_inv_def shard_ok_def Let_def fresh_registry_def workerCount_def has_shards_def)

definition old_peer :: registry where
  "old_peer = put_participant 5 (new_participant 1 0 5 (seconds 10) 0) (fresh_registry 4)"

lemma old_peer_facts:
  "registry_inv old_peer" "find_participant old_peer 5 = Some (new_participant 1 0 5 (seconds 10) 0)"
  by (auto simp: old_peer_def find_after_put new_participant_def intro!: inv_put_participant fresh_registry_inv)

theorem cleanup_exact_witness:
  "find_participant (fst (removeTimedOutParticipants (seconds 11) old_peer no_windows)) 5 = None"
proof -
  have c: "removeTimedOutParticipants (seconds 11) old_peer no_windows =
      (cleaned (seconds 11) old_peer, prune_windows (stale_participants (seconds 11) old_peer) no_windows)"
    by (rule cleanup_eq)
  have "om_ok (reliableWindows no_windows)" by (simp add: no_windows_def)
  from cleanup_exact [OF old_peer_facts(1) this c, of 5 undefined]
  have "find_participant (cleaned (seconds 11) old_peer) 5 = None"
    by (simp add: Let_def old_peer_facts(2) new_participant_def seconds_def)
  then show ?thesis by (simp only: c fst_conv)
qed

lemma register_entry_find:
  "has_shards reg \<Longrightarrow> find_topic (register_entry tn mt rel reg) =
     (find_topic reg)(makeCompositeKey tn mt \<mapsto>
        (entry_at reg (makeCompositeKey tn mt))\<lparr>te_topicName := tn, te_messageType := mt, te_reliable := rel\<rparr>)"
  by (simp add: register_entry_def Let_def TopicInfo_def find_after_put)

lemma inv_register_entry: "registry_inv reg \<Longrightarrow> registry_inv (register_entry tn mt rel reg)"
  using entry_at_ok [of reg "makeCompositeKey tn mt"]
  by (auto simp: register_entry_def Let_def TopicInfo_def entry_ok_def intro!: inv_put_topic)

text \<open>
  The cleanup forgets registrations: a topic the node has registered as a reliable
  publisher, and one it subscribes to without a callback, are erased by the next cleanup
  while no peer has announced itself, together with the reliable flag, whether or not any
  peer has timed out.
\<close>

lemma cleanup_forgets_registration:
  assumes "registry_inv reg" "find_topic reg (makeCompositeKey tn mt) = None"
  shows "let key = makeCompositeKey tn mt;
      pub = snd (registerPublisherTopic sendPacket tn mt True reg);
      sub = fst (snd (registerSubscriberTopic sendPacket tn mt True reg subs))
    in map_option te_reliable (find_topic pub key) = Some True \<and>
       find_topic (fst (removeTimedOutParticipants now pub st)) key = None \<and>
       find_topic (fst (removeTimedOutParticipants now sub st)) key = None"
proof -
  let ?r = "register_entry tn mt True reg"
  have f: "find_topic ?r (makeCompositeKey tn mt) =
      Some (empty_entry\<lparr>te_topicName := tn, te_messageType := mt, te_reliable := True\<rparr>)"
    using assms by (simp add: register_entry_find registry_inv_def entry_at_def)
  have "find_topic (cleaned now ?r) (makeCompositeKey tn mt) = None"
    using inv_register_entry [OF assms(1)] f
    by (simp add: find_topic_cleaned purge_entry_def deserted_def empty_entry_def Let_def)
  then show ?thesis
    using f by (simp add: Let_def registerPublisherTopic_def registerSubscriberTopic_def cleanup_eq)
qed

section \<open>Callbacks and dispatch\<close>

lemma push_callback_find:
  "has_shards reg \<Longrightarrow> find_topic (push_callback k cb reg) =
     (find_topic reg)(k \<mapsto> (entry_at reg k)\<lparr>te_callbacks := te_callbacks (entry_at reg k) @ [cb]\<rparr>)"
  by (simp add: push_callback_def Let_def find_after_put)

lemma register_keeps [simp]:
  "has_shards (register_entry tn mt rel reg) = has_shards reg"
  "has_shards (push_callback k cb reg) = has_shards reg"
  by (simp_all add: register_entry_def push_callback_def Let_def)

lemma entry_at_put:
  "has_shards reg \<Longrightarrow> entry_at (put_topic k e reg) k' = (if k' = k then e else entry_at reg k')"
  by (simp add: entry_at_def find_after_put)

definition matched :: "string \<Rightarrow> topic_entry \<Rightarrow> nat list" where
  "matched mt e = List.map_filter (\<lambda>cb. if cb_messageType cb = mt then cb_invoke cb else None) (te_callbacks e)"

definition dispatched :: "(string \<Rightarrow> (bytes \<Rightarrow> 'm option) option) \<Rightarrow> data_message \<Rightarrow> nat list \<Rightarrow> (nat \<times> 'm) list" where
  "dispatched types data fs =
     (case Option.bind (types (dm_message_type data)) (\<lambda>parse. parse (dm_payload data)) of
        None \<Rightarrow> [] | Some m \<Rightarrow> map (\<lambda>f. (f, m)) fs)"

lemma receive_dispatched:
  "handleDataMessageReceive types data reg =
     dispatched types data (matched (dm_message_type data)
       (entry_at reg (makeCompositeKey (dm_topic_name data) (dm_message_type data))))"
  by (auto simp: handleDataMessageReceive_def dispatched_def matched_def entry_at_def empty_entry_def
    List.map_filter_def Let_def split: option.splits)

text \<open>
  C25. Delivery to subscribers: after a callback has been registered for a topic, a data
  message of that topic invokes what it invoked before and then, once and last, the new
  callback with the decoded payload; a message of any other topic and type invokes what it
  did before. Unknown types and undecodable payloads invoke nothing.
\<close>

theorem callback_delivery:
  assumes "has_shards reg" "kTopicKeySeparator \<notin> set mt" "kTopicKeySeparator \<notin> set (dm_message_type data)"
  shows "let reg' = fst (snd (registerSubscriberTopic_callback sendPacket tn mt (Some fn) rel reg subs));
      before = handleDataMessageReceive types data reg;
      after = handleDataMessageReceive types data reg'
    in after = before @
      (if dm_topic_name data = tn \<and> dm_message_type data = mt
       then case Option.bind (types mt) (\<lambda>parse. parse (dm_payload data)) of None \<Rightarrow> [] | Some m \<Rightarrow> [(fn, m)]
       else [])"
proof -
  let ?key = "makeCompositeKey tn mt" and ?dkey = "makeCompositeKey (dm_topic_name data) (dm_message_type data)"
  let ?reg' = "fst (snd (registerSubscriberTopic_callback sendPacket tn mt (Some fn) rel reg subs))"
  have keys: "?dkey = ?key \<longleftrightarrow> dm_topic_name data = tn \<and> dm_message_type data = mt"
    using split_at_last_sep [of kTopicKeySeparator mt "dm_message_type data" tn "dm_topic_name data"] assms(2,3)
    by (auto simp: makeCompositeKey_def)
  have "te_callbacks (entry_at ?reg' k) = te_callbacks (entry_at reg k) @
      (if k = ?key then [\<lparr>cb_messageType = mt, cb_invoke = Some fn\<rparr>] else [])" for k
    using assms(1)
    by (simp add: registerSubscriberTopic_callback_def registerSubscriberTopic_def Let_def
      register_entry_def push_callback_def TopicInfo_def entry_at_put)
  then show ?thesis
    by (auto simp: Let_def receive_dispatched matched_def dispatched_def keys List.map_filter_def
      split: option.split bind_split)
qed

theorem callback_delivery_witness:
  "handleDataMessageReceive (\<lambda>_. Some Some) (topic_frame 3 ''t'' 1)
     (fst (snd (registerSubscriberTopic_callback (\<lambda>_. True) ''t'' ''M'' (Some 7) False (fresh_registry 4) {})))
   = [(7, [1])]"
proof -
  have "kTopicKeySeparator \<notin> set ''M''" by (simp add: kTopicKeySeparator_def)
  then show ?thesis
    using callback_delivery [of "fresh_registry 4" "''M''" "topic_frame 3 ''t'' 1" "\<lambda>_. True" "''t''" 7 False "{}"
        "\<lambda>_. Some Some"]
    by (simp add: Let_def topic_frame_def handleDataMessageReceive_def)
qed

lemma inv_evict_shard:
  assumes "registry_inv reg" "i < workerCount reg"
  shows "registry_inv (on_shard i (evict_stale now) reg)"
proof -
  have "shard_ok reg i" using assms by (simp add: registry_inv_def)
  then show ?thesis
    by (intro shard_ok_on_shard [OF assms]) (auto simp: shard_ok_def Let_def evict_stale_def)
qed

lemma inv_purge_shard:
  assumes "registry_inv reg" "i < workerCount reg"
  shows "registry_inv (on_shard i (purge_topics stale) reg)"
proof -
  have "shard_ok reg i" using assms by (simp add: registry_inv_def)
  then show ?thesis
    by (intro shard_ok_on_shard [OF assms]) (auto simp: shard_ok_def Let_def purge_topics_def entry_ok_purge)
qed

section \<open>Invariant of all operations\<close>

text \<open>
  The operations as wholes, and the critical sections in which the longer ones release the lock: an
  advertisement is a heartbeat and then an announcement, the cleanup takes the shards one by
  one, twice, with a list of stale peers that may be out of date by then, and a registration stores its
  entry before it announces itself.
\<close>

inductive registry_step :: "registry \<Rightarrow> registry \<Rightarrow> bool" where
  rg_parse: "registry_step reg (snd (handleAutoDiscoveryParse
     (types :: string \<Rightarrow> (bytes \<Rightarrow> bytes option) option) msg now reg))"
| rg_cleanup: "registry_step reg (fst (removeTimedOutParticipants now reg st))"
| rg_heartbeat: "registry_step reg (handleParticipantHeartbeat (ucast (pid :: u32)) tid uid eps now reg)"
| rg_announce: "registry_step reg (handleTopicAnnouncement (ucast (pid :: u32)) tid uid tn mt isPub now reg)"
| rg_evict: "i < workerCount reg \<Longrightarrow> registry_step reg (on_shard i (evict_stale now) reg)"
| rg_purge: "i < workerCount reg \<Longrightarrow> registry_step reg (on_shard i (purge_topics stale) reg)"
| rg_register: "registry_step reg (register_entry tn mt rel reg)"
| rg_age: "registry_step reg (ageParticipant uid reg)"
| rg_pub: "registry_step reg (snd (registerPublisherTopic sendPacket tn mt rel reg))"
| rg_unpub: "registry_step reg (snd (unregisterPublisherTopic tn mt reg))"
| rg_sub: "registry_step reg (fst (snd (registerSubscriberTopic sendPacket tn mt rel reg subs)))"
| rg_subcb: "registry_step reg (fst (snd (registerSubscriberTopic_callback sendPacket tn mt fn rel reg subs)))"
| rg_subscribe: "registry_step reg (snd (subscribe tn mt fn reg))"
| rg_unsub: "registry_step reg (fst (snd (unregisterSubscriberTopic tn mt reg subs)))"

definition registry_start :: "registry \<Rightarrow> bool" where
  "registry_start reg \<longleftrightarrow> has_shards reg \<and>
     (\<forall>sh \<in> set (reg_shards reg). sh_participants sh = [] \<and> sh_topics sh = [])"

lemma inv_push_callback:
  assumes "registry_inv reg" "find_topic reg k = Some e"
  shows "registry_inv (push_callback k cb reg)"
proof -
  have "entry_ok (own_uid reg) k e" by (rule inv_find(2) [OF assms])
  then have "entry_ok (own_uid reg) k (e\<lparr>te_callbacks := te_callbacks e @ [cb]\<rparr>)"
    by (simp add: entry_ok_def)
  then show ?thesis
    using assms by (simp add: push_callback_def Let_def entry_at_def inv_put_topic)
qed

lemma inv_subscriber_callback:
  assumes "registry_inv reg"
  shows "registry_inv (fst (snd (registerSubscriberTopic_callback sendPacket tn mt fn rel reg subs)))"
proof -
  have "has_shards reg" using assms by (simp add: registry_inv_def)
  then have "registry_inv (push_callback (makeCompositeKey tn mt) cb (register_entry tn mt rel reg))" for cb
    by (intro inv_push_callback [OF inv_register_entry [OF assms]]) (simp add: register_entry_find)
  then show ?thesis
    using assms by (simp add: registerSubscriberTopic_callback_def registerSubscriberTopic_def Let_def
      TopicInfo_def inv_register_entry)
qed

lemma inv_unsubscribe:
  assumes "registry_inv reg"
  shows "registry_inv (fst (snd (unregisterSubscriberTopic tn mt reg subs)))"
proof (cases "find_topic reg (makeCompositeKey tn mt)")
  case (Some e)
  have "entry_ok (own_uid reg) (makeCompositeKey tn mt) (e\<lparr>te_callbacks := []\<rparr>)"
    using inv_find(2) [OF assms Some] by (simp add: entry_ok_def)
  then show ?thesis
    using Some assms by (simp add: unregisterSubscriberTopic_def Let_def TopicInfo_def inv_erase_topic inv_put_topic)
qed (use assms in \<open>simp add: unregisterSubscriberTopic_def Let_def TopicInfo_def\<close>)

lemma inv_age: "registry_inv reg \<Longrightarrow> registry_inv (ageParticipant uid reg)"
  using inv_find(1) [of reg uid]
  by (auto simp: ageParticipant_def intro!: inv_put_participant split: option.split)

lemma registry_inv_step: "registry_step reg reg' \<Longrightarrow> registry_inv reg \<Longrightarrow> registry_inv reg'"
proof (induction rule: registry_step.induct)
  case (rg_subscribe reg tn mt fn)
  then show ?case
    by (auto simp: subscribe_def Let_def TopicInfo_def inv_push_callback split: option.split)
qed (auto simp: inv_parse inv_heartbeat inv_announce inv_evict_shard inv_purge_shard
    cleanup_eq inv_cleaned inv_age registerPublisherTopic_def registerSubscriberTopic_def
    inv_register_entry inv_subscriber_callback inv_unsubscribe unregisterPublisherTopic_def Let_def
    inv_erase_topic split: option.split)

lemma registry_inv_start: "registry_start reg \<Longrightarrow> registry_inv reg"
  by (auto simp: registry_start_def registry_inv_def shard_ok_def Let_def workerCount_def)

interpretation registry_runs: invariant_system registry_start registry_step registry_inv
  by unfold_locales (rule registry_inv_start, assumption, rule registry_inv_step)

text \<open>What the invariant says of look-ups.\<close>

lemma registry_inv_lookups:
  assumes "registry_inv reg"
  shows "find_participant reg (own_uid reg) = None"
    and "find_participant reg u = Some p \<Longrightarrow> p_uid p = u"
    and "find_topic reg k = Some e \<Longrightarrow> k = makeCompositeKey (te_topicName e) (te_messageType e)"
    and "find_topic reg k = Some e \<Longrightarrow> \<forall>(i, q) \<in> set (te_publishers e) \<union> set (te_subscribers e). p_uid q \<noteq> own_uid reg"
  using inv_find(1) [OF assms] inv_find(2) [OF assms, of k e]
  by (cases "find_participant reg (own_uid reg)"; auto simp: entry_ok_def peers_ok_def)+

text \<open>
  In every state any sequence of discovery messages, cleanups and registrations can
  reach, each known peer is stored under its own uid and each topic under its own composite
  key, and the node never lists itself: not as a peer, and not among the publishers or
  subscribers of a topic, although loopback delivers its own packets to it.
\<close>

theorem registry_never_self:
  assumes "reach registry_start registry_step reg"
  shows "find_participant reg (own_uid reg) = None \<and>
    (find_participant reg u = Some p \<longrightarrow> p_uid p = u) \<and>
    (find_topic reg k = Some e \<longrightarrow> k = makeCompositeKey (te_topicName e) (te_messageType e) \<and>
       (\<forall>(i, q) \<in> set (te_publishers e) \<union> set (te_subscribers e). p_uid q \<noteq> own_uid reg))"
  using registry_inv_lookups [OF registry_runs.reach_inv [OF assms]] by blast

theorem registry_never_self_witness:
  "find_participant (snd (handleAutoDiscoveryParse (\<lambda>_. Some Some)
     (Content_identifier \<lparr>id_pid = 9, id_tid = 0, id_uid = 99, id_endpoints = []\<rparr>) 0 (fresh_registry 4))) 99 = None"
proof -
  let ?msg = "Content_identifier \<lparr>id_pid = 9, id_tid = 0, id_uid = 99, id_endpoints = []\<rparr>"
  let ?reg = "snd (handleAutoDiscoveryParse (\<lambda>_. Some Some) ?msg 0 (fresh_registry 4))"
  have "reach registry_start registry_step (fresh_registry 4)"
    by (rule reach_init) (simp add: registry_start_def has_shards_def fresh_registry_def)
  then have "reach registry_start registry_step ?reg"
    by (rule reach_step) (rule rg_parse)
  from registry_never_self [OF this] show ?thesis by simp
qed

end
