(* ===== verification/Edriel_Wire.thy ===== *)
theory Edriel_Wire
  imports Edriel_Proto
begin

text \<open>
  The wire-level code of \<open>Edriel.cpp\<close>: the magic number, and the fast routing path that
  walks a raw datagram without decoding it (\<open>WireCursor\<close>, \<open>readDataMessageRoutingKey\<close>,
  \<open>tryReadRoutingKey\<close>). Pointers are 64-bit addresses and \<open>mem\<close> is the memory they read;
  pointer arithmetic wraps as it does on the machine. The loops are partial functions whose
  value \<open>None\<close> is "does not return".
\<close>

unbundle bit_operations_syntax

section \<open>The cursor\<close>

type_synonym memory = "u64 \<Rightarrow> u8"

record cursor =
  cu_p :: u64
  cu_end :: u64

text \<open>\<open>varint\<close>: at most ten bytes, as \<open>shift\<close> stays below 64.\<close>

fun varint_loop :: "memory \<Rightarrow> u64 \<Rightarrow> nat \<Rightarrow> nat \<Rightarrow> u64 \<Rightarrow> u64 \<Rightarrow> bool \<times> u64 \<times> u64" where
  "varint_loop mem e 0 shift p out = (False, out, p)"
| "varint_loop mem e (Suc k) shift p out =
     (if p < e then
        let b = mem p; out' = out OR push_bit shift (ucast (b AND 0x7F)) in
        if b AND 0x80 = 0 then (True, out', p + 1)
        else varint_loop mem e k (shift + 7) (p + 1) out'
      else (False, out, p))"

definition varint :: "memory \<Rightarrow> cursor \<Rightarrow> bool \<times> u64 \<times> cursor" where
  "varint mem c =
     (case varint_loop mem (cu_end c) 10 0 (cu_p c) 0 of (ok, out, p) \<Rightarrow> (ok, out, c\<lparr>cu_p := p\<rparr>))"

text \<open>The span (start, length), or \<open>None\<close> for the null pointer.\<close>

definition lengthDelimited :: "memory \<Rightarrow> cursor \<Rightarrow> (u64 \<times> u64) option \<times> cursor" where
  "lengthDelimited mem c =
     (case varint mem c of (ok, l, c') \<Rightarrow>
        if \<not> ok then (None, c')
        else if cu_p c' + l > cu_end c' then (None, c')
        else (Some (cu_p c', l), c'\<lparr>cu_p := cu_p c' + l\<rparr>))"

definition skip_fixed :: "u64 \<Rightarrow> cursor \<Rightarrow> bool \<times> cursor" where
  "skip_fixed n c = (if cu_p c + n > cu_end c then (False, c) else (True, c\<lparr>cu_p := cu_p c + n\<rparr>))"

definition skipField :: "memory \<Rightarrow> u32 \<Rightarrow> cursor \<Rightarrow> bool \<times> cursor" where
  "skipField mem wireType c =
     (if wireType = 0 then (case varint mem c of (ok, v, c') \<Rightarrow> (ok, c'))
      else if wireType = 1 then skip_fixed 8 c
      else if wireType = 2 then (case lengthDelimited mem c of (s, c') \<Rightarrow> (s \<noteq> None, c'))
      else if wireType = 5 then skip_fixed 4 c
      else (False, c))"

text \<open>Field number and wire type of the next field, \<open>None\<close> at the end or on a broken tag.\<close>

definition nextTag :: "memory \<Rightarrow> cursor \<Rightarrow> (u32 \<times> u32) option \<times> cursor" where
  "nextTag mem c =
     (if cu_p c \<ge> cu_end c then (None, c)
      else case varint mem c of (ok, tag, c') \<Rightarrow>
        if ok then (Some (ucast (drop_bit 3 tag), ucast (tag AND 7)), c') else (None, c'))"

text \<open>
  \<open>readString\<close> copies the span into a \<open>std::string\<close>, whose \<open>assign\<close> throws
  \<open>std::length_error\<close> for more than \<open>max_size()\<close> characters.
\<close>

definition max_size :: nat where
  "max_size = 2 ^ 63 - 1"

definition read_bytes :: "memory \<Rightarrow> u64 \<Rightarrow> nat \<Rightarrow> string" where
  "read_bytes mem s n = map (\<lambda>i. char_of (unat (mem (s + of_nat i)))) [0..<n]"

datatype read_result = Read string | Read_failed | Length_error

definition readString :: "memory \<Rightarrow> cursor \<Rightarrow> read_result \<times> cursor" where
  "readString mem c =
     (case lengthDelimited mem c of
        (None, c') \<Rightarrow> (Read_failed, c')
      | (Some (s, l), c') \<Rightarrow>
          (if max_size < unat l then (Length_error, c') else (Read (read_bytes mem s (unat l)), c')))"

section \<open>The routing key\<close>

text \<open>What a routing function does: return with the two strings, or throw.\<close>

datatype routing = Returned bool string string | Thrown

text \<open>One turn of the loop of \<open>readDataMessageRoutingKey\<close>: go on, or an outcome.\<close>

definition data_step :: "memory \<Rightarrow> cursor \<times> string \<times> string \<Rightarrow> (cursor \<times> string \<times> string) + routing" where
  "data_step mem st =
     (case st of (c, topic, messageType) \<Rightarrow>
        case nextTag mem c of
          (None, c1) \<Rightarrow> Inr (Returned (topic \<noteq> [] \<and> messageType \<noteq> []) topic messageType)
        | (Some (fn, wt), c1) \<Rightarrow>
            if wt \<noteq> 2 then
              (case skipField mem wt c1 of (ok, c2) \<Rightarrow>
                 if ok then Inl (c2, topic, messageType) else Inr (Returned False topic messageType))
            else
              (let finish = (\<lambda>c t m. if t \<noteq> [] \<and> m \<noteq> [] then Inr (Returned True t m) else Inl (c, t, m)) in
               if fn = 2 then
                 (case readString mem c1 of
                    (Read t, c2) \<Rightarrow> finish c2 t messageType
                  | (Read_failed, c2) \<Rightarrow> Inr (Returned False topic messageType)
                  | (Length_error, c2) \<Rightarrow> Inr Thrown)
               else if fn = 3 then
                 (case readString mem c1 of
                    (Read m, c2) \<Rightarrow> finish c2 topic m
                  | (Read_failed, c2) \<Rightarrow> Inr (Returned False topic messageType)
                  | (Length_error, c2) \<Rightarrow> Inr Thrown)
               else
                 (case lengthDelimited mem c1 of
                    (None, c2) \<Rightarrow> Inr (Returned False topic messageType)
                  | (Some span, c2) \<Rightarrow> finish c2 topic messageType)))"

partial_function (option) data_loop :: "memory \<Rightarrow> cursor \<times> string \<times> string \<Rightarrow> routing option" where
  "data_loop mem st = (case data_step mem st of Inr r \<Rightarrow> Some r | Inl st' \<Rightarrow> data_loop mem st')"

definition readDataMessageRoutingKey :: "memory \<Rightarrow> u64 \<Rightarrow> u64 \<Rightarrow> routing option" where
  "readDataMessageRoutingKey mem body len = data_loop mem (\<lparr>cu_p = body, cu_end = body + len\<rparr>, [], [])"

text \<open>
  \<open>tryReadRoutingKey\<close>: fields that are not length-delimited are skipped; the first one that
  is decides. The result is the composite key for a return value of 1, \<open>None\<close> for 0.
\<close>

datatype route = Route "string option" | Route_thrown

definition route_step :: "memory \<Rightarrow> cursor \<Rightarrow> cursor + route option" where
  "route_step mem c =
     (case nextTag mem c of
        (None, c1) \<Rightarrow> Inr (Some (Route None))
      | (Some (fn, wt), c1) \<Rightarrow>
          if wt \<noteq> 2 then
            (case skipField mem wt c1 of (ok, c2) \<Rightarrow> if ok then Inl c2 else Inr (Some (Route None)))
          else
            (case lengthDelimited mem c1 of
               (None, c2) \<Rightarrow> Inr (Some (Route None))
             | (Some (body, bodyLen), c2) \<Rightarrow>
                 if fn = 3 then
                   (case readDataMessageRoutingKey mem body bodyLen of
                      None \<Rightarrow> Inr None
                    | Some Thrown \<Rightarrow> Inr (Some Route_thrown)
                    | Some (Returned ok topic messageType) \<Rightarrow>
                        Inr (Some (Route (if ok then Some (topic @ [kTopicKeySeparator] @ messageType) else None))))
                 else Inr (Some (Route None))))"

partial_function (option) route_loop :: "memory \<Rightarrow> cursor \<Rightarrow> route option" where
  "route_loop mem c = (case route_step mem c of Inr r \<Rightarrow> r | Inl c' \<Rightarrow> route_loop mem c')"

definition tryReadRoutingKey :: "memory \<Rightarrow> u64 \<Rightarrow> u64 \<Rightarrow> route option" where
  "tryReadRoutingKey mem raw len = route_loop mem \<lparr>cu_p = raw, cu_end = raw + len\<rparr>"

section \<open>The magic number\<close>

definition MAGIC_NUMBER_VALUE :: u32 where
  "MAGIC_NUMBER_VALUE = 0xED75E1ED"

definition magicNumberSize :: nat where
  "magicNumberSize = 4"

text \<open>\<open>htonl\<close> and \<open>memcpy\<close> together: the four bytes, most significant first; and back.\<close>

definition big_endian :: "u32 \<Rightarrow> bytes" where
  "big_endian x = [ucast (drop_bit 24 x), ucast (drop_bit 16 x), ucast (drop_bit 8 x), ucast x]"

definition from_big_endian :: "bytes \<Rightarrow> u32" where
  "from_big_endian bs =
     push_bit 24 (ucast (bs ! 0)) OR push_bit 16 (ucast (bs ! 1)) OR push_bit 8 (ucast (bs ! 2)) OR ucast (bs ! 3)"

definition hasValidMagicNumber :: "bytes \<Rightarrow> nat \<Rightarrow> bool" where
  "hasValidMagicNumber buffer len \<longleftrightarrow>
     \<not> len < magicNumberSize \<and> from_big_endian (take 4 buffer) = MAGIC_NUMBER_VALUE"

definition prependMagicNumberToPacket :: "bytes \<Rightarrow> bytes" where
  "prependMagicNumberToPacket packet = big_endian MAGIC_NUMBER_VALUE @ packet"

definition recvBufferSize :: nat where
  "recvBufferSize = 1500"

text \<open>
  \<open>sendPacket\<close>: \<open>serialized\<close> is the outcome of \<open>SerializeToString\<close>. The result is the
  returned flag and the datagrams posted to the socket.
\<close>

definition sendPacket :: "bytes option \<Rightarrow> bool \<times> bytes list" where
  "sendPacket serialized =
     (case serialized of None \<Rightarrow> (False, [])
      | Some packet \<Rightarrow>
          let p = prependMagicNumberToPacket packet in
          if length p > recvBufferSize then (False, []) else (True, [p]))"

section \<open>Reading a list of bytes\<close>

text \<open>
  The memory from \<open>p\<close> up to \<open>e\<close> holds the given bytes (and does not wrap around the end of
  the address space).
\<close>

fun view :: "memory \<Rightarrow> u64 \<Rightarrow> u64 \<Rightarrow> bytes \<Rightarrow> bool" where
  "view mem p e [] \<longleftrightarrow> p = e"
| "view mem p e (b # bs) \<longleftrightarrow> mem p = b \<and> p < e \<and> view mem (p + 1) e bs"

lemma view_less: "(p :: u64) < e \<Longrightarrow> unat (p + 1) = Suc (unat p)"
  by (rule unat_Suc_u64) (auto simp: word_order.not_eq_extremum [symmetric])

lemma view_length: "view mem p e bs \<Longrightarrow> unat e = unat p + length bs"
  by (induction bs arbitrary: p) (auto simp: view_less)

lemma view_end: "view mem p e bs \<Longrightarrow> e = p + of_nat (length bs)"
  using view_length [of mem p e bs] unat_u64_bound [of e] unat_plus_nat_u64 [of p "length bs"]
  by (simp add: word_unat_eq_iff)

lemma view_drop: "view mem p e bs \<Longrightarrow> n \<le> length bs \<Longrightarrow> view mem (p + of_nat n) e (drop n bs)"
proof (induction n arbitrary: p bs)
  case (Suc n)
  then obtain b bs' where "bs = b # bs'" by (cases bs) auto
  with Suc show ?case using Suc.IH [of "p + 1" bs'] by (simp add: algebra_simps)
qed simp

lemma view_take: "view mem p e (as @ bs) \<Longrightarrow> view mem p (p + of_nat (length as)) as"
proof (induction as arbitrary: p)
  case (Cons a as)
  have "view mem (p + 1) (p + 1 + of_nat (length as)) as"
    using Cons by simp
  moreover have "unat p + length as < 2 ^ 64"
    using view_length [OF Cons.prems] unat_u64_bound [of e] by simp
  moreover have "p < p + of_nat (Suc (length as))"
    using view_length [OF Cons.prems] unat_u64_bound [of e] unat_plus_nat_u64 [of p "Suc (length as)"]
    by (simp add: word_less_nat_alt)
  ultimately show ?case using Cons.prems by (simp add: algebra_simps)
qed simp

lemma view_le: "view mem p e bs \<Longrightarrow> n \<le> length bs \<Longrightarrow> p + of_nat n \<le> e"
  using view_length [of mem p e bs] unat_u64_bound [of e] unat_plus_nat_u64 [of p n]
  by (simp add: word_le_nat_alt)

lemma view_nth: "view mem p e bs \<Longrightarrow> i < length bs \<Longrightarrow> mem (p + of_nat i) = bs ! i"
proof (induction bs arbitrary: p i)
  case (Cons b bs)
  then show ?case using Cons.IH [of "p + 1" "i - 1"] by (cases i) (auto simp: algebra_simps)
qed simp

fun dec_varint :: "nat \<Rightarrow> nat \<Rightarrow> bytes \<Rightarrow> u64 \<Rightarrow> bool \<times> u64 \<times> bytes" where
  "dec_varint 0 shift bs out = (False, out, bs)"
| "dec_varint (Suc k) shift [] out = (False, out, [])"
| "dec_varint (Suc k) shift (b # bs) out =
     (let out' = out OR push_bit shift (ucast (b AND 0x7F)) in
      if b AND 0x80 = 0 then (True, out', bs) else dec_varint k (shift + 7) bs out')"

lemma varint_loop_view:
  "view mem p e bs \<Longrightarrow> dec_varint k shift bs out = (ok, v, rest) \<Longrightarrow>
   \<exists>p'. varint_loop mem e k shift p out = (ok, v, p') \<and> view mem p' e rest"
  by (induction k shift bs out arbitrary: p rule: dec_varint.induct) (auto simp: Let_def split: if_splits)

lemma varint_view:
  assumes "view mem (cu_p c) (cu_end c) bs" "dec_varint 10 0 bs 0 = (ok, v, rest)"
  shows "\<exists>p'. varint mem c = (ok, v, c\<lparr>cu_p := p'\<rparr>) \<and> view mem p' (cu_end c) rest"
  using varint_loop_view [OF assms] by (auto simp: varint_def)

section \<open>The encoding of protobuf\<close>

fun enc_varint :: "nat \<Rightarrow> bytes" where
  "enc_varint n = (if n < 128 then [of_nat n] else of_nat (128 + n mod 128) # enc_varint (n div 128))"

declare enc_varint.simps [simp del]

text \<open>A length-delimited field with a field number below 16.\<close>

definition field :: "nat \<Rightarrow> bytes \<Rightarrow> bytes" where
  "field fn bs = of_nat (8 * fn + 2) # enc_varint (length bs) @ bs"

lemma enc_byte_all:
  "list_all (\<lambda>m. (of_nat m :: u8) AND 0x80 = 0 \<and> ucast ((of_nat m :: u8) AND 0x7F) = (of_nat m :: u64) \<and>
     (of_nat (128 + m) :: u8) AND 0x80 \<noteq> 0 \<and>
     ucast ((of_nat (128 + m) :: u8) AND 0x7F) = (of_nat m :: u64)) [0..<128]"
  by code_simp

lemma enc_byte:
  assumes "m < 128"
  shows "(of_nat m :: u8) AND 0x80 = 0" "ucast ((of_nat m :: u8) AND 0x7F) = (of_nat m :: u64)"
    "(of_nat (128 + m) :: u8) AND 0x80 \<noteq> 0"
    "ucast ((of_nat (128 + m) :: u8) AND 0x7F) = (of_nat m :: u64)"
  using enc_byte_all assms by (auto simp: list_all_iff)

lemma split_varint:
  "(push_bit s (of_nat (n mod 128)) :: u64) OR push_bit (s + 7) (of_nat (n div 128)) = push_bit s (of_nat n)"
proof (rule bit_word_eqI)
  fix i assume "i < LENGTH(64)"
  have m: "n mod 128 = take_bit 7 n" and d: "n div 128 = drop_bit 7 n"
    by (simp_all add: take_bit_eq_mod drop_bit_eq_div)
  have *: "7 + (i - (s + 7)) = i - s" if "s + 7 \<le> i" using that by simp
  then show "bit (push_bit s (of_nat (n mod 128)) OR push_bit (s + 7) (of_nat (n div 128)) :: u64) i =
      bit (push_bit s (of_nat n) :: u64) i"
    unfolding m d by (cases "s + 7 \<le> i") (auto simp: bit_simps bit_of_nat_iff *)
qed

lemma dec_enc:
  "0 < k \<Longrightarrow> n < 2 ^ (7 * k) \<Longrightarrow>
   dec_varint k s (enc_varint n @ rest) out = (True, out OR push_bit s (of_nat n), rest)"
proof (induction n arbitrary: k s out rule: enc_varint.induct)
  case (1 n)
  then obtain k' where k: "k = Suc k'" by (cases k) auto
  show ?case
  proof (cases "n < 128")
    case True
    then show ?thesis by (subst enc_varint.simps) (simp add: k enc_byte Let_def)
  next
    case False
    have "n < 2 ^ (7 * k') * 128" using "1.prems"(2) by (simp add: k power_add mult.commute)
    then have "n div 128 < 2 ^ (7 * k')" by (rule less_mult_imp_div_less)
    moreover then have "0 < k'" using False by (cases k') (auto simp: div_greater_zero_iff)
    ultimately have IH: "dec_varint k' (s + 7) (enc_varint (n div 128) @ rest) (out OR push_bit s (of_nat (n mod 128)))
      = (True, (out OR push_bit s (of_nat (n mod 128))) OR push_bit (s + 7) (of_nat (n div 128)), rest)"
      by (intro "1.IH" [OF False])
    have "enc_varint n = of_nat (128 + n mod 128) # enc_varint (n div 128)"
      using enc_varint.simps [of n] by (simp only: False if_False)
    moreover have "dec_varint (Suc k') s ((of_nat (128 + n mod 128) # bs) @ rest) out =
        dec_varint k' (s + 7) (bs @ rest) (out OR push_bit s (of_nat (n mod 128)))" for bs
      using enc_byte(3,4) [of "n mod 128"] by (simp only: dec_varint.simps append_Cons Let_def) simp
    ultimately show ?thesis
      using split_varint [of s n] IH by (simp only: k or.assoc)
  qed
qed

section \<open>Walking a well-formed frame\<close>

lemma tag_byte:
  "fn < 16 \<Longrightarrow> dec_varint 10 0 (of_nat (8 * fn + 2) # bs) 0 = (True, of_nat (8 * fn + 2), bs)"
  using dec_enc [of 10 "8 * fn + 2" 0 bs 0] enc_varint.simps [of "8 * fn + 2"] by simp

lemma tag_parts:
  "fn < 16 \<Longrightarrow> ucast (drop_bit 3 (of_nat (8 * fn + 2) :: u64)) = (of_nat fn :: u32)"
  "fn < 16 \<Longrightarrow> ucast ((of_nat (8 * fn + 2) :: u64) AND 7) = (2 :: u32)"
proof -
  have "list_all (\<lambda>fn. ucast (drop_bit 3 (of_nat (8 * fn + 2) :: u64)) = (of_nat fn :: u32) \<and>
      ucast ((of_nat (8 * fn + 2) :: u64) AND 7) = (2 :: u32)) [0..<16]" by code_simp
  then show "fn < 16 \<Longrightarrow> ucast (drop_bit 3 (of_nat (8 * fn + 2) :: u64)) = (of_nat fn :: u32)"
    "fn < 16 \<Longrightarrow> ucast ((of_nat (8 * fn + 2) :: u64) AND 7) = (2 :: u32)"
    by (auto simp: list_all_iff)
qed

lemma nextTag_field:
  assumes "view mem (cu_p c) (cu_end c) (of_nat (8 * fn + 2) # bs)" "fn < 16"
  shows "\<exists>p. nextTag mem c = (Some (of_nat fn, 2), c\<lparr>cu_p := p\<rparr>) \<and> view mem p (cu_end c) bs"
proof -
  obtain p where p: "varint mem c = (True, of_nat (8 * fn + 2), c\<lparr>cu_p := p\<rparr>)" "view mem p (cu_end c) bs"
    using varint_view [OF assms(1) tag_byte [OF assms(2)]] by blast
  then show ?thesis
    using assms(1) tag_parts [OF assms(2)] by (intro exI [of _ p]) (simp add: nextTag_def not_le)
qed

lemma lengthDelimited_field:
  assumes v: "view mem (cu_p c) (cu_end c) (enc_varint (length bs) @ bs @ rest)"
  shows "\<exists>p. lengthDelimited mem c = (Some (p, of_nat (length bs)), c\<lparr>cu_p := p + of_nat (length bs)\<rparr>) \<and>
    view mem p (cu_end c) (bs @ rest)"
proof -
  have len: "length bs < 2 ^ 64" using view_length [OF v] unat_u64_bound [of "cu_end c"] by simp
  then have "dec_varint 10 0 (enc_varint (length bs) @ bs @ rest) 0 = (True, of_nat (length bs), bs @ rest)"
    using dec_enc [of 10 "length bs" 0 "bs @ rest" 0] by simp
  from varint_view [OF v this] obtain p where
    p: "varint mem c = (True, of_nat (length bs), c\<lparr>cu_p := p\<rparr>)" "view mem p (cu_end c) (bs @ rest)"
    by blast
  then show ?thesis
    using view_le [OF p(2), of "length bs"]
    by (intro exI [of _ p]) (simp add: lengthDelimited_def not_less)
qed

definition bytes_of :: "string \<Rightarrow> bytes" where
  "bytes_of s = map of_char s"

lemma length_bytes_of [simp]: "length (bytes_of s) = length s" "bytes_of s = [] \<longleftrightarrow> s = []"
  by (simp_all add: bytes_of_def)

lemma unat_of_char: "unat (of_char c :: u8) = of_char c"
proof -
  have "unat (of_nat (of_char c) :: u8) = of_char c"
    by (simp only: unat_of_nat) (simp add: take_bit_nat_eq_self nat_of_char_less_256)
  then show ?thesis by (metis of_nat_of_char)
qed

lemma read_bytes_view:
  assumes "view mem p e (bytes_of s @ rest)"
  shows "read_bytes mem p (length s) = s"
proof (rule nth_equalityI)
  fix i assume "i < length (read_bytes mem p (length s))"
  then have i: "i < length s" by (simp add: read_bytes_def)
  then have "mem (p + of_nat i) = of_char (s ! i)"
    using view_nth [OF assms, of i] by (simp add: bytes_of_def nth_append)
  then show "read_bytes mem p (length s) ! i = s ! i"
    using i by (simp add: read_bytes_def unat_of_char)
qed (simp add: read_bytes_def)

lemma readString_field:
  assumes v: "view mem (cu_p c) (cu_end c) (enc_varint (length s) @ bytes_of s @ rest)"
    and "length s \<le> max_size"
  shows "\<exists>p. readString mem c = (Read s, c\<lparr>cu_p := p\<rparr>) \<and> view mem p (cu_end c) rest"
proof -
  have "view mem (cu_p c) (cu_end c) (enc_varint (length (bytes_of s)) @ bytes_of s @ rest)"
    using v by simp
  from lengthDelimited_field [OF this] obtain p where
    p: "lengthDelimited mem c = (Some (p, of_nat (length s)), c\<lparr>cu_p := p + of_nat (length s)\<rparr>)"
    "view mem p (cu_end c) (bytes_of s @ rest)" by auto
  have "unat (of_nat (length s) :: u64) = length s"
    using assms(2) by (simp add: max_size_def unat_of_nat_u64)
  moreover have "view mem (p + of_nat (length s)) (cu_end c) rest"
    using view_drop [OF p(2), of "length s"] by simp
  ultimately show ?thesis
    using p read_bytes_view [OF p(2)] assms(2) by (auto simp: readString_def)
qed

lemma field_view:
  assumes v: "view mem (cu_p c) (cu_end c) (field fn bs @ rest)" and fn: "fn < 16"
  obtains p where "nextTag mem c = (Some (of_nat fn, 2), c\<lparr>cu_p := p\<rparr>)"
    "view mem p (cu_end c) (enc_varint (length bs) @ bs @ rest)"
  using nextTag_field [of mem c fn "enc_varint (length bs) @ bs @ rest"] assms
  by (auto simp: field_def)

lemma data_step_identifier:
  assumes "view mem (cu_p c) (cu_end c) (field 1 ib @ rest)"
  shows "\<exists>c'. data_step mem (c, [], []) = Inl (c', [], []) \<and> cu_end c' = cu_end c \<and>
    view mem (cu_p c') (cu_end c) rest"
proof -
  obtain p where p: "nextTag mem c = (Some (of_nat 1, 2), c\<lparr>cu_p := p\<rparr>)"
    "view mem p (cu_end c) (enc_varint (length ib) @ ib @ rest)"
    using field_view [OF assms] by auto
  obtain q where q: "lengthDelimited mem (c\<lparr>cu_p := p\<rparr>) = (Some (q, of_nat (length ib)), c\<lparr>cu_p := q + of_nat (length ib)\<rparr>)"
    "view mem q (cu_end c) (ib @ rest)"
    using lengthDelimited_field [of mem "c\<lparr>cu_p := p\<rparr>" ib rest] p(2) by auto
  from view_drop [OF q(2), of "length ib"] show ?thesis
    by (simp add: data_step_def p(1) q(1))
qed

lemma data_step_strings:
  assumes "view mem (cu_p c) (cu_end c) (field fn (bytes_of s) @ rest)" "length s \<le> max_size" "s \<noteq> []"
  shows "fn = 2 \<Longrightarrow> \<exists>c'. data_step mem (c, [], []) = Inl (c', s, []) \<and> cu_end c' = cu_end c \<and>
      view mem (cu_p c') (cu_end c) rest"
    and "fn = 3 \<Longrightarrow> t \<noteq> [] \<Longrightarrow> data_step mem (c, t, []) = Inr (Returned True t s)"
proof -
  have read: "\<exists>p q. nextTag mem c = (Some (of_nat fn, 2), c\<lparr>cu_p := p\<rparr>) \<and>
      readString mem (c\<lparr>cu_p := p\<rparr>) = (Read s, c\<lparr>cu_p := q\<rparr>) \<and> view mem q (cu_end c) rest" if fn: "fn < 16"
  proof -
    obtain p where p: "nextTag mem c = (Some (of_nat fn, 2), c\<lparr>cu_p := p\<rparr>)"
      "view mem p (cu_end c) (enc_varint (length s) @ bytes_of s @ rest)"
      using field_view [OF assms(1) fn] by auto
    from readString_field [of mem "c\<lparr>cu_p := p\<rparr>" s rest] p assms(2) show ?thesis by auto
  qed
  show "fn = 2 \<Longrightarrow> \<exists>c'. data_step mem (c, [], []) = Inl (c', s, []) \<and> cu_end c' = cu_end c \<and>
      view mem (cu_p c') (cu_end c) rest"
    using read by (auto simp: data_step_def Let_def)
  show "fn = 3 \<Longrightarrow> t \<noteq> [] \<Longrightarrow> data_step mem (c, t, []) = Inr (Returned True t s)"
    using read assms(3) by (auto simp: data_step_def Let_def)
qed

lemma data_message_key:
  assumes v: "view mem body (body + n) (pre @ field 2 (bytes_of topic) @ field 3 (bytes_of mt) @ post)"
    and pre: "pre = [] \<or> (\<exists>ib. pre = field 1 ib)"
    and s: "topic \<noteq> []" "mt \<noteq> []" "length topic \<le> max_size" "length mt \<le> max_size"
  shows "readDataMessageRoutingKey mem body n = Some (Returned True topic mt)"
proof -
  have *: "data_loop mem (c, [], []) = Some (Returned True topic mt)"
    if w: "view mem (cu_p c) (cu_end c) (field 2 (bytes_of topic) @ field 3 (bytes_of mt) @ post)" for c
  proof -
    obtain c' where c': "data_step mem (c, [], []) = Inl (c', topic, [])" "cu_end c' = cu_end c"
      "view mem (cu_p c') (cu_end c) (field 3 (bytes_of mt) @ post)"
      using data_step_strings(1) [OF w s(3,1)] by auto
    then have "data_step mem (c', topic, []) = Inr (Returned True topic mt)"
      using data_step_strings(2) [of mem c' 3 mt post topic] s by simp
    then show ?thesis
      by (simp add: data_loop.simps [of mem "(c, [], [])"] data_loop.simps [of mem "(c', topic, [])"] c'(1))
  qed
  let ?c = "\<lparr>cu_p = body, cu_end = body + n\<rparr>"
  from pre show ?thesis
  proof (elim disjE exE)
    assume "pre = []"
    then show ?thesis using v * [of ?c] by (simp add: readDataMessageRoutingKey_def)
  next
    fix ib assume "pre = field 1 ib"
    then obtain c' where c': "data_step mem (?c, [], []) = Inl (c', [], [])" "cu_end c' = body + n"
      "view mem (cu_p c') (body + n) (field 2 (bytes_of topic) @ field 3 (bytes_of mt) @ post)"
      using data_step_identifier [of mem ?c ib] v by auto
    then show ?thesis
      using * [of c'] by (simp add: readDataMessageRoutingKey_def data_loop.simps [of mem "(?c, [], [])"])
  qed
qed

lemma route_step_data:
  assumes "view mem (cu_p c) (cu_end c) (field 3 body @ junk)"
  shows "\<exists>b. view mem b (b + of_nat (length body)) body \<and> route_step mem c = 
    Inr (case readDataMessageRoutingKey mem b (of_nat (length body)) of
                      None \<Rightarrow> None
                    | Some Thrown \<Rightarrow> Some Route_thrown
                    | Some (Returned ok topic messageType) \<Rightarrow>
                        Some (Route (if ok then Some (topic @ [kTopicKeySeparator] @ messageType) else None)))"
proof -
  obtain p where p: "nextTag mem c = (Some (of_nat 3, 2), c\<lparr>cu_p := p\<rparr>)"
    "view mem p (cu_end c) (enc_varint (length body) @ body @ junk)"
    using field_view [OF assms] by auto
  obtain q where q: "lengthDelimited mem (c\<lparr>cu_p := p\<rparr>) = (Some (q, of_nat (length body)), c\<lparr>cu_p := q + of_nat (length body)\<rparr>)"
    "view mem q (cu_end c) (body @ junk)"
    using lengthDelimited_field [of mem "c\<lparr>cu_p := p\<rparr>" body junk] p(2) by auto
  from view_take [OF q(2)] show ?thesis
    by (intro exI [of _ q]) (auto simp: route_step_def p(1) q(1) split: option.splits routing.splits)
qed

text \<open>
  The routing fast path finds the key of a data frame without decoding it: in memory that
  holds, from \<open>raw\<close> on, a frame of at most a receive buffer whose first field is a data
  message with an optional identifier, a topic name and a message type (and anything after
  them), \<open>tryReadRoutingKey\<close> returns, with the composite key of that topic, so the frame
  goes to the worker that owns the topic.
\<close>

lemma routing_key_of_data_frame:
  assumes "view mem raw (raw + len) (field 3 (pre @ field 2 (bytes_of topic) @ field 3 (bytes_of mt) @ post) @ junk)"
    and "unat len \<le> recvBufferSize"
    and "pre = [] \<or> (\<exists>ib. pre = field 1 ib)" "topic \<noteq> []" "mt \<noteq> []"
  shows "tryReadRoutingKey mem raw len = Some (Route (Some (makeCompositeKey topic mt)))"
proof -
  let ?body = "pre @ field 2 (bytes_of topic) @ field 3 (bytes_of mt) @ post"
  have "raw < raw + len" using assms(1) by (simp add: field_def)
  then have "unat (raw + len) = unat raw + unat len"
    using unat_u64_bound [of len] by (simp add: unat_plus_if' word_less_nat_alt split: if_splits)
  then have "length (field 3 ?body @ junk) = unat len"
    using view_length [OF assms(1)] by simp
  then have len: "length topic \<le> max_size" "length mt \<le> max_size"
    using assms(2) by (auto simp: field_def max_size_def recvBufferSize_def)
  obtain b where b: "view mem b (b + of_nat (length ?body)) ?body" and
    step: "route_step mem \<lparr>cu_p = raw, cu_end = raw + len\<rparr> = 
      Inr (case readDataMessageRoutingKey mem b (of_nat (length ?body)) of
                      None \<Rightarrow> None
                    | Some Thrown \<Rightarrow> Some Route_thrown
                    | Some (Returned ok topic messageType) \<Rightarrow>
                        Some (Route (if ok then Some (topic @ [kTopicKeySeparator] @ messageType) else None)))"
    using route_step_data [of mem "\<lparr>cu_p = raw, cu_end = raw + len\<rparr>" ?body junk] assms(1) by auto
  have "readDataMessageRoutingKey mem b (of_nat (length ?body)) = Some (Returned True topic mt)"
    using data_message_key [OF b assms(3-5) len] by simp
  with step show ?thesis
    by (simp add: tryReadRoutingKey_def route_loop.simps makeCompositeKey_def)
qed

definition memory_of :: "bytes \<Rightarrow> memory" where
  "memory_of bs a = (if unat a < length bs then bs ! unat a else 0)"

lemma memory_of_view:
  assumes "length bs < 2 ^ 64"
  shows "view (memory_of bs) 0 (of_nat (length bs)) bs"
proof -
  have "view (memory_of bs) (of_nat i) (of_nat (length bs)) (drop i bs)" if "i \<le> length bs" for i
    using that
  proof (induction "length bs - i" arbitrary: i)
    case (Suc d)
    then have i: "i < length bs" by simp
    then have "drop i bs = bs ! i # drop (Suc i) bs" by (rule Cons_nth_drop_Suc [symmetric])
    moreover have "view (memory_of bs) (of_nat (Suc i)) (of_nat (length bs)) (drop (Suc i) bs)"
      using Suc.hyps i by (intro Suc.hyps(1)) auto
    ultimately show ?case using i assms
      by (simp add: memory_of_def unat_of_nat_u64 word_less_nat_alt add.commute)
  qed simp
  from this [of 0] show ?thesis by simp
qed

lemma data_loop_stuck: "data_step mem (c, t, m) = Inl (c, t, m) \<Longrightarrow> data_loop mem (c, t, m) = None"
proof -
  assume step: "data_step mem (c, t, m) = Inl (c, t, m)"
  have "mem' = mem \<and> st' = (c, t, m) \<longrightarrow> False" if "data_loop mem' st' = Some y" for mem' st' y
    by (rule data_loop.raw_induct [where P = "\<lambda>m' s _. m' = mem \<and> s = (c, t, m) \<longrightarrow> False", OF _ that])
      (use step in \<open>fastforce\<close>)
  from this [of mem "(c, t, m)"] show ?thesis by (cases "data_loop mem (c, t, m)") simp_all
qed

definition jump_back_frame :: bytes where
  "jump_back_frame = [0x1A, 11, 0x0A, 0xF5, 0xFF, 0xFF, 0xFF, 0xFF, 0xFF, 0xFF, 0xFF, 0xFF, 0x01]"

definition huge_name_frame :: bytes where
  "huge_name_frame = [0x1A, 11, 0x12, 0xFF, 0xFF, 0xFF, 0xFF, 0xFF, 0xFF, 0xFF, 0xFF, 0xFF, 0x01]"

lemma outer_field:
  assumes "view mem raw (raw + len) (0x1A # 11 # body)" "length body = 11"
  shows "\<exists>b. view mem b (b + 11) body \<and>
    (readDataMessageRoutingKey mem b 11 = None \<longrightarrow> tryReadRoutingKey mem raw len = None) \<and>
    (readDataMessageRoutingKey mem b 11 = Some Thrown \<longrightarrow> tryReadRoutingKey mem raw len = Some Route_thrown)"
proof -
  have "field 3 body @ [] = 0x1A # 11 # body"
    by (simp add: field_def enc_varint.simps assms(2))
  then have "view mem (cu_p \<lparr>cu_p = raw, cu_end = raw + len\<rparr>) (cu_end \<lparr>cu_p = raw, cu_end = raw + len\<rparr>) (field 3 body @ [])"
    using assms(1) by (simp only: cursor.simps)
  from route_step_data [OF this] show ?thesis
    by (auto simp: tryReadRoutingKey_def route_loop.simps assms(2))
qed

lemma view_unat_11: "view mem b (b + 11) (x # xs) \<Longrightarrow> unat (b + 11) = unat b + 11"
proof -
  assume "view mem b (b + 11) (x # xs)"
  then have "unat b < unat (b + 11)" by (simp add: word_less_nat_alt)
  then show ?thesis
    using unat_u64_bound [of b] by (auto simp: unat_plus_if' split: if_splits)
qed

lemma jump_back_step:
  assumes "view mem b (b + 11) (drop 2 jump_back_frame)"
  shows "data_step mem (\<lparr>cu_p = b, cu_end = b + 11\<rparr>, [], []) = Inl (\<lparr>cu_p = b, cu_end = b + 11\<rparr>, [], [])"
proof -
  obtain p where p: "nextTag mem \<lparr>cu_p = b, cu_end = b + 11\<rparr> = (Some (1, 2), \<lparr>cu_p = p, cu_end = b + 11\<rparr>)"
    "view mem p (b + 11) (drop 3 jump_back_frame)"
    using nextTag_field [of mem "\<lparr>cu_p = b, cu_end = b + 11\<rparr>" 1 "drop 3 jump_back_frame"] assms
    by (auto simp: jump_back_frame_def)
  have "dec_varint 10 0 (drop 3 jump_back_frame) 0 = (True, - 11, [])" by code_simp
  then have l: "varint mem \<lparr>cu_p = p, cu_end = b + 11\<rparr> = (True, - 11, \<lparr>cu_p = b + 11, cu_end = b + 11\<rparr>)"
    using varint_view [of mem "\<lparr>cu_p = p, cu_end = b + 11\<rparr>" "drop 3 jump_back_frame"] p(2) by auto
  have "b < b + 11" using assms by (simp add: jump_back_frame_def)
  then show ?thesis by (simp add: data_step_def p(1) lengthDelimited_def l Let_def)
qed

lemma huge_name_step:
  assumes "view mem b (b + 11) (drop 2 huge_name_frame)"
  shows "data_step mem (\<lparr>cu_p = b, cu_end = b + 11\<rparr>, [], []) = Inr Thrown"
proof -
  obtain p where p: "nextTag mem \<lparr>cu_p = b, cu_end = b + 11\<rparr> = (Some (2, 2), \<lparr>cu_p = p, cu_end = b + 11\<rparr>)"
    "view mem p (b + 11) (drop 3 huge_name_frame)"
    using nextTag_field [of mem "\<lparr>cu_p = b, cu_end = b + 11\<rparr>" 2 "drop 3 huge_name_frame"] assms
    by (auto simp: huge_name_frame_def)
  have "dec_varint 10 0 (drop 3 huge_name_frame) 0 = (True, - 1, [])" by code_simp
  then have l: "varint mem \<lparr>cu_p = p, cu_end = b + 11\<rparr> = (True, - 1, \<lparr>cu_p = b + 11, cu_end = b + 11\<rparr>)"
    using varint_view [of mem "\<lparr>cu_p = p, cu_end = b + 11\<rparr>" "drop 3 huge_name_frame"] p(2) by auto
  have "huge_name_frame = 0x1A # 11 # 0x12 # drop 3 huge_name_frame"
    by (simp add: huge_name_frame_def)
  then have "drop 2 huge_name_frame = 0x12 # drop 3 huge_name_frame"
    by (metis drop_0 drop_Suc_Cons numeral_2_eq_2)
  then have "unat (b + 11) = unat b + 11"
    using assms view_unat_11 by metis
  then have "b + 10 \<le> b + 11"
    using unat_u64_bound [of "b + 11"] unat_plus_nat_u64 [of b 10] by (simp add: word_le_nat_alt)
  moreover have "unat (- 1 :: u64) = 2 ^ 64 - 1"
    by (simp add: unsigned_minus_1_eq_mask mask_eq_exp_minus_1)
  moreover have "\<not> b + 11 < 10 + b"
    using calculation(1) by (simp add: not_less add.commute)
  ultimately show ?thesis
    by (simp add: data_step_def p(1) readString_def lengthDelimited_def l Let_def max_size_def)
qed

text \<open>
  One datagram stops the receiver: in a data message whose identifier claims a length of
  \<open>2 ^ 64 - 11\<close>, the bounds check \<open>p + length > end\<close> of \<open>lengthDelimited\<close> wraps around and
  the cursor jumps back to the start of the body, for ever: \<open>tryReadRoutingKey\<close> does not
  return on this frame of 13 bytes, wherever it is stored.
\<close>

lemma routing_walk_hangs:
  assumes "view mem raw (raw + len) jump_back_frame"
  shows "tryReadRoutingKey mem raw len = None"
proof -
  have frame: "jump_back_frame = 0x1A # 11 # drop 2 jump_back_frame" "length (drop 2 jump_back_frame) = 11"
    by (simp_all add: jump_back_frame_def)
  then obtain b where b: "view mem b (b + 11) (drop 2 jump_back_frame)" and
    run: "readDataMessageRoutingKey mem b 11 = None \<longrightarrow> tryReadRoutingKey mem raw len = None"
    using outer_field [of mem raw len "drop 2 jump_back_frame"] assms by metis
  from data_loop_stuck [OF jump_back_step [OF b]] show ?thesis
    by (intro run [rule_format]) (simp only: readDataMessageRoutingKey_def)
qed

text \<open>
  Another one ends the receiver thread: a topic name that claims \<open>2 ^ 64 - 1\<close> bytes passes
  the same wrapped check, and the copy into the string throws \<open>std::length_error\<close>, which
  nothing on that thread catches.
\<close>

lemma routing_walk_throws:
  assumes "view mem raw (raw + len) huge_name_frame"
  shows "tryReadRoutingKey mem raw len = Some Route_thrown"
proof -
  have frame: "huge_name_frame = 0x1A # 11 # drop 2 huge_name_frame" "length (drop 2 huge_name_frame) = 11"
    by (simp_all add: huge_name_frame_def)
  then obtain b where b: "view mem b (b + 11) (drop 2 huge_name_frame)" and
    run: "readDataMessageRoutingKey mem b 11 = Some Thrown \<longrightarrow> tryReadRoutingKey mem raw len = Some Route_thrown"
    using outer_field [of mem raw len "drop 2 huge_name_frame"] assms by metis
  from huge_name_step [OF b] show ?thesis
    by (intro run [rule_format]) (simp add: readDataMessageRoutingKey_def data_loop.simps)
qed

section \<open>The magic number\<close>

lemma from_big_endian_inverse: "from_big_endian (big_endian x) = x"
proof (rule bit_word_eqI)
  fix n assume "n < LENGTH(32)"
  then consider "n < 8" | "8 \<le> n" "n < 16" | "16 \<le> n" "n < 24" | "24 \<le> n" "n < 32"
    by fastforce
  then show "bit (from_big_endian (big_endian x)) n = bit x n"
    by cases (auto simp: from_big_endian_def big_endian_def bit_or_iff bit_push_bit_iff bit_ucast_iff
      bit_drop_bit_eq)
qed

lemma length_big_endian [simp]: "length (big_endian x) = 4"
  by (simp add: big_endian_def)



end
