(* ===== verification/Edriel_Send.thy ===== *)
theory Edriel_Send
  imports Edriel_Registry Edriel_Service Edriel_Wire
begin

text \<open>
  The sending side of a node (\<open>Edriel.cpp\<close>): \<open>publishData\<close> over multicast,
  \<open>tryPublishReliable\<close> with its pacing bucket, sequence numbers and fan-out to the
  subscriber streams, and the routing of \<open>sendMessage\<close> in \<open>Edriel.hpp\<close>. Serialization is
  a parameter, \<open>now\<close> the reading of the monotonic clock in nanoseconds. One call runs under
  \<open>grpcServiceMutex_\<close>, so two calls of \<open>tryPublishReliable\<close> never overlap.
\<close>

section \<open>State\<close>

datatype ReliableSendResult = Sent | Send_Backpressured | NoSubscribers | NotServing

text \<open>\<open>grpcService_\<close> (null when the node does not serve) and the members only sends touch.\<close>

record sender =
  sd_service :: "service option"
  sd_seq :: "(string, u64) omap"
  sd_tokens :: rat
  sd_lastRefill :: int

definition new_sender :: sender where
  "new_sender = \<lparr>sd_service = None, sd_seq = [], sd_tokens = 0, sd_lastRefill = 0\<rparr>"

section \<open>Pacing\<close>

text \<open>\<open>std::chrono::duration<double>(elapsed).count()\<close>.\<close>

definition duration_count :: "int \<Rightarrow> rat" where
  "duration_count ns = fp_div (rnd64 (of_int ns)) 1000000000"

text \<open>
  The token bucket: refused or admitted, and the new (tokens, last refill). A last refill of
  0 is the default time point.
\<close>

definition pace :: "u32 \<Rightarrow> int \<Rightarrow> rat \<times> int \<Rightarrow> bool \<times> rat \<times> int" where
  "pace rate now bucket =
     (let full = fp_of_nat (unat rate);
          (tokens, last) = (if snd bucket = 0 then (full, now) else bucket);
          refill = fp_mult (duration_count (now - last)) full;
          (tokens', last') = (if refill \<ge> 1 then (min (fp_plus tokens refill) full, now) else (tokens, last))
      in if tokens' < 1 then (False, tokens', last') else (True, fp_minus tokens' 1, last'))"

section \<open>Sending\<close>

definition sub_key :: "participant \<Rightarrow> SubscriberKey" where
  "sub_key p = SubscriberKey (ucast (p_pid p)) (p_tid p) (p_uid p)"

text \<open>The key of the deliverability map.\<close>

definition key_string :: "SubscriberKey \<Rightarrow> string" where
  "key_string sk = to_string (unat (sk_pid sk)) @ '':'' @ to_string (unat (sk_tid sk)) @ '':''
     @ to_string (unat (sk_uid sk))"

definition stamped :: "string \<Rightarrow> string \<Rightarrow> bytes \<Rightarrow> u64 \<Rightarrow> registry \<Rightarrow> data_message" where
  "stamped topicName messageType payload tid reg =
     \<lparr>dm_identifier = (self_identifier reg)\<lparr>id_tid := tid\<rparr>, dm_topic_name = topicName,
      dm_message_type = messageType, dm_payload = payload\<rparr>"

text \<open>The loop over the subscribers: the status of each, and the gRPC calls made.\<close>

fun fan_out :: "participant_data \<Rightarrow> SubscriberKey list \<Rightarrow> service \<Rightarrow>
    (SubscriberKey \<times> OutboxStatus) list \<times> (reactor_ptr \<times> grpc_call) list \<times> service" where
  "fan_out f [] sv = ([], [], sv)"
| "fan_out f (sk # sks) sv =
     (case pushData sk f sv of (st, calls, sv') \<Rightarrow>
        (case fan_out f sks sv' of (sts, calls', sv'') \<Rightarrow> ((sk, st) # sts, calls @ calls', sv'')))"

text \<open>The two flags of the loop, and what the call returns for them.\<close>

definition send_result :: "(SubscriberKey \<times> OutboxStatus) list \<Rightarrow> ReliableSendResult" where
  "send_result sts =
     (let acceptedAny = (\<exists>(sk, st) \<in> set sts. st = Accepted);
          anyLiveBackpressured = (\<exists>(sk, st) \<in> set sts. st = Backpressured)
      in if acceptedAny then Sent else if anyLiveBackpressured then Send_Backpressured else NoSubscribers)"

text \<open>
  The body of \<open>tryPublishReliable\<close> over the loop \<open>fan\<close>, so that it can also be run with
  other threads at work between the pushes.
\<close>

definition publish_with ::
  "(participant_data \<Rightarrow> SubscriberKey list \<Rightarrow> service \<Rightarrow>
      (SubscriberKey \<times> OutboxStatus) list \<times> (reactor_ptr \<times> grpc_call) list \<times> service) \<Rightarrow>
   (data_message \<Rightarrow> bytes option) \<Rightarrow> string \<Rightarrow> string \<Rightarrow> bytes \<Rightarrow> int \<Rightarrow> registry \<Rightarrow> sender \<Rightarrow>
   ReliableSendResult \<times> (string, OutboxStatus) omap \<times> (reactor_ptr \<times> grpc_call) list \<times> sender"
where
  "publish_with fan serialize topicName messageType payload now reg sd =
     (case sd_service sd of
        None \<Rightarrow> (NotServing, [], [], sd)
      | Some sv \<Rightarrow>
          let rate = cf_reliableSendRateLimit (reg_config reg);
              paced = (if rate \<noteq> 0 then pace rate now (sd_tokens sd, sd_lastRefill sd)
                       else (True, sd_tokens sd, sd_lastRefill sd));
              sd1 = sd\<lparr>sd_tokens := fst (snd paced), sd_lastRefill := snd (snd paced)\<rparr>;
              key = makeCompositeKey topicName messageType
          in if \<not> fst paced then (Send_Backpressured, [], [], sd1)
             else if (case find_topic reg key of None \<Rightarrow> True | Some e \<Rightarrow> te_subscribers e = [])
             then (NoSubscribers, [], [], sd1)
             else
               let subscribers = map snd (te_subscribers (entry_at reg key));
                   sd2 = sd1\<lparr>sd_seq := om_emplace key 0 (sd_seq sd1)\<rparr>;
                   nextSeq = the (map_of (sd_seq sd2) key) + 1
               in case serialize (stamped topicName messageType payload nextSeq reg) of
                    None \<Rightarrow> (NotServing, [], [], sd2)
                  | Some serialized \<Rightarrow>
                      if length serialized > recvBufferSize then (NotServing, [], [], sd2)
                      else case fan (empty_pd\<lparr>pd_reliable_data := serialized\<rparr>) (map sub_key subscribers) sv of
                        (sts, calls, sv') \<Rightarrow>
                          let deliverability = fold (\<lambda>(sk, st). om_put (key_string sk) st) sts [];
                              sd3 = sd2\<lparr>sd_service := Some sv'\<rparr>
                          in (send_result sts, deliverability, calls,
                              if send_result sts = Sent then sd3\<lparr>sd_seq := om_put key nextSeq (sd_seq sd3)\<rparr>
                              else sd3))"

definition tryPublishReliable ::
  "(data_message \<Rightarrow> bytes option) \<Rightarrow> string \<Rightarrow> string \<Rightarrow> bytes \<Rightarrow> int \<Rightarrow> registry \<Rightarrow> sender \<Rightarrow>
   ReliableSendResult \<times> (string, OutboxStatus) omap \<times> (reactor_ptr \<times> grpc_call) list \<times> sender"
where
  "tryPublishReliable = publish_with fan_out"

definition publishReliable ::
  "(data_message \<Rightarrow> bytes option) \<Rightarrow> string \<Rightarrow> string \<Rightarrow> bytes \<Rightarrow> int \<Rightarrow> registry \<Rightarrow> sender \<Rightarrow>
   bool \<times> (reactor_ptr \<times> grpc_call) list \<times> sender"
where
  "publishReliable serialize topicName messageType payload now reg sd =
     (case tryPublishReliable serialize topicName messageType payload now reg sd of
        (res, _, calls, sd') \<Rightarrow> (res = Sent, calls, sd'))"

definition publishData ::
  "(message \<Rightarrow> bytes option) \<Rightarrow> string \<Rightarrow> string \<Rightarrow> bytes \<Rightarrow> registry \<Rightarrow> bool \<times> bytes list"
where
  "publishData serialize topicName messageType payload reg =
     sendPacket (serialize (Content_data_message
       (stamped topicName messageType payload (p_tid (reg_self reg)) reg)))"

text \<open>
  \<open>sendMessage\<close> for a message of type \<open>messageType\<close> whose own serialization is
  \<open>payload\<close>: the result, the multicast datagrams, the gRPC calls and the sender.
\<close>

definition sendMessage ::
  "(message \<Rightarrow> bytes option) \<Rightarrow> (data_message \<Rightarrow> bytes option) \<Rightarrow> string \<Rightarrow> string \<Rightarrow> bytes option \<Rightarrow> int \<Rightarrow>
   registry \<Rightarrow> sender \<Rightarrow> bool \<times> bytes list \<times> (reactor_ptr \<times> grpc_call) list \<times> sender"
where
  "sendMessage ser_message ser_data topicName messageType payload now reg sd =
     (case payload of
        None \<Rightarrow> (False, [], [], sd)
      | Some payload \<Rightarrow>
          let reliable = (case find_topic reg (makeCompositeKey topicName messageType) of
                None \<Rightarrow> False | Some e \<Rightarrow> te_reliable e)
          in if reliable
             then (case publishReliable ser_data topicName messageType payload now reg sd of
                     (ok, calls, sd') \<Rightarrow> (ok, [], calls, sd'))
             else (case publishData ser_message topicName messageType payload reg of
                     (ok, datagrams) \<Rightarrow> (ok, datagrams, [], sd)))"

text \<open>The probes for callers.\<close>

definition node_isSendable :: "SubscriberKey \<Rightarrow> sender \<Rightarrow> bool" where
  "node_isSendable key sd = (case sd_service sd of None \<Rightarrow> False | Some sv \<Rightarrow> service_isSendable key sv)"

definition subscriberConnected :: "SubscriberKey \<Rightarrow> sender \<Rightarrow> bool" where
  "subscriberConnected key sd = (case sd_service sd of None \<Rightarrow> False | Some sv \<Rightarrow> hasSubscriber key sv)"

definition subscriberOutboxDepth :: "SubscriberKey \<Rightarrow> sender \<Rightarrow> nat" where
  "subscriberOutboxDepth key sd = (case sd_service sd of None \<Rightarrow> 0 | Some sv \<Rightarrow> service_outboxDepth key sv)"

definition reliablePublisherSeq :: "string \<Rightarrow> sender \<Rightarrow> u64" where
  "reliablePublisherSeq key sd = (case map_of (sd_seq sd) key of None \<Rightarrow> 0 | Some n \<Rightarrow> n)"

section \<open>Keys of the subscribers\<close>

lemma not_digit_colon [simp]: "\<not> is_digit (CHR '':'')"
  by (simp add: is_digit_def)

lemma key_string_inj: "key_string a = key_string b \<longleftrightarrow> a = b"
proof
  assume "key_string a = key_string b"
  then have 1: "to_string (unat (sk_pid a)) @ CHR '':'' # to_string (unat (sk_tid a)) @ '':'' @ to_string (unat (sk_uid a))
    = to_string (unat (sk_pid b)) @ CHR '':'' # to_string (unat (sk_tid b)) @ '':'' @ to_string (unat (sk_uid b))"
    by (simp add: key_string_def)
  note split1 = split_at_first_sep [OF _ _ 1]
  have "sk_pid a = sk_pid b" using split1 by (simp add: not_digit_notin_to_string word_unat_eq_iff)
  moreover have 2: "to_string (unat (sk_tid a)) @ CHR '':'' # to_string (unat (sk_uid a)) =
    to_string (unat (sk_tid b)) @ CHR '':'' # to_string (unat (sk_uid b))"
    using split1 by (simp add: not_digit_notin_to_string)
  have "sk_tid a = sk_tid b" "sk_uid a = sk_uid b"
    using split_at_first_sep [OF _ _ 2] by (simp_all add: not_digit_notin_to_string word_unat_eq_iff)
  ultimately show "a = b" by (simp add: SubscriberKey.expand)
qed simp

lemma sub_keys_distinct:
  assumes "peers_ok self ps"
  shows "distinct (map sub_key (map snd ps))"
proof -
  have key: "sub_key p = sub_key q \<Longrightarrow> p_key p = p_key q" if "small_pid (p_pid p)" "small_pid (p_pid q)" for p q
    using that by (auto simp: sub_key_def p_key_def small_pid_def)
  have "distinct (map fst ps)" "\<forall>(i, p) \<in> set ps. i = p_key p \<and> small_pid (p_pid p)"
    using assms by (auto simp: peers_ok_def om_ok_distinct)
  then show ?thesis
  proof (induction ps)
    case (Cons ip ps)
    obtain i p where ip: "ip = (i, p)" by fastforce
    have "sub_key p \<noteq> sub_key q" if "(j, q) \<in> set ps" for j q
    proof
      assume "sub_key p = sub_key q"
      with key [of p q] Cons.prems(2) that have "j = i" by (force simp: ip)
      with Cons.prems(1) that show False by (force simp: ip)
    qed
    with Cons show ?case by (force simp: ip)
  qed simp
qed

section \<open>What one call does\<close>

definition pending_of :: "sender \<Rightarrow> SubscriberKey \<Rightarrow> participant_data list" where
  "pending_of sd sk = (case sd_service sd of None \<Rightarrow> [] | Some sv \<Rightarrow> service_pending sv sk)"

definition sender_inv :: "sender \<Rightarrow> bool" where
  "sender_inv sd \<longleftrightarrow> (case sd_service sd of None \<Rightarrow> True | Some sv \<Rightarrow> service_inv sv)"

lemma fan_out_offer:
  "fst (fan_out f ks sv) = fst (outbox_push.offer ks f sv) \<and>
   snd (snd (fan_out f ks sv)) = snd (outbox_push.offer ks f sv)"
proof (induction ks arbitrary: sv)
  case (Cons k ks)
  obtain st calls sv' where p: "pushData k f sv = (st, calls, sv')" using prod_cases3 by blast
  then have "service_push k f sv = (st, sv')" by (simp add: service_push_def)
  with p Cons.IH [of sv'] show ?case by (auto split: prod.splits)
qed simp

lemma fan_out_spec:
  assumes "fan_out f ks sv = (sts, calls, sv')" "service_inv sv" "distinct ks"
  shows "sts = map (\<lambda>k. (k, fst (service_push k f sv))) ks" "service_inv sv'"
    "service_pending sv' k = service_pending sv k @ (if (k, Accepted) \<in> set sts then [f] else [])"
proof -
  have o: "sts = fst (outbox_push.offer ks f sv)" "sv' = snd (outbox_push.offer ks f sv)"
    using fan_out_offer [of f ks sv] assms(1) by simp_all
  show sts: "sts = map (\<lambda>k. (k, fst (service_push k f sv))) ks"
    using outbox_push.offer_spec [OF assms(2,3)] o by simp
  show "service_inv sv'" using outbox_push.offer_inv [OF assms(2)] o by simp
  show "service_pending sv' k = service_pending sv k @ (if (k, Accepted) \<in> set sts then [f] else [])"
    using outbox_push.offer_spec [OF assms(2,3), of f] outbox_push.offer_other [OF assms(2), of k ks f]
    by (cases "k \<in> set ks") (auto simp: o(2) sts)
qed

text \<open>The deliverability map lists the statuses under the printed keys.\<close>

lemma deliverability_map:
  "distinct (map fst sts) \<Longrightarrow>
   map_of (fold (\<lambda>(sk, st). om_put (key_string sk) st) sts m) (key_string sk) =
     (case map_of sts sk of None \<Rightarrow> map_of m (key_string sk) | Some st \<Rightarrow> Some st)"
proof (induction sts arbitrary: m)
  case (Cons kst sts)
  then show ?case
    by (cases kst) (force simp: key_string_inj split: option.splits dest: map_of_SomeD)
qed simp

lemma publish_with_cases:
  assumes "publish_with fan ser tn mt payload now reg sd = (res, deliv, calls, sd')"
  obtains (refused) "res \<noteq> Sent" "deliv = []" "sd_service sd' = sd_service sd"
      "\<forall>k. reliablePublisherSeq k sd' = reliablePublisherSeq k sd"
  | (offered) sv sv' sts s e where "sd_service sd = Some sv" "sd_service sd' = Some sv'"
      "find_topic reg (makeCompositeKey tn mt) = Some e"
      "ser (stamped tn mt payload (reliablePublisherSeq (makeCompositeKey tn mt) sd + 1) reg) = Some s"
      "length s \<le> recvBufferSize"
      "fan (empty_pd\<lparr>pd_reliable_data := s\<rparr>) (map sub_key (map snd (te_subscribers e))) sv = (sts, calls, sv')"
      "deliv = fold (\<lambda>(sk, st). om_put (key_string sk) st) sts []"
      "res = send_result sts"
      "\<forall>k. reliablePublisherSeq k sd' =
         (if res = Sent \<and> k = makeCompositeKey tn mt then reliablePublisherSeq k sd + 1 else reliablePublisherSeq k sd)"
proof (cases "sd_service sd")
  case None
  then show ?thesis using assms refused by (simp add: publish_with_def)
next
  case (Some sv)
  define paced where "paced = (if cf_reliableSendRateLimit (reg_config reg) \<noteq> 0
    then pace (cf_reliableSendRateLimit (reg_config reg)) now (sd_tokens sd, sd_lastRefill sd)
    else (True, sd_tokens sd, sd_lastRefill sd))"
  note run = assms [unfolded publish_with_def Some Let_def, simplified, folded paced_def]
  let ?key = "makeCompositeKey tn mt"
  show ?thesis
  proof (cases "fst paced \<and> (\<exists>e. find_topic reg ?key = Some e \<and> te_subscribers e \<noteq> [])")
    case False
    then show ?thesis
      by (intro refused) (use run in \<open>auto simp: reliablePublisherSeq_def split: if_splits option.splits\<close>)
  next
    case True
    then obtain e where e: "fst paced" "find_topic reg ?key = Some e" "te_subscribers e \<noteq> []" by blast
    let ?n = "reliablePublisherSeq ?key sd + 1"
    have n: "the (map_of (om_emplace ?key 0 (sd_seq sd)) ?key) + 1 = ?n"
      by (simp add: reliablePublisherSeq_def split: option.split)
    note run = run [simplified e option.case Let_def n not_True_eq_False if_False if_True entry_at_def]
    show ?thesis
    proof (cases "\<exists>s. ser (stamped tn mt payload ?n reg) = Some s \<and> length s \<le> recvBufferSize")
      case False
      then show ?thesis
        by (intro refused) (use run in \<open>auto simp: reliablePublisherSeq_def not_le split: if_splits option.splits\<close>)
    next
      case True
      then obtain s where s: "ser (stamped tn mt payload ?n reg) = Some s" "length s \<le> recvBufferSize" by blast
      obtain sts calls' sv' where f: "fan (empty_pd\<lparr>pd_reliable_data := s\<rparr>)
          (map sub_key (map snd (te_subscribers e))) sv = (sts, calls', sv')" using prod_cases3 by blast
      have "res = send_result sts" "deliv = fold (\<lambda>(sk, st). om_put (key_string sk) st) sts []" "calls' = calls"
        and sd': "sd' = (let sd3 = sd\<lparr>sd_tokens := fst (snd paced), sd_lastRefill := snd (snd paced),
            sd_seq := om_emplace ?key 0 (sd_seq sd), sd_service := Some sv'\<rparr>
          in if send_result sts = Sent then sd3\<lparr>sd_seq := om_put ?key ?n (sd_seq sd3)\<rparr> else sd3)"
        using run s f by (auto simp add: not_less Let_def n simp del: map_of_om_emplace)
      moreover have "sd_service sd' = Some sv'"
        unfolding sd' by (simp add: Let_def)
      moreover have "\<forall>k. reliablePublisherSeq k sd' = (if send_result sts = Sent \<and> k = ?key
          then reliablePublisherSeq k sd + 1 else reliablePublisherSeq k sd)"
        unfolding sd' by (auto simp: Let_def reliablePublisherSeq_def split: option.splits)
      ultimately show ?thesis
        using offered [of sv sv' e s sts] Some e(2) s f by simp
    qed
  qed
qed

lemma tryPublish_cases:
  assumes "tryPublishReliable ser tn mt payload now reg sd = (res, deliv, calls, sd')"
  obtains (refused) "res \<noteq> Sent" "deliv = []" "sd_service sd' = sd_service sd"
      "\<forall>k. reliablePublisherSeq k sd' = reliablePublisherSeq k sd"
  | (offered) sv sv' sts s e where "sd_service sd = Some sv" "sd_service sd' = Some sv'"
      "find_topic reg (makeCompositeKey tn mt) = Some e"
      "ser (stamped tn mt payload (reliablePublisherSeq (makeCompositeKey tn mt) sd + 1) reg) = Some s"
      "length s \<le> recvBufferSize"
      "fan_out (empty_pd\<lparr>pd_reliable_data := s\<rparr>) (map sub_key (map snd (te_subscribers e))) sv = (sts, calls, sv')"
      "deliv = fold (\<lambda>(sk, st). om_put (key_string sk) st) sts []"
      "res = send_result sts"
      "\<forall>k. reliablePublisherSeq k sd' =
         (if res = Sent \<and> k = makeCompositeKey tn mt then reliablePublisherSeq k sd + 1 else reliablePublisherSeq k sd)"
  using assms unfolding tryPublishReliable_def by (rule publish_with_cases)

lemma subscribers_distinct:
  "registry_inv reg \<Longrightarrow> find_topic reg k = Some e \<Longrightarrow> distinct (map sub_key (map snd (te_subscribers e)))"
  using inv_find(2) [of reg k e] sub_keys_distinct by (auto simp: entry_ok_def)

lemma publish_effect:
  assumes "registry_inv reg" "sender_inv sd"
    and "tryPublishReliable ser tn mt payload now reg sd = (res, deliv, calls, sd')"
  shows "let key = makeCompositeKey tn mt; n = reliablePublisherSeq key sd + 1 in
    sender_inv sd' \<and>
    (\<forall>k. reliablePublisherSeq k sd' = (if res = Sent \<and> k = key then n else reliablePublisherSeq k sd)) \<and>
    (res = Sent \<longleftrightarrow> (\<exists>sk. map_of deliv (key_string sk) = Some Accepted)) \<and>
    (\<forall>sk. if map_of deliv (key_string sk) = Some Accepted
          then \<exists>s. ser (stamped tn mt payload n reg) = Some s \<and> length s \<le> recvBufferSize \<and>
                 pending_of sd' sk = pending_of sd sk @ [empty_pd\<lparr>pd_reliable_data := s\<rparr>]
          else pending_of sd' sk = pending_of sd sk)"
  using assms(3)
proof (cases rule: tryPublish_cases)
  case refused
  then show ?thesis using assms(2) by (simp add: Let_def sender_inv_def pending_of_def)
next
  case (offered sv sv' sts s e)
  have inv: "service_inv sv" using assms(2) offered(1) by (simp add: sender_inv_def)
  note spec = fan_out_spec [OF offered(6) inv subscribers_distinct [OF assms(1) offered(3)]]
  have fst: "map fst sts = map sub_key (map snd (te_subscribers e))"
    by (simp add: spec(1))
  then have dist: "distinct (map fst sts)"
    using subscribers_distinct [OF assms(1) offered(3)] by (simp only:)
  have acc: "map_of deliv (key_string sk) = Some Accepted \<longleftrightarrow> (sk, Accepted) \<in> set sts" for sk
    using deliverability_map [OF dist, of "[]" sk] map_of_eq_Some_iff [OF dist, of sk Accepted]
    by (auto simp: offered(7) split: option.splits)
  have "res = Sent \<longleftrightarrow> (\<exists>sk. (sk, Accepted) \<in> set sts)"
    by (auto simp: offered(8) send_result_def Let_def)
  moreover have "pending_of sd' sk = pending_of sd sk @
      (if (sk, Accepted) \<in> set sts then [empty_pd\<lparr>pd_reliable_data := s\<rparr>] else [])" for sk
    using spec(3) [of sk] offered(1,2) by (simp add: pending_of_def)
  moreover have "sender_inv sd'" using spec(2) offered(2) by (simp add: sender_inv_def)
  ultimately show ?thesis using offered(4,5,9) by (simp add: Let_def acc)
qed

text \<open>
  C8. Commit after acceptance: a reliable send returns Sent exactly when some subscriber
  accepted the frame, and only then the topic's sequence number advances, by one, and no
  other topic's ever does. The frame, stamped with that number, is queued behind everything
  pending for each subscriber reported Accepted, and every other subscriber's queue is
  unchanged; refused, paced, oversized and unserved sends leave no trace.
\<close>

theorem publish_commits_on_acceptance:
  assumes "registry_inv reg" "sender_inv sd"
    and "tryPublishReliable ser tn mt payload now reg sd = (res, deliv, calls, sd')"
  shows "let key = makeCompositeKey tn mt; n = reliablePublisherSeq key sd + 1 in
    sender_inv sd' \<and>
    (\<forall>k. reliablePublisherSeq k sd' = (if res = Sent \<and> k = key then n else reliablePublisherSeq k sd)) \<and>
    (res = Sent \<longleftrightarrow> (\<exists>sk. map_of deliv (key_string sk) = Some Accepted)) \<and>
    (\<forall>sk. if map_of deliv (key_string sk) = Some Accepted
          then \<exists>s. ser (stamped tn mt payload n reg) = Some s \<and> length s \<le> recvBufferSize \<and>
                 pending_of sd' sk = pending_of sd sk @ [empty_pd\<lparr>pd_reliable_data := s\<rparr>]
          else pending_of sd' sk = pending_of sd sk)"
  by (rule publish_effect [OF assms])

section \<open>A demonstration node\<close>

text \<open>Two registered subscriber streams, the second one possibly latched.\<close>

definition demo_reactor :: "SubscriberKey \<Rightarrow> bool \<Rightarrow> reactor" where
  "demo_reactor key latched =
     \<lparr>r_initialised = True, r_finished = False, r_cancelled = False, r_key = key,
      r_writeBuffer = empty_pd, r_outbox = [], r_writing = True, r_finishPending = False,
      r_outboxMaxFrames = 4, r_hwmFrames = 3, r_lwmFrames = 1, r_backpressured = latched\<rparr>"

definition demo_service :: "bool \<Rightarrow> service" where
  "demo_service latched =
     \<lparr>sv_subscribers = [(SubscriberKey 1 0 11, 0), (SubscriberKey 2 0 22, 1)],
      sv_reactors = (\<lambda>p. if p = 0 then demo_reactor (SubscriberKey 1 0 11) False
        else if p = 1 then demo_reactor (SubscriberKey 2 0 22) latched
        else (demo_reactor (SubscriberKey 0 0 0) False)\<lparr>r_initialised := False\<rparr>)\<rparr>"

lemma demo_service_inv: "service_inv (demo_service b)"
  by (auto simp: service_inv_def demo_service_def demo_reactor_def split: if_splits)

definition demo_sender :: "bool \<Rightarrow> sender" where
  "demo_sender latched = new_sender\<lparr>sd_service := Some (demo_service latched)\<rparr>"

definition demo_registry :: registry where
  "demo_registry = handleTopicAnnouncement 2 0 22 ''t'' ''M'' False 0
     (handleTopicAnnouncement 1 0 11 ''t'' ''M'' False 0 (fresh_registry 1))"

lemma demo_registry_inv: "registry_inv demo_registry"
  by (simp add: demo_registry_def inv_announce fresh_registry_inv small_pid_def)

definition tid_codec :: "data_message \<Rightarrow> bytes option" where
  "tid_codec d = Some (ucast (id_tid (dm_identifier d)) # dm_payload d)"

lemma demo_sender_inv: "sender_inv (demo_sender b)"
  by (simp add: sender_inv_def demo_sender_def demo_service_inv)

theorem publish_commits_on_acceptance_witness:
  "reliablePublisherSeq (makeCompositeKey ''t'' ''M'')
     (snd (snd (snd (tryPublishReliable tid_codec ''t'' ''M'' [1] 0 demo_registry (demo_sender True))))) = 1"
proof -
  obtain res d c sd' where r: "tryPublishReliable tid_codec ''t'' ''M'' [1] 0 demo_registry (demo_sender True)
      = (res, d, c, sd')" using prod_cases4 by blast
  have "res = Sent"
  proof -
    have "fst (tryPublishReliable tid_codec ''t'' ''M'' [1] 0 demo_registry (demo_sender True)) = Sent"
      by code_simp
    then show ?thesis by (simp add: r)
  qed
  then have "reliablePublisherSeq (makeCompositeKey ''t'' ''M'') sd' =
      reliablePublisherSeq (makeCompositeKey ''t'' ''M'') (demo_sender True) + 1"
    using publish_commits_on_acceptance [OF demo_registry_inv demo_sender_inv r] by (simp add: Let_def)
  moreover have "reliablePublisherSeq (makeCompositeKey ''t'' ''M'') (demo_sender True) = 0"
    by (simp add: demo_sender_def new_sender_def reliablePublisherSeq_def)
  ultimately show ?thesis by (simp add: r)
qed

section \<open>Sequence numbers over a whole run\<close>

text \<open>
  A publisher node with a log of the (topic key, sequence number) of every Sent call. Between
  calls the registry and the streams change in any way that keeps their invariants, and the
  streams may do so within a call too, between its pushes: \<open>fan\<close> is any such loop.
\<close>

record publisher =
  pb_reg :: registry
  pb_sender :: sender
  pb_log :: "(string \<times> u64) list"

definition fan_keeps ::
  "(participant_data \<Rightarrow> SubscriberKey list \<Rightarrow> service \<Rightarrow>
      (SubscriberKey \<times> OutboxStatus) list \<times> (reactor_ptr \<times> grpc_call) list \<times> service) \<Rightarrow> bool" where
  "fan_keeps fan \<longleftrightarrow> (\<forall>f ks sv. service_inv sv \<longrightarrow> service_inv (snd (snd (fan f ks sv))))"

inductive publisher_step :: "publisher \<Rightarrow> publisher \<Rightarrow> bool" where
  pb_publish: "fan_keeps fan \<Longrightarrow> publish_with fan ser tn mt payload now (pb_reg n) (pb_sender n) = (res, deliv, calls, sd') \<Longrightarrow>
     publisher_step n (n\<lparr>pb_sender := sd',
       pb_log := pb_log n @ (if res = Sent then
         [(makeCompositeKey tn mt, reliablePublisherSeq (makeCompositeKey tn mt) (pb_sender n) + 1)] else [])\<rparr>)"
| pb_registry: "registry_step (pb_reg n) reg' \<Longrightarrow> publisher_step n (n\<lparr>pb_reg := reg'\<rparr>)"
| pb_streams: "sender_inv ((pb_sender n)\<lparr>sd_service := sv\<rparr>) \<Longrightarrow>
     publisher_step n (n\<lparr>pb_sender := (pb_sender n)\<lparr>sd_service := sv\<rparr>\<rparr>)"

definition publisher_start :: "publisher \<Rightarrow> bool" where
  "publisher_start n \<longleftrightarrow> registry_start (pb_reg n) \<and> pb_sender n = new_sender \<and> pb_log n = []"

definition tids_of :: "string \<Rightarrow> (string \<times> u64) list \<Rightarrow> u64 list" where
  "tids_of key lg = map snd (filter (\<lambda>e. fst e = key) lg)"

definition publisher_inv :: "publisher \<Rightarrow> bool" where
  "publisher_inv n \<longleftrightarrow> registry_inv (pb_reg n) \<and> sender_inv (pb_sender n) \<and>
     (\<forall>key. tids_of key (pb_log n) = map (\<lambda>i. of_nat (Suc i)) [0..<length (tids_of key (pb_log n))] \<and>
            reliablePublisherSeq key (pb_sender n) = of_nat (length (tids_of key (pb_log n))))"

lemma tids_of_append [simp]: "tids_of key (lg @ lg') = tids_of key lg @ tids_of key lg'"
  by (simp add: tids_of_def)

lemma tids_of_simps [simp]: "tids_of key [] = []"
  "tids_of key ((k, t) # lg) = (if k = key then t # tids_of key lg else tids_of key lg)"
  by (simp_all add: tids_of_def)

lemma publish_with_counts:
  assumes "fan_keeps fan" "publish_with fan ser tn mt payload now reg sd = (res, deliv, calls, sd')" "sender_inv sd"
  shows "let key = makeCompositeKey tn mt in sender_inv sd' \<and>
    (\<forall>k. reliablePublisherSeq k sd' =
       (if res = Sent \<and> k = key then reliablePublisherSeq key sd + 1 else reliablePublisherSeq k sd))"
  using assms(2)
proof (cases rule: publish_with_cases)
  case refused
  then show ?thesis using assms(3) by (simp add: Let_def sender_inv_def)
next
  case (offered sv sv' sts s e)
  have "service_inv sv'"
    using assms(1,3) offered(1) arg_cong [OF offered(6), of "\<lambda>x. snd (snd x)"] by (auto simp: fan_keeps_def sender_inv_def)
  then show ?thesis using offered(2,9) by (simp add: Let_def sender_inv_def)
qed

lemma publisher_inv_step: "publisher_step n n' \<Longrightarrow> publisher_inv n \<Longrightarrow> publisher_inv n'"
proof (induction rule: publisher_step.induct)
  case (pb_publish fan ser tn mt payload now n res deliv calls sd')
  then have inv: "registry_inv (pb_reg n)" "sender_inv (pb_sender n)" by (simp_all add: publisher_inv_def)
  note spec = publish_with_counts [OF pb_publish.hyps inv(2), unfolded Let_def]
  show ?case
    using pb_publish.prems inv(1) spec by (auto simp: publisher_inv_def)
next
  case (pb_registry n reg')
  then show ?case by (auto simp: publisher_inv_def registry_inv_step)
next
  case (pb_streams n sv)
  then show ?case by (simp add: publisher_inv_def reliablePublisherSeq_def)
qed

lemma publisher_inv_start: "publisher_start n \<Longrightarrow> publisher_inv n"
  by (auto simp: publisher_start_def publisher_inv_def registry_inv_start new_sender_def sender_inv_def
    reliablePublisherSeq_def)

interpretation publisher_runs: invariant_system publisher_start publisher_step publisher_inv
  by unfold_locales (rule publisher_inv_start, assumption, rule publisher_inv_step)

lemma fan_out_keeps: "fan_keeps fan_out"
  using fan_out_offer outbox_push.offer_inv by (simp add: fan_keeps_def)

lemma sent_step:
  assumes "tryPublishReliable ser tn mt payload now reg sd = (Sent, deliv, calls, sd')"
  shows "publisher_step \<lparr>pb_reg = reg, pb_sender = sd, pb_log = lg\<rparr> \<lparr>pb_reg = reg, pb_sender = sd',
    pb_log = lg @ [(makeCompositeKey tn mt, reliablePublisherSeq (makeCompositeKey tn mt) sd + 1)]\<rparr>"
  using pb_publish [OF fan_out_keeps, of ser tn mt payload now "\<lparr>pb_reg = reg, pb_sender = sd, pb_log = lg\<rparr>"] assms
  by (simp add: tryPublishReliable_def)



section \<open>Pacing over several sends\<close>

fun pace_all :: "u32 \<Rightarrow> int list \<Rightarrow> rat \<times> int \<Rightarrow> bool list \<times> rat \<times> int" where
  "pace_all rate [] b = ([], b)"
| "pace_all rate (now # nows) b =
     (case pace rate now b of (ok, b') \<Rightarrow> (case pace_all rate nows b' of (oks, b'') \<Rightarrow> (ok # oks, b'')))"

lemma fp_full: "fp_of_nat (unat (rate :: u32)) = of_nat (unat rate)"
  using unat_u32_bound [of rate] by (intro fp_of_nat_exact) simp

lemma pace_same_instant:
  assumes "now \<noteq> 0" "k \<le> unat rate"
  shows "pace rate now (of_nat k, now) = (if k = 0 then (False, 0, now) else (True, of_nat (k - 1), now))"
proof -
  have "k < 2 ^ 53" using assms(2) unat_u32_bound [of rate] by simp
  then have "rnd64 (of_nat (k - 1)) = of_nat (k - 1)" using fp_of_nat_exact [of "k - 1"] by (simp add: fp_of_nat_def)
  then show ?thesis
    using assms by (auto simp: pace_def Let_def duration_count_def fp_div_def fp_mult_def fp_minus_def of_nat_diff)
qed

lemma pace_all_same_instant:
  "now \<noteq> 0 \<Longrightarrow> k \<le> unat rate \<Longrightarrow>
   fst (pace_all rate (replicate n now) (of_nat k, now)) = replicate (min n k) True @ replicate (n - k) False"
proof (induction n arbitrary: k)
  case (Suc n)
  show ?case
  proof (cases k)
    case 0
    then show ?thesis using Suc.IH [of 0] Suc.prems pace_same_instant [OF Suc.prems]
      by (auto split: prod.splits)
  next
    case (Suc k')
    then show ?thesis using Suc.IH [of k'] Suc.prems pace_same_instant [OF Suc.prems]
      by (auto split: prod.splits)
  qed
qed simp



section \<open>Routing of a send\<close>

lemma reliable_after_register:
  assumes "registry_inv reg" "find_topic reg (makeCompositeKey tn mt) = None"
  shows "find_topic (snd (registerPublisherTopic sp tn mt True reg)) (makeCompositeKey tn mt) =
      Some (empty_entry\<lparr>te_topicName := tn, te_messageType := mt, te_reliable := True\<rparr>)"
    and "find_topic (fst (removeTimedOutParticipants t (snd (registerPublisherTopic sp tn mt True reg)) st))
      (makeCompositeKey tn mt) = None"
proof -
  let ?r = "register_entry tn mt True reg"
  show f: "find_topic (snd (registerPublisherTopic sp tn mt True reg)) (makeCompositeKey tn mt) =
      Some (empty_entry\<lparr>te_topicName := tn, te_messageType := mt, te_reliable := True\<rparr>)"
    using assms by (simp add: register_entry_find registry_inv_def entry_at_def registerPublisherTopic_def)
  show "find_topic (fst (removeTimedOutParticipants t (snd (registerPublisherTopic sp tn mt True reg)) st))
      (makeCompositeKey tn mt) = None"
    using inv_register_entry [OF assms(1), of tn mt True] f
    by (simp add: registerPublisherTopic_def cleanup_eq find_topic_cleaned purge_entry_def deserted_def
      empty_entry_def Let_def)
qed

text \<open>
  A reliable topic silently degrades: sends on a topic that was registered as reliable go
  over the gRPC path, but after one timeout cleanup that runs before any peer has announced
  itself, the same call goes out as a best-effort multicast datagram, and the reliable path
  (its sequence numbers and streams) is not touched any more.
\<close>

theorem reliable_topic_degrades:
  assumes "registry_inv reg" "find_topic reg (makeCompositeKey tn mt) = None"
  shows "let before = snd (registerPublisherTopic sp tn mt True reg);
      after = fst (removeTimedOutParticipants t before st)
    in sendMessage ser_m ser_d tn mt (Some payload) now before sd =
         (case publishReliable ser_d tn mt payload now before sd of (ok, calls, sd') \<Rightarrow> (ok, [], calls, sd')) \<and>
       sendMessage ser_m ser_d tn mt (Some payload) now after sd =
         (case publishData ser_m tn mt payload after of (ok, datagrams) \<Rightarrow> (ok, datagrams, [], sd))"
  using reliable_after_register [OF assms] by (simp add: sendMessage_def Let_def case_prod_beta)

theorem reliable_topic_degrades_witness:
  "let after = fst (removeTimedOutParticipants 0
      (snd (registerPublisherTopic (\<lambda>_. True) ''t'' ''M'' True (fresh_registry 4))) no_windows)
   in sendMessage (\<lambda>_. Some [5]) tid_codec ''t'' ''M'' (Some [1]) 0 after (demo_sender False) =
        (True, [big_endian MAGIC_NUMBER_VALUE @ [5]], [], demo_sender False)"
  using reliable_topic_degrades [OF fresh_registry_inv [of 4], of "''t''" "''M''" "\<lambda>_. True" 0 no_windows
      "\<lambda>_. Some [5]" tid_codec "[1]" 0 "demo_sender False"]
  by (simp add: Let_def publishData_def sendPacket_def prependMagicNumberToPacket_def recvBufferSize_def)

end
