(* ===== verification/Edriel_Pipeline.thy ===== *)
theory Edriel_Pipeline
  imports Edriel_Ring Edriel_Send
begin

text \<open>
  The receive pipeline of \<open>Edriel.cpp\<close>: the receiver thread drains the socket, checks the
  magic number, routes each datagram to the ring of a shard and copies it there; one worker
  per shard pops the frames, decodes them and dispatches them to the registry. The theory
  shows that the fast route and the full decode choose the same shard, follows a best-effort
  message from \<open>publishData\<close> to the callbacks, accounts for overflow, and shows what a
  worker does at shutdown.
\<close>

section \<open>State\<close>

text \<open>
  The rings of the shards beside the registry, and \<open>kernelOverrunDropped_\<close>. \<open>parse\<close> is
  \<open>Message::ParseFromArray\<close>.
\<close>

record pipeline =
  pl_registry :: registry
  pl_rings :: "bytes spsc_ring list"
  pl_kernelDropped :: u64

definition publish_at :: "nat \<Rightarrow> bytes \<Rightarrow> pipeline \<Rightarrow> pipeline" where
  "publish_at i frame pl =
     pl\<lparr>pl_rings := (pl_rings pl)[i := snd (ring_publish (Some frame) (pl_rings pl ! i))]\<rparr>"

section \<open>The receiver thread\<close>

definition bytes_at :: "memory \<Rightarrow> u64 \<Rightarrow> nat \<Rightarrow> bytes" where
  "bytes_at mem a n = map (\<lambda>i. mem (a + of_nat i)) [0..<n]"

text \<open>The shard a fully decoded message is routed to, if it is routed at all.\<close>

definition message_target :: "registry \<Rightarrow> message \<Rightarrow> nat option" where
  "message_target reg msg =
     (case msg of
        Content_identifier i \<Rightarrow> Some (uid_shard reg (id_uid i))
      | Content_data_message d \<Rightarrow>
          Some (topic_shard reg (makeCompositeKey (dm_topic_name d) (dm_message_type d)))
      | Content_advertisement ad \<Rightarrow>
          Some (topic_shard reg (makeCompositeKey (tp_topic_name (ad_topic ad)) (tp_message_type (ad_topic ad))))
      | Content_not_set \<Rightarrow> None)"

text \<open>The handler returns, or never does, or leaves the thread by an exception.\<close>

datatype received = Handled pipeline | Receiver_stuck | Receiver_killed

definition publish_routed ::
  "(bytes \<Rightarrow> message option) \<Rightarrow> route option \<Rightarrow> bytes \<Rightarrow> pipeline \<Rightarrow> received"
where
  "publish_routed parse routing frame pl =
     (case routing of
        None \<Rightarrow> Receiver_stuck
      | Some Route_thrown \<Rightarrow> Receiver_killed
      | Some (Route (Some composite)) \<Rightarrow>
          Handled (publish_at (topic_shard (pl_registry pl) composite) frame pl)
      | Some (Route None) \<Rightarrow>
          (case parse frame of
             None \<Rightarrow> Handled pl
           | Some msg \<Rightarrow>
               (case message_target (pl_registry pl) msg of
                  None \<Rightarrow> Handled pl
                | Some target \<Rightarrow> Handled (publish_at target frame pl))))"

definition handleReceivedDatagram ::
  "(bytes \<Rightarrow> message option) \<Rightarrow> memory \<Rightarrow> u64 \<Rightarrow> nat \<Rightarrow> pipeline \<Rightarrow> received"
where
  "handleReceivedDatagram parse mem buf n pl =
     (if n < magicNumberSize then Handled pl
      else if from_big_endian (bytes_at mem buf 4) \<noteq> MAGIC_NUMBER_VALUE then Handled pl
      else
        let body = buf + of_nat magicNumberSize; bodyLen = n - magicNumberSize
        in publish_routed parse (tryReadRoutingKey mem body (of_nat bodyLen)) (bytes_at mem body bodyLen) pl)"

text \<open>
  The completion handler of \<open>armAutoDiscoveryReceive\<close>: the datagram that completed the
  asynchronous receive, then what \<open>recvmsg\<close> still returns, each with the cumulative
  drop counts in its control message, until there is nothing more or a datagram without bytes. The flag says whether the receive is armed again.
\<close>

record datagram =
  dg_mem :: memory
  dg_len :: nat
  dg_ovfl :: "u32 list"

definition note_overruns :: "u32 list \<Rightarrow> pipeline \<Rightarrow> pipeline" where
  "note_overruns drops pl = pl\<lparr>pl_kernelDropped := fold (\<lambda>d cur. max cur (ucast d)) drops (pl_kernelDropped pl)\<rparr>"

fun drain_socket :: "(bytes \<Rightarrow> message option) \<Rightarrow> u64 \<Rightarrow> datagram list \<Rightarrow> pipeline \<Rightarrow> received" where
  "drain_socket parse buf [] pl = Handled pl"
| "drain_socket parse buf (d # ds) pl =
     (if dg_len d = 0 then Handled pl
      else case handleReceivedDatagram parse (dg_mem d) buf (dg_len d) (note_overruns (dg_ovfl d) pl) of
          Handled pl' \<Rightarrow> drain_socket parse buf ds pl'
        | stopped \<Rightarrow> stopped)"

text \<open>The same loop over \<open>recv\<close>, on systems other than Linux: no control messages.\<close>

fun drain_socket_recv :: "(bytes \<Rightarrow> message option) \<Rightarrow> u64 \<Rightarrow> (memory \<times> nat) list \<Rightarrow> pipeline \<Rightarrow> received" where
  "drain_socket_recv parse buf [] pl = Handled pl"
| "drain_socket_recv parse buf ((mem, m) # ds) pl =
     (if m = 0 then Handled pl
      else case handleReceivedDatagram parse mem buf m pl of
          Handled pl' \<Rightarrow> drain_socket_recv parse buf ds pl'
        | stopped \<Rightarrow> stopped)"

lemma drain_socket_recv_eq:
  "drain_socket_recv parse buf ds pl =
     drain_socket parse buf (map (\<lambda>(mem, m). \<lparr>dg_mem = mem, dg_len = m, dg_ovfl = []\<rparr>) ds) pl"
  by (induction parse buf ds pl rule: drain_socket_recv.induct) (auto simp: note_overruns_def split: received.split)

definition on_receive ::
  "(bytes \<Rightarrow> message option) \<Rightarrow> u64 \<Rightarrow> bool \<Rightarrow> bool \<Rightarrow> datagram \<Rightarrow> datagram list \<Rightarrow> pipeline \<Rightarrow> received \<times> bool"
where
  "on_receive parse buf ec isRunning d ds pl =
     (if ec then (Handled pl, False)
      else case handleReceivedDatagram parse (dg_mem d) buf (dg_len d) pl of
          Handled pl' \<Rightarrow>
            (case drain_socket parse buf ds pl' of
               Handled pl'' \<Rightarrow> (Handled pl'', isRunning)
             | stopped \<Rightarrow> (stopped, False))
        | stopped \<Rightarrow> (stopped, False))"

definition droppedFrames :: "pipeline \<Rightarrow> u64" where
  "droppedFrames pl = fold (\<lambda>r total. total + rg_dropped r) (pl_rings pl) (pl_kernelDropped pl)"

section \<open>The workers\<close>

text \<open>One turn of \<open>autoDiscoveryWorkerLoop\<close>: wait, leave the loop, or handle one frame.\<close>

datatype 'm turn = Worker_waits | Worker_leaves | Worker_ran "(nat \<times> 'm) list" pipeline

definition worker_turn ::
  "(string \<Rightarrow> (bytes \<Rightarrow> 'm option) option) \<Rightarrow> (bytes \<Rightarrow> message option) \<Rightarrow> int \<Rightarrow> nat \<Rightarrow> pipeline \<Rightarrow> 'm turn"
where
  "worker_turn types parse now i pl =
     (case ring_pop (pl_rings pl ! i) of
        (pop_result.Blocked, _) \<Rightarrow> Worker_waits
      | (pop_result.Returned None, _) \<Rightarrow> Worker_leaves
      | (pop_result.Returned (Some frame), ring) \<Rightarrow>
          let pl' = pl\<lparr>pl_rings := (pl_rings pl)[i := ring]\<rparr> in
          case parse frame of
            None \<Rightarrow> Worker_ran [] pl'
          | Some msg \<Rightarrow>
              (case handleAutoDiscoveryParse types msg now (pl_registry pl') of
                 (out, reg) \<Rightarrow> Worker_ran out (pl'\<lparr>pl_registry := reg\<rparr>)))"

text \<open>
  The loop, with the clock readings of its turns as fuel: the callbacks it invoked and the
  state when it left, or \<open>None\<close> when it waits or the readings run out.
\<close>

fun worker_loop ::
  "(string \<Rightarrow> (bytes \<Rightarrow> 'm option) option) \<Rightarrow> (bytes \<Rightarrow> message option) \<Rightarrow> int list \<Rightarrow> nat \<Rightarrow>
   pipeline \<Rightarrow> ((nat \<times> 'm) list \<times> pipeline) option"
where
  "worker_loop types parse [] i pl = None"
| "worker_loop types parse (now # nows) i pl =
     (case worker_turn types parse now i pl of
        Worker_waits \<Rightarrow> None
      | Worker_leaves \<Rightarrow> Some ([], pl)
      | Worker_ran out pl' \<Rightarrow>
          (case worker_loop types parse nows i pl' of
             None \<Rightarrow> None | Some (out', pl'') \<Rightarrow> Some (out @ out', pl'')))"

section \<open>Well-formed pipelines\<close>

text \<open>One ring per shard, and every ring represents a queue.\<close>

definition pipeline_inv :: "pipeline \<Rightarrow> bool" where
  "pipeline_inv pl \<longleftrightarrow> has_shards (pl_registry pl) \<and> length (pl_rings pl) = workerCount (pl_registry pl) \<and>
     (\<forall>r \<in> set (pl_rings pl). ring_inv r)"

definition queued :: "nat \<Rightarrow> pipeline \<Rightarrow> bytes list" where
  "queued i pl = ring_list (pl_rings pl ! i)"

lemma target_bound:
  assumes "pipeline_inv pl"
  shows "topic_shard (pl_registry pl) k < length (pl_rings pl)"
    and "uid_shard (pl_registry pl) u < length (pl_rings pl)"
    and "message_target (pl_registry pl) msg = Some t \<Longrightarrow> t < length (pl_rings pl)"
  using assms shard_bound [of "pl_registry pl"]
  by (auto simp: pipeline_inv_def workerCount_def message_target_def split: message.splits)

lemma pipeline_inv_ring: "pipeline_inv pl \<Longrightarrow> i < length (pl_rings pl) \<Longrightarrow> ring_inv (pl_rings pl ! i)"
  by (simp add: pipeline_inv_def)

lemma pipeline_inv_update:
  assumes "pipeline_inv pl" "ring_inv r"
  shows "pipeline_inv (pl\<lparr>pl_rings := (pl_rings pl)[i := r]\<rparr>)"
proof -
  have "set ((pl_rings pl)[i := r]) \<subseteq> insert r (set (pl_rings pl))"
    by (rule set_update_subset_insert)
  then show ?thesis using assms by (auto simp: pipeline_inv_def)
qed

lemma publish_at_inv:
  assumes "pipeline_inv pl" "i < length (pl_rings pl)"
  shows "pipeline_inv (publish_at i f pl)"
  unfolding publish_at_def
  by (intro pipeline_inv_update assms(1) publish_inv pipeline_inv_ring assms)

lemma publish_at_other: "j \<noteq> i \<Longrightarrow> pl_rings (publish_at i f pl) ! j = pl_rings pl ! j"
  by (simp add: publish_at_def)

lemma publish_at_registry [simp]:
  "pl_registry (publish_at i f pl) = pl_registry pl" "pl_kernelDropped (publish_at i f pl) = pl_kernelDropped pl"
  "length (pl_rings (publish_at i f pl)) = length (pl_rings pl)"
  by (simp_all add: publish_at_def)

lemma publish_at_room:
  assumes "pipeline_inv pl" "i < length (pl_rings pl)" "\<not> rg_closed (pl_rings pl ! i)"
    and "length (queued i pl) < ring_cap (pl_rings pl ! i)"
  shows "queued i (publish_at i f pl) = queued i pl @ [f]"
  using publish_open(4) [OF pipeline_inv_ring [OF assms(1,2)] assms(3), of f] assms
  by (simp add: queued_def publish_at_def lmo_publish_def)

section \<open>Routing\<close>

lemma bytes_at_view: "view mem p e (bs @ rest) \<Longrightarrow> bytes_at mem p (length bs) = bs"
  using view_nth [of mem p e "bs @ rest"] by (auto simp: bytes_at_def nth_append intro!: nth_equalityI)

text \<open>
  The protobuf encoding of a data frame: the data message is the first field, and in it the
  topic name and the message type follow an optional identifier.
\<close>

definition data_layout :: "bytes \<Rightarrow> string \<Rightarrow> string \<Rightarrow> bool" where
  "data_layout packet topic mt \<longleftrightarrow>
     (\<exists>pre post junk. packet = field 3 (pre @ field 2 (bytes_of topic) @ field 3 (bytes_of mt) @ post) @ junk \<and>
        (pre = [] \<or> (\<exists>ib. pre = field 1 ib)))"

text \<open>A received datagram with a valid magic number, up to the routing decision.\<close>

lemma received_frame:
  assumes "view mem buf (buf + of_nat n) (big_endian MAGIC_NUMBER_VALUE @ packet)" "n = length packet + 4"
  shows "handleReceivedDatagram parse mem buf n pl =
      publish_routed parse (tryReadRoutingKey mem (buf + 4) (of_nat (length packet))) packet pl"
    and "view mem (buf + 4) (buf + 4 + of_nat (length packet)) packet"
proof -
  have "view mem (buf + of_nat 4) (buf + of_nat n) (drop 4 (big_endian MAGIC_NUMBER_VALUE @ packet))"
    by (rule view_drop [OF assms(1)]) simp
  then show v: "view mem (buf + 4) (buf + 4 + of_nat (length packet)) packet"
    using assms(2) by (simp add: algebra_simps)
  have "bytes_at mem buf (length (big_endian MAGIC_NUMBER_VALUE)) = big_endian MAGIC_NUMBER_VALUE"
    by (rule bytes_at_view [OF assms(1)])
  moreover have "bytes_at mem (buf + 4) (length packet) = packet"
    using bytes_at_view [of mem "buf + 4" _ packet "[]"] v by simp
  ultimately show "handleReceivedDatagram parse mem buf n pl =
      publish_routed parse (tryReadRoutingKey mem (buf + 4) (of_nat (length packet))) packet pl"
    by (simp add: handleReceivedDatagram_def assms(2) magicNumberSize_def from_big_endian_inverse Let_def)
qed

lemma layout_routed:
  assumes "view mem p (p + of_nat (length packet)) packet" "length packet \<le> recvBufferSize"
    and "data_layout packet topic mt" "topic \<noteq> []" "mt \<noteq> []"
  shows "tryReadRoutingKey mem p (of_nat (length packet)) = Some (Route (Some (makeCompositeKey topic mt)))"
proof -
  obtain pre post junk where q: "packet = field 3 (pre @ field 2 (bytes_of topic) @ field 3 (bytes_of mt) @ post) @ junk"
    "pre = [] \<or> (\<exists>ib. pre = field 1 ib)"
    using assms(3) unfolding data_layout_def by blast
  have "unat (of_nat (length packet) :: u64) \<le> recvBufferSize"
    using assms(2) by (simp add: recvBufferSize_def unat_of_nat_u64)
  from routing_key_of_data_frame [OF assms(1) [unfolded q(1)] this [unfolded q(1)] q(2) assms(4,5)]
  show ?thesis by (simp only: q(1) [symmetric])
qed

lemma data_frame_routed:
  assumes "view mem buf (buf + of_nat n) (big_endian MAGIC_NUMBER_VALUE @ packet)" "n = length packet + 4"
    and "n \<le> recvBufferSize" "data_layout packet topic mt" "topic \<noteq> []" "mt \<noteq> []"
  shows "handleReceivedDatagram parse mem buf n pl =
    Handled (publish_at (topic_shard (pl_registry pl) (makeCompositeKey topic mt)) packet pl)"
  unfolding received_frame(1) [OF assms(1,2)] publish_routed_def
  using layout_routed [OF received_frame(2) [OF assms(1,2)] _ assms(4-6)] assms(2,3) by simp



section \<open>One turn and the whole loop of a worker\<close>

lemma pop_turn:
  assumes "ring_inv r"
  shows "ring_list r = [] \<Longrightarrow> rg_closed r \<Longrightarrow> ring_pop r = (pop_result.Returned None, r)"
    and "ring_list r = x # q \<Longrightarrow> \<exists>r'. ring_pop r = (pop_result.Returned (Some x), r') \<and> ring_inv r' \<and>
      ring_list r' = q \<and> rg_closed r' = rg_closed r \<and> rg_dropped r' = rg_dropped r"
proof -
  show "ring_list r = [] \<Longrightarrow> rg_closed r \<Longrightarrow> ring_pop r = (pop_result.Returned None, r)"
    using pop_items [OF assms] by simp
  assume q: "ring_list r = x # q"
  then have "ring_tryPop r = ring_take r" by (simp add: ring_tryPop_def ring_empty_list)
  then show "\<exists>r'. ring_pop r = (pop_result.Returned (Some x), r') \<and> ring_inv r' \<and>
      ring_list r' = q \<and> rg_closed r' = rg_closed r \<and> rg_dropped r' = rg_dropped r"
    using pop_items [OF assms] tryPop_items [OF assms] q by auto
qed

definition decoded :: "(bytes \<Rightarrow> message option) \<Rightarrow> bytes list \<Rightarrow> int list \<Rightarrow> (message \<times> int) list" where
  "decoded parse frames nows =
     List.map_filter (\<lambda>(frm, now). map_option (\<lambda>m. (m, now)) (parse frm)) (zip frames nows)"

lemma decoded_simps [simp]:
  "decoded parse [] nows = []"
  "decoded parse (f # fs) (now # nows) =
     (case parse f of None \<Rightarrow> decoded parse fs nows | Some m \<Rightarrow> (m, now) # decoded parse fs nows)"
  by (simp_all add: decoded_def List.map_filter_def split: option.split)

lemma worker_turn_runs:
  assumes "ring_inv (pl_rings pl ! i)" "i < length (pl_rings pl)" "queued i pl = f # q"
  shows "\<exists>pl'. worker_turn types parse now i pl =
      Worker_ran (fst (handle_all types (decoded parse [f] [now]) (pl_registry pl))) pl' \<and>
    pl_registry pl' = snd (handle_all types (decoded parse [f] [now]) (pl_registry pl)) \<and>
    ring_inv (pl_rings pl' ! i) \<and> i < length (pl_rings pl') \<and> queued i pl' = q \<and>
    rg_closed (pl_rings pl' ! i) = rg_closed (pl_rings pl ! i) \<and>
    (\<forall>j. j \<noteq> i \<longrightarrow> pl_rings pl' ! j = pl_rings pl ! j)"
proof -
  obtain r' where "ring_pop (pl_rings pl ! i) = (pop_result.Returned (Some f), r')" "ring_inv r'"
    "ring_list r' = q" "rg_closed r' = rg_closed (pl_rings pl ! i)"
    using pop_turn(2) [OF assms(1), of f q] assms(3) by (auto simp: queued_def)
  then show ?thesis
    using assms(2) by (cases "parse f") (auto simp: worker_turn_def queued_def Let_def split: prod.split)
qed

lemma handle_all_append:
  "handle_all types (ms @ ms') reg =
     (fst (handle_all types ms reg) @ fst (handle_all types ms' (snd (handle_all types ms reg))),
      snd (handle_all types ms' (snd (handle_all types ms reg))))"
  by (induction ms arbitrary: reg) (auto split: prod.splits)

lemma worker_loop_drains:
  "ring_inv (pl_rings pl ! i) \<Longrightarrow> i < length (pl_rings pl) \<Longrightarrow> rg_closed (pl_rings pl ! i) \<Longrightarrow>
   queued i pl = q \<Longrightarrow> length q < length nows \<Longrightarrow>
   \<exists>pl'. worker_loop types parse nows i pl =
       Some (fst (handle_all types (decoded parse q nows) (pl_registry pl)), pl') \<and>
     pl_registry pl' = snd (handle_all types (decoded parse q nows) (pl_registry pl)) \<and>
     queued i pl' = [] \<and> (\<forall>j. j \<noteq> i \<longrightarrow> pl_rings pl' ! j = pl_rings pl ! j)"
proof (induction q arbitrary: pl nows)
  case Nil
  then obtain now nows' where "nows = now # nows'" by (cases nows) auto
  then show ?case
    using pop_turn(1) [OF Nil.prems(1)] Nil.prems by (simp add: worker_turn_def queued_def)
next
  case (Cons f q)
  then obtain now nows' where nows: "nows = now # nows'" by (cases nows) auto
  obtain pl' where turn: "worker_turn types parse now i pl =
      Worker_ran (fst (handle_all types (decoded parse [f] [now]) (pl_registry pl))) pl'"
    and reg: "pl_registry pl' = snd (handle_all types (decoded parse [f] [now]) (pl_registry pl))"
    and pl': "ring_inv (pl_rings pl' ! i)" "i < length (pl_rings pl')" "queued i pl' = q"
      "rg_closed (pl_rings pl' ! i)" "\<forall>j. j \<noteq> i \<longrightarrow> pl_rings pl' ! j = pl_rings pl ! j"
    using worker_turn_runs [OF Cons.prems(1,2,4), of types parse now] Cons.prems(3) by auto
  have split: "decoded parse (f # q) nows = decoded parse [f] [now] @ decoded parse q nows'"
    by (simp add: nows split: option.split)
  from Cons.IH [OF pl'(1,2,4,3), of nows'] Cons.prems(5) pl'(5) show ?case
    by (auto simp: nows turn reg split [unfolded nows] handle_all_append simp del: decoded_simps)
qed

text \<open>
  Orderly shutdown: once the ring of a worker is closed, its loop ends, within one turn
  more than there are frames waiting; before it leaves it dispatches every waiting frame that
  decodes, in the order received, exactly as if the messages had been handled directly, and
  the rings of the other workers are untouched.
\<close>

theorem worker_drains_at_shutdown:
  assumes "pipeline_inv pl" "i < workerCount (pl_registry pl)" "rg_closed (pl_rings pl ! i)"
    and "length (queued i pl) < length nows"
  shows "\<exists>pl'. worker_loop types parse nows i pl =
       Some (fst (handle_all types (decoded parse (queued i pl) nows) (pl_registry pl)), pl') \<and>
     pl_registry pl' = snd (handle_all types (decoded parse (queued i pl) nows) (pl_registry pl)) \<and>
     queued i pl' = [] \<and> (\<forall>j. j \<noteq> i \<longrightarrow> pl_rings pl' ! j = pl_rings pl ! j)"
proof -
  have "i < length (pl_rings pl)" using assms(1,2) by (simp add: pipeline_inv_def)
  from worker_loop_drains [OF pipeline_inv_ring [OF assms(1) this] this assms(3) refl assms(4)]
  show ?thesis .
qed

definition demo_pipeline :: pipeline where
  "demo_pipeline = \<lparr>pl_registry = fresh_registry 1, pl_rings = [new_ring 4], pl_kernelDropped = 0\<rparr>"

lemma demo_pipeline_inv: "pipeline_inv demo_pipeline"
  by (simp add: pipeline_inv_def demo_pipeline_def new_ring_inv)

theorem worker_drains_at_shutdown_witness:
  "\<exists>pl'. worker_loop (\<lambda>_. Some Some) (\<lambda>_. Some Content_not_set) [5, 6] 0
       (demo_pipeline\<lparr>pl_rings := [ring_close (publish [1] (new_ring 4))]\<rparr>) = Some ([], pl')"
proof -
  let ?r = "publish [1] (new_ring 4) :: bytes spsc_ring"
  let ?pl = "demo_pipeline\<lparr>pl_rings := [ring_close ?r]\<rparr>"
  have new: "ring_inv (new_ring 4)" by (simp add: new_ring_inv)
  have "pipeline_inv ?pl"
    using demo_pipeline_inv publish_inv [OF new] by (simp add: pipeline_inv_def demo_pipeline_def)
  moreover have "queued 0 ?pl = [[1]]"
    using publish_open(4) [OF new, of "[1]"] by (simp add: queued_def lmo_publish_def)
  ultimately show ?thesis
    using worker_drains_at_shutdown [of ?pl 0 "[5, 6]" "\<lambda>_. Some Some" "\<lambda>_. Some Content_not_set"]
    by (auto simp: demo_pipeline_def ring_close_def handleAutoDiscoveryParse_def)
qed

section \<open>From one node to another\<close>

lemma publishData_packet:
  assumes "publishData ser tn mt payload reg = (True, [dgram])"
  shows "\<exists>packet. ser (Content_data_message (stamped tn mt payload (p_tid (reg_self reg)) reg)) = Some packet \<and>
    dgram = big_endian MAGIC_NUMBER_VALUE @ packet \<and> length dgram \<le> recvBufferSize"
  using assms
  by (auto simp: publishData_def sendPacket_def prependMagicNumberToPacket_def Let_def split: option.splits if_splits)

lemma frame_delivered:
  assumes "view mem buf (buf + of_nat n) (big_endian MAGIC_NUMBER_VALUE @ packet)" "n = length packet + 4"
    and "n \<le> recvBufferSize" "data_layout packet tn mt" "tn \<noteq> []" "mt \<noteq> []"
    and parse: "parse packet = Some (Content_data_message d)"
    and pl: "pipeline_inv pl" "i = topic_shard (pl_registry pl) (makeCompositeKey tn mt)"
      "\<not> rg_closed (pl_rings pl ! i)" "queued i pl = []"
  shows "\<exists>pl' pl''. handleReceivedDatagram parse mem buf n pl = Handled pl' \<and>
    worker_turn types parse now i pl' = Worker_ran (handleDataMessageReceive types d (pl_registry pl)) pl'' \<and>
    pl_registry pl'' = pl_registry pl \<and> queued i pl'' = []"
proof -
  let ?pl' = "publish_at i packet pl"
  have h: "handleReceivedDatagram parse mem buf n pl = Handled ?pl'"
    using data_frame_routed [OF assms(1-6)] pl(2) by simp
  have i: "i < length (pl_rings pl)" using target_bound(1) [OF pl(1)] pl(2) by simp
  have "0 < ring_cap (pl_rings pl ! i)"
    using pipeline_inv_ring [OF pl(1) i] by (simp add: ring_inv_def)
  then have q: "queued i ?pl' = [packet]"
    using publish_at_room [OF pl(1) i pl(3)] pl(4) by simp
  have i': "i < length (pl_rings ?pl')" using i by simp
  from worker_turn_runs [OF pipeline_inv_ring [OF publish_at_inv [OF pl(1) i] i'] i' q, of types parse now]
  obtain pl'' where "worker_turn types parse now i ?pl' = Worker_ran (handleDataMessageReceive types d (pl_registry pl)) pl''"
    "pl_registry pl'' = pl_registry pl" "queued i pl'' = []"
    using parse by (auto simp: handleAutoDiscoveryParse_def)
  with h show ?thesis by blast
qed

text \<open>
  C4. A best-effort message reaches the callbacks: the datagram that \<open>publishData\<close> posts,
  when the receive buffer of another node holds it, is queued for the worker that owns the
  topic there, and when that worker has nothing else to do its next turn invokes the topic's
  callbacks with exactly the published payload and leaves the registry as it was.
\<close>

theorem multicast_end_to_end:
  assumes "publishData ser tn mt payload sender_reg = (True, [dgram])"
    and d: "d = stamped tn mt payload (p_tid (reg_self sender_reg)) sender_reg"
    and codec: "\<And>packet. ser (Content_data_message d) = Some packet \<Longrightarrow>
      data_layout packet tn mt \<and> parse packet = Some (Content_data_message d)"
    and "tn \<noteq> []" "mt \<noteq> []"
    and "view mem buf (buf + of_nat (length dgram)) dgram"
    and pl: "pipeline_inv pl" "i = topic_shard (pl_registry pl) (makeCompositeKey tn mt)"
      "\<not> rg_closed (pl_rings pl ! i)" "queued i pl = []"
  shows "\<exists>pl' pl''. handleReceivedDatagram parse mem buf (length dgram) pl = Handled pl' \<and>
    worker_turn types parse now i pl' = Worker_ran (handleDataMessageReceive types d (pl_registry pl)) pl'' \<and>
    pl_registry pl'' = pl_registry pl \<and> queued i pl'' = []"
proof -
  obtain packet where p: "ser (Content_data_message d) = Some packet"
    "dgram = big_endian MAGIC_NUMBER_VALUE @ packet" "length dgram \<le> recvBufferSize"
    using publishData_packet [OF assms(1)] d by auto
  have n: "length dgram = length packet + 4" using p(2) by (simp add: big_endian_def)
  show ?thesis
    using frame_delivered [OF assms(6) [unfolded p(2)] _ _ _ assms(4,5) _ pl, of parse d types now] codec [OF p(1)] n p(2,3)
    by simp
qed

definition demo_packet :: bytes where
  "demo_packet = field 3 ([] @ field 2 (bytes_of ''t'') @ field 3 (bytes_of ''M'') @ [])  @ []"

definition demo_message :: data_message where
  "demo_message = stamped ''t'' ''M'' [1] 0 (fresh_registry 1)"

text \<open>The receiver has registered callback 7.\<close>

definition listening_pipeline :: pipeline where
  "listening_pipeline = demo_pipeline\<lparr>pl_registry :=
     fst (snd (registerSubscriberTopic_callback (\<lambda>_. True) ''t'' ''M'' (Some 7) False (fresh_registry 1) {}))\<rparr>"

lemma listening_facts:
  "workerCount (pl_registry listening_pipeline) = 1" "pl_rings listening_pipeline = [new_ring 4]"
  "handleDataMessageReceive (\<lambda>_. Some Some) demo_message (pl_registry listening_pipeline) = [(7, [1])]"
  by code_simp+

lemma listening_inv: "pipeline_inv listening_pipeline"
  using demo_pipeline_inv listening_facts(1) by (simp add: pipeline_inv_def listening_pipeline_def demo_pipeline_def)
    (auto simp: workerCount_def has_shards_def)

theorem multicast_end_to_end_witness:
  "\<exists>pl' pl''. handleReceivedDatagram (\<lambda>_. Some (Content_data_message demo_message))
       (memory_of (big_endian MAGIC_NUMBER_VALUE @ demo_packet)) 0 12 listening_pipeline = Handled pl' \<and>
     worker_turn (\<lambda>_. Some Some) (\<lambda>_. Some (Content_data_message demo_message)) 0 0 pl' = Worker_ran [(7, [1])] pl''"
proof -
  let ?dgram = "big_endian MAGIC_NUMBER_VALUE @ demo_packet"
  have l: "length demo_packet = 8" by (simp add: demo_packet_def field_def enc_varint.simps)
  have pub: "publishData (\<lambda>_. Some demo_packet) ''t'' ''M'' [1] (fresh_registry 1) = (True, [?dgram])"
    by (simp add: publishData_def sendPacket_def prependMagicNumberToPacket_def recvBufferSize_def l)
  have d: "demo_message = stamped ''t'' ''M'' [1] (p_tid (reg_self (fresh_registry 1))) (fresh_registry 1)"
    by (simp add: demo_message_def) (simp add: fresh_registry_def new_participant_def)
  have layout: "data_layout demo_packet ''t'' ''M''"
    unfolding data_layout_def demo_packet_def by (intro exI [of _ "[]"]) simp
  have v: "view (memory_of ?dgram) 0 (0 + of_nat (length ?dgram)) ?dgram"
    using memory_of_view [of ?dgram] l by simp
  have s: "0 = topic_shard (pl_registry listening_pipeline) (makeCompositeKey ''t'' ''M'')"
    using shardIndex_less [of 1] by (simp add: topic_shard_def listening_facts(1))
  have q: "\<not> rg_closed (pl_rings listening_pipeline ! 0)" "queued 0 listening_pipeline = []"
    by (simp_all add: listening_facts(2) queued_def new_ring_def ring_list_def)
  show ?thesis
    using multicast_end_to_end [OF pub d _ _ _ v listening_inv s q, of
        "\<lambda>_. Some (Content_data_message demo_message)" "\<lambda>_. Some Some" 0] layout l listening_facts(3) by auto
qed

section \<open>Overflow\<close>

lemma fold_plus: "fold (\<lambda>r total. total + f r) rs (s :: u64) = s + sum_list (map f rs)"
  by (induction rs arbitrary: s) (simp_all add: add.assoc)

lemma droppedFrames_sum: "droppedFrames pl = pl_kernelDropped pl + sum_list (map rg_dropped (pl_rings pl))"
  by (simp add: droppedFrames_def fold_plus)

lemma sum_list_replace:
  fixes f :: "'a \<Rightarrow> u64"
  shows "i < length rs \<Longrightarrow> sum_list (map f (rs[i := r])) = sum_list (map f rs) + (f r - f (rs ! i))"
  by (induction rs arbitrary: i) (auto simp: nth_Cons' split: nat.split)

lemma publish_at_dropped:
  "i < length (pl_rings pl) \<Longrightarrow> droppedFrames (publish_at i f pl) =
     droppedFrames pl + (rg_dropped (publish f (pl_rings pl ! i)) - rg_dropped (pl_rings pl ! i))"
  by (simp add: droppedFrames_sum publish_at_def sum_list_replace)

lemma publish_at_closed: "rg_closed (pl_rings pl ! i) \<Longrightarrow> publish_at i f pl = pl"
  by (simp add: publish_at_def)

lemma handled_target:
  assumes "handleReceivedDatagram parse mem buf n pl = Handled pl'" "pipeline_inv pl"
  shows "pl' = pl \<or> (\<exists>i f. i < length (pl_rings pl) \<and> \<not> rg_closed (pl_rings pl ! i) \<and> pl' = publish_at i f pl)"
proof -
  have "pl' = pl \<or> (\<exists>i f. i < length (pl_rings pl) \<and> pl' = publish_at i f pl)"
    if "publish_routed parse routing frm pl = Handled pl'" for routing frm
    using that target_bound [OF assms(2)] unfolding publish_routed_def
    by (cases routing; cases "parse frm") (fastforce split: option.splits route.splits)+
  with assms(1) have "pl' = pl \<or> (\<exists>i f. i < length (pl_rings pl) \<and> pl' = publish_at i f pl)"
    by (auto simp: handleReceivedDatagram_def Let_def split: if_splits)
  then show ?thesis using publish_at_closed by metis
qed

text \<open>
  Overflow is counted: whatever a received datagram contains, the handler (when it
  returns) either leaves the pipeline alone or adds one frame to one ring. With room the
  frame is appended and nothing is lost; without room exactly one waiting frame is lost and
  \<open>droppedFrames\<close> grows by exactly one. All other rings and the registry are untouched, and
  the pipeline stays well formed.
\<close>

theorem overflow_counted:
  assumes "handleReceivedDatagram parse mem buf n pl = Handled pl'" "pipeline_inv pl"
  shows "pipeline_inv pl' \<and> pl_registry pl' = pl_registry pl \<and>
    (pl' = pl \<or>
     (\<exists>i f. i < length (pl_rings pl) \<and> (\<forall>j. j \<noteq> i \<longrightarrow> pl_rings pl' ! j = pl_rings pl ! j) \<and>
        (if length (queued i pl) < ring_cap (pl_rings pl ! i)
         then queued i pl' = queued i pl @ [f] \<and> droppedFrames pl' = droppedFrames pl
         else queued i pl' = f # tl (queued i pl) \<and> droppedFrames pl' = droppedFrames pl + 1)))"
  using handled_target [OF assms]
proof (elim disjE exE conjE)
  fix i f assume i: "i < length (pl_rings pl)" "\<not> rg_closed (pl_rings pl ! i)" and pl': "pl' = publish_at i f pl"
  note r = publish_open [OF pipeline_inv_ring [OF assms(2) i(1)] i(2), of f]
  have "queued i pl' = lmo_publish (ring_cap (pl_rings pl ! i)) f (queued i pl)"
    using r(4) i(1) by (simp add: queued_def pl' publish_at_def)
  moreover have "droppedFrames pl' = droppedFrames pl + (if length (queued i pl) < ring_cap (pl_rings pl ! i) then 0 else 1)"
    using publish_at_dropped [OF i(1), of f] r(5) by (simp add: pl' queued_def)
  ultimately show ?thesis
    using publish_at_inv [OF assms(2) i(1)] publish_at_other [of _ i f pl] i(1)
    by (auto simp: pl' lmo_publish_def)
qed (use assms(2) in simp)

theorem overflow_counted_witness:
  "\<exists>pl'. handleReceivedDatagram (\<lambda>_. None) (memory_of [1, 2, 3]) 0 3 demo_pipeline = Handled pl' \<and> pipeline_inv pl'"
proof -
  have h: "handleReceivedDatagram (\<lambda>_. None) (memory_of [1, 2, 3]) 0 3 demo_pipeline = Handled demo_pipeline"
    by (simp add: handleReceivedDatagram_def magicNumberSize_def)
  from overflow_counted [OF h demo_pipeline_inv] h show ?thesis by blast
qed

section \<open>Malformed datagrams\<close>

text \<open>
  C35. Two datagrams of 17 bytes each end all multicast reception of a node. In one the
  identifier of a data message claims \<open>2 ^ 64 - 11\<close> bytes: the bounds check of
  \<open>lengthDelimited\<close> wraps around, the cursor jumps back to where it was, and the handler
  never returns. In the other a topic name claims \<open>2 ^ 64 - 1\<close> bytes: it passes the same check
  and copying it throws \<open>std::length_error\<close>, which nothing in the library catches.
\<close>

theorem malformed_datagram_stops_receiver:
  assumes "view mem buf (buf + 17) (big_endian MAGIC_NUMBER_VALUE @ payload)"
  shows "(payload = jump_back_frame \<longrightarrow> handleReceivedDatagram parse mem buf 17 pl = Receiver_stuck) \<and>
    (payload = huge_name_frame \<longrightarrow> handleReceivedDatagram parse mem buf 17 pl = Receiver_killed)"
proof -
  have l: "length jump_back_frame = 13" "length huge_name_frame = 13"
    by (simp_all add: jump_back_frame_def huge_name_frame_def)
  have "payload = jump_back_frame \<or> payload = huge_name_frame \<Longrightarrow> handleReceivedDatagram parse mem buf 17 pl =
      publish_routed parse (tryReadRoutingKey mem (buf + 4) (of_nat (length payload))) payload pl"
    "payload = jump_back_frame \<or> payload = huge_name_frame \<Longrightarrow>
      view mem (buf + 4) (buf + 4 + of_nat (length payload)) payload"
    using received_frame [of mem buf 17 payload] assms l by auto
  then show ?thesis
    using routing_walk_hangs [of mem "buf + 4"] routing_walk_throws [of mem "buf + 4"]
    by (auto simp: publish_routed_def)
qed

theorem malformed_datagram_stops_receiver_witness:
  "handleReceivedDatagram (\<lambda>_. None) (memory_of (big_endian MAGIC_NUMBER_VALUE @ jump_back_frame)) 0 17 demo_pipeline
     = Receiver_stuck"
proof -
  have l: "length jump_back_frame = 13" by (simp add: jump_back_frame_def)
  have "view (memory_of (big_endian MAGIC_NUMBER_VALUE @ jump_back_frame)) 0 (0 + 17)
      (big_endian MAGIC_NUMBER_VALUE @ jump_back_frame)"
    using memory_of_view [of "big_endian MAGIC_NUMBER_VALUE @ jump_back_frame"] l by simp
  from malformed_datagram_stops_receiver [OF this] show ?thesis by blast
qed

end
