(* ===== verification/Edriel_Dial.thy ===== *)
theory Edriel_Dial
  imports Edriel_Send Edriel_Window
begin

text \<open>
  The dialing side of the reliable path: \<open>reconcileReliableConnections\<close> and
  \<open>stopReliableSubscriptions\<close> of \<open>Edriel.cpp\<close>, which keep one connection per publisher that
  is needed, and the thread of one \<open>ReliableSubscriberConnection\<close>
  (\<open>EdrielReliableClient.cpp\<close>) with its candidate scan, its streams and its shutdown. gRPC's
  answers are inputs of the thread's steps.
\<close>

section \<open>State\<close>

text \<open>
  A connection object: its identity, its candidates, and what \<open>currentEndpoint\<close> reads. The
  counter numbers the connections started so far.
\<close>

record connection =
  cn_id :: nat
  cn_candidates :: "string list"
  cn_connected :: string

record dialer =
  dl_connections :: "(SubscriberKey, connection) omap"
  dl_started :: nat

section \<open>Reconciling\<close>

text \<open>The dial set: the publishers of the subscribed topics with known endpoints, then the seeds.\<close>

definition publisher_targets :: "registry \<Rightarrow> string \<Rightarrow> (SubscriberKey \<times> string list) list" where
  "publisher_targets reg topicKey =
     (case find_topic reg topicKey of
        None \<Rightarrow> []
      | Some e \<Rightarrow>
          concat (map (\<lambda>(_, pub).
            let eps = (case find_participant reg (p_uid pub) of None \<Rightarrow> [] | Some p \<Rightarrow> p_endpoints p)
            in if eps = [] then [] else [(sub_key pub, endpointCandidates eps)]) (te_publishers e)))"

definition dial_targets :: "registry \<Rightarrow> string set \<Rightarrow> (SubscriberKey \<times> string list) list" where
  "dial_targets reg subscribed =
     concat (map (publisher_targets reg) (sorted_list_of_set subscribed))
     @ (if subscribed \<noteq> {} then map (\<lambda>peer. (peerKeyForEndpoint peer, [peer])) (cf_peerEndpoints (reg_config reg))
        else [])"

definition connectedStale :: "string list \<Rightarrow> connection \<Rightarrow> bool" where
  "connectedStale candidates c \<longleftrightarrow> cn_connected c \<noteq> [] \<and> cn_connected c \<notin> set candidates"

definition start_connection :: "SubscriberKey \<Rightarrow> string list \<Rightarrow> dialer \<Rightarrow> dialer" where
  "start_connection key candidates dl =
     \<lparr>dl_connections = om_put key \<lparr>cn_id = dl_started dl, cn_candidates = candidates, cn_connected = []\<rparr>
        (dl_connections dl),
      dl_started = Suc (dl_started dl)\<rparr>"

fun dial_all :: "(SubscriberKey \<times> string list) list \<Rightarrow> dialer \<Rightarrow> connection list \<times> dialer" where
  "dial_all [] dl = ([], dl)"
| "dial_all ((key, candidates) # ts) dl =
     (case map_of (dl_connections dl) key of
        None \<Rightarrow> dial_all ts (start_connection key candidates dl)
      | Some c \<Rightarrow>
          if \<not> connectedStale candidates c then dial_all ts dl
          else (case dial_all ts (start_connection key candidates
                    (dl\<lparr>dl_connections := om_erase key (dl_connections dl)\<rparr>)) of
                  (retire, dl') \<Rightarrow> (c # retire, dl')))"

text \<open>The result lists the connections to retire, which are stopped outside the lock.\<close>

definition reconcile :: "(SubscriberKey \<times> string list) list \<Rightarrow> dialer \<Rightarrow> connection list \<times> dialer" where
  "reconcile needed dl =
     (let stillNeeded = (\<lambda>key. key \<in> fst ` set needed);
          dropped = map snd (filter (\<lambda>(k, c). \<not> stillNeeded k) (dl_connections dl));
          kept = filter (\<lambda>(k, c). stillNeeded k) (dl_connections dl)
      in case dial_all needed (dl\<lparr>dl_connections := kept\<rparr>) of (retire, dl') \<Rightarrow> (dropped @ retire, dl'))"

definition reconcileReliableConnections :: "registry \<Rightarrow> string set \<Rightarrow> dialer \<Rightarrow> connection list \<times> dialer" where
  "reconcileReliableConnections reg subscribed dl = reconcile (dial_targets reg subscribed) dl"

definition stopReliableSubscriptions :: "dialer \<Rightarrow> connection list \<times> dialer" where
  "stopReliableSubscriptions dl = (map snd (dl_connections dl), dl\<lparr>dl_connections := []\<rparr>)"

section \<open>What reconciling does\<close>

definition dialer_inv :: "dialer \<Rightarrow> bool" where
  "dialer_inv dl \<longleftrightarrow> om_ok (dl_connections dl) \<and> (\<forall>(k, c) \<in> set (dl_connections dl). cn_id c < dl_started dl)"

lemma dialer_inv_start [simp, intro]: "dialer_inv dl \<Longrightarrow> dialer_inv (start_connection k cs dl)"
  by (auto simp: dialer_inv_def start_connection_def less_Suc_eq dest!: set_om_put)

lemma dialer_inv_erase [simp, intro]:
  "dialer_inv dl \<Longrightarrow> dialer_inv (dl\<lparr>dl_connections := om_erase k (dl_connections dl)\<rparr>)"
  by (auto simp: dialer_inv_def om_erase_def)

lemma start_connection_find:
  "map_of (dl_connections (start_connection k cs dl)) =
     (map_of (dl_connections dl))(k \<mapsto> \<lparr>cn_id = dl_started dl, cn_candidates = cs, cn_connected = []\<rparr>)"
  by (simp add: start_connection_def)

text \<open>
  The old connection of a key survives a target list if none of its targets finds it stale;
  once replaced, the fresh connection is not connected yet and stays.
\<close>

definition survives :: "(SubscriberKey \<times> string list) list \<Rightarrow> SubscriberKey \<Rightarrow> connection \<Rightarrow> bool" where
  "survives ts k c \<longleftrightarrow> (\<forall>cs. (k, cs) \<in> set ts \<longrightarrow> \<not> connectedStale cs c)"

lemma survives_Cons: "survives ((k', cs) # ts) k c \<longleftrightarrow> (k' = k \<longrightarrow> \<not> connectedStale cs c) \<and> survives ts k c"
  by (auto simp: survives_def)

lemma fresh_survives [simp]: "cn_connected c = [] \<Longrightarrow> survives ts k c"
  by (simp add: survives_def connectedStale_def)

definition fresh_for :: "(SubscriberKey \<times> string list) list \<Rightarrow> nat \<Rightarrow> SubscriberKey \<Rightarrow> connection option \<Rightarrow> bool" where
  "fresh_for ts n k c \<longleftrightarrow> (\<exists>i cs. (k, cs) \<in> set ts \<and> n \<le> i \<and>
     c = Some \<lparr>cn_id = i, cn_candidates = cs, cn_connected = []\<rparr>)"

lemma fresh_for_Cons: "fresh_for ts (Suc n) k c \<Longrightarrow> fresh_for ((k', cs) # ts) n k c"
  by (auto simp: fresh_for_def dest: Suc_leD)

lemma fresh_for_mono: "fresh_for ts n k c \<Longrightarrow> fresh_for ((k', cs) # ts) n k c"
  by (auto simp: fresh_for_def)

definition dialed :: "(SubscriberKey \<times> string list) list \<Rightarrow> dialer \<Rightarrow> dialer \<Rightarrow> SubscriberKey \<Rightarrow> bool" where
  "dialed ts dl dl' k \<longleftrightarrow>
     (let c' = map_of (dl_connections dl') k in
      case map_of (dl_connections dl) k of
        Some c \<Rightarrow> if survives ts k c then c' = Some c else fresh_for ts (dl_started dl) k c'
      | None \<Rightarrow> if k \<in> fst ` set ts then fresh_for ts (dl_started dl) k c' else c' = None)"

lemma fresh_for_settled: "fresh_for ts n k c \<Longrightarrow> \<exists>c'. c = Some c' \<and> \<not> connectedStale cs c'"
  by (auto simp: fresh_for_def connectedStale_def)

lemma dialed_settled:
  assumes "dialed ts dl dl' k" "(k, cs) \<in> set ts"
  shows "\<exists>c. map_of (dl_connections dl') k = Some c \<and> \<not> connectedStale cs c"
proof (cases "map_of (dl_connections dl) k")
  case None
  moreover have "k \<in> fst ` set ts" using assms(2) by force
  ultimately show ?thesis using assms(1) by (simp add: dialed_def Let_def fresh_for_settled)
next
  case (Some c)
  show ?thesis
  proof (cases "survives ts k c")
    case True
    then show ?thesis using assms Some by (auto simp: dialed_def Let_def survives_def)
  next
    case False
    then show ?thesis using assms Some by (simp add: dialed_def Let_def fresh_for_settled)
  qed
qed

lemma dialed_kept:
  assumes "map_of (dl_connections dl) key = Some c" "\<not> connectedStale cs c" "dialed ts dl dl' k"
  shows "dialed ((key, cs) # ts) dl dl' k"
  using assms by (cases "k = key") (auto simp: dialed_def Let_def survives_Cons fresh_for_mono split: option.splits if_splits)

lemma dialed_fresh:
  assumes "map_of (dl_connections dl) key = None \<or>
      (\<exists>c. map_of (dl_connections dl) key = Some c \<and> connectedStale cs c)"
    and "dl_started dl1 = dl_started dl" "\<And>k. k \<noteq> key \<Longrightarrow> map_of (dl_connections dl1) k = map_of (dl_connections dl) k"
    and "dialed ts (start_connection key cs dl1) dl' k"
  shows "dialed ((key, cs) # ts) dl dl' k"
proof (cases "k = key")
  case True
  then have "map_of (dl_connections dl') k = Some \<lparr>cn_id = dl_started dl, cn_candidates = cs, cn_connected = []\<rparr>"
    using assms(2,4) by (simp add: dialed_def start_connection_find Let_def)
  then have "fresh_for ((key, cs) # ts) (dl_started dl) k (map_of (dl_connections dl') k)"
    using True by (auto simp: fresh_for_def)
  then show ?thesis
    using assms(1) True by (auto simp: dialed_def survives_Cons Let_def)
next
  case False
  then show ?thesis
    using assms(2,4) assms(3) [OF False]
    by (auto simp: dialed_def start_connection_find start_connection_def survives_Cons fresh_for_Cons Let_def
      split: option.splits if_splits)
qed

lemma dial_all_spec:
  "dialer_inv dl \<Longrightarrow> dial_all ts dl = (retire, dl') \<Longrightarrow>
   dialer_inv dl' \<and> dl_started dl \<le> dl_started dl' \<and> (\<forall>k. dialed ts dl dl' k)"
proof (induction ts dl arbitrary: retire rule: dial_all.induct)
  case (1 dl)
  then show ?case by (auto simp: dialed_def survives_def Let_def split: option.split)
next
  case (2 key cs ts dl)
  show ?case
  proof (cases "map_of (dl_connections dl) key")
    case None
    then have IH: "dialer_inv dl' \<and> dl_started (start_connection key cs dl) \<le> dl_started dl' \<and>
        (\<forall>k. dialed ts (start_connection key cs dl) dl' k)"
      using "2.IH"(1) [OF None] "2.prems" by auto
    then show ?thesis
      using dialed_fresh [of dl key cs dl] None by (auto simp: start_connection_def)
  next
    case (Some c)
    show ?thesis
    proof (cases "connectedStale cs c")
      case False
      then show ?thesis
        using "2.IH"(2) [OF Some] "2.prems" Some dialed_kept [OF Some False] by auto
    next
      case True
      let ?dl1 = "dl\<lparr>dl_connections := om_erase key (dl_connections dl)\<rparr>"
      obtain retire' where r: "dial_all ts (start_connection key cs ?dl1) = (retire', dl')"
        using "2.prems"(2) Some True by (auto split: prod.splits)
      have "dialer_inv dl' \<and> dl_started (start_connection key cs ?dl1) \<le> dl_started dl' \<and>
          (\<forall>k. dialed ts (start_connection key cs ?dl1) dl' k)"
        using "2.IH"(3) [OF Some _ _ r] "2.prems"(1) True by auto
      then show ?thesis
        using dialed_fresh [of dl key cs ?dl1] Some True by (auto simp: start_connection_def)
    qed
  qed
qed

lemma reconcile_retire:
  "reconcile needed dl = (retire, dl') \<Longrightarrow>
   \<exists>r. dial_all needed (dl\<lparr>dl_connections := filter (\<lambda>(k, c). k \<in> fst ` set needed) (dl_connections dl)\<rparr>) = (r, dl') \<and>
       retire = map snd (filter (\<lambda>(k, c). k \<notin> fst ` set needed) (dl_connections dl)) @ r"
  by (auto simp: reconcile_def Let_def split: prod.splits)

lemma map_of_filter_fst: "map_of (filter (\<lambda>(k, c). P k) m) k = (if P k then map_of m k else None)"
  by (induction m) auto

lemma dialer_inv_filter [simp, intro]:
  "dialer_inv dl \<Longrightarrow> dialer_inv (dl\<lparr>dl_connections := filter P (dl_connections dl)\<rparr>)"
  by (auto simp: dialer_inv_def)

lemma reconcile_spec:
  assumes "dialer_inv dl" and "reconcile needed dl = (retire, dl')"
  shows "dialer_inv dl'" and "dl_started dl \<le> dl_started dl'"
    and "map_of (dl_connections dl') k =
      (if k \<notin> fst ` set needed then None else map_of (dl_connections dl') k)"
    and "k \<in> fst ` set needed \<Longrightarrow> dialed needed dl dl' k"
proof -
  let ?dl = "dl\<lparr>dl_connections := filter (\<lambda>(k, c). k \<in> fst ` set needed) (dl_connections dl)\<rparr>"
  obtain r where "dial_all needed ?dl = (r, dl')"
    using reconcile_retire [OF assms(2)] by auto
  then have spec: "dialer_inv dl'" "dl_started ?dl \<le> dl_started dl'" "\<And>k. dialed needed ?dl dl' k"
    using dial_all_spec [OF dialer_inv_filter [OF assms(1)]] by blast+
  show "dialer_inv dl'" "dl_started dl \<le> dl_started dl'" using spec by simp_all
  show "map_of (dl_connections dl') k = (if k \<notin> fst ` set needed then None else map_of (dl_connections dl') k)"
    using spec(3) [of k] by (cases "k \<in> fst ` set needed") (simp_all add: dialed_def map_of_filter_fst Let_def)
  show "dialed needed dl dl' k" if "k \<in> fst ` set needed"
    using spec(3) [of k] that by (auto simp: dialed_def map_of_filter_fst Let_def split: option.splits if_splits)
qed

section \<open>No connection is lost or stopped twice\<close>

lemma mset_om_put_fresh: "k \<notin> fst ` set m \<Longrightarrow> mset (om_put k v m) = add_mset (k, v) (mset m)"
  by (induction k v m rule: om_put.induct) auto

lemma mset_om_erase: "om_ok m \<Longrightarrow> map_of m k = Some c \<Longrightarrow> mset m = add_mset (k, c) (mset (om_erase k m))"
proof (induction m)
  case (Cons x m)
  have "k \<notin> fst ` set m" if "fst x = k" using Cons.prems(1) that by (cases x) auto
  then have "fst x = k \<Longrightarrow> om_erase k m = m" 
    by (fastforce simp: om_erase_def filter_id_conv image_iff)
  then show ?case using Cons by (cases x) (auto simp: om_erase_def split: if_splits)
qed simp

text \<open>The connections that existed before: those numbered below \<open>n\<close>.\<close>

definition old_connections :: "nat \<Rightarrow> dialer \<Rightarrow> connection multiset" where
  "old_connections n dl = filter_mset (\<lambda>c. cn_id c < n) (image_mset snd (mset (dl_connections dl)))"

definition fresh_idle :: "nat \<Rightarrow> dialer \<Rightarrow> bool" where
  "fresh_idle n dl \<longleftrightarrow> n \<le> dl_started dl \<and> (\<forall>(k, c) \<in> set (dl_connections dl). n \<le> cn_id c \<longrightarrow> cn_connected c = [])"

lemma fresh_idle_start: "fresh_idle n dl \<Longrightarrow> fresh_idle n (start_connection k cs dl)"
  by (auto simp: fresh_idle_def start_connection_def dest!: set_om_put)

lemma fresh_idle_erase: "fresh_idle n dl \<Longrightarrow> fresh_idle n (dl\<lparr>dl_connections := om_erase k (dl_connections dl)\<rparr>)"
  by (auto simp: fresh_idle_def om_erase_def)

lemma old_connections_start:
  assumes "map_of (dl_connections dl) k = None" "n \<le> dl_started dl"
  shows "old_connections n (start_connection k cs dl) = old_connections n dl"
proof -
  have "k \<notin> fst ` set (dl_connections dl)" using assms(1) by (simp add: map_of_eq_None_iff)
  then show ?thesis
    using assms(2) by (simp add: old_connections_def start_connection_def mset_om_put_fresh)
qed

lemma dial_all_conserves:
  "dialer_inv dl \<Longrightarrow> fresh_idle n dl \<Longrightarrow> dial_all ts dl = (retire, dl') \<Longrightarrow>
   mset retire + old_connections n dl' = old_connections n dl"
proof (induction ts dl arbitrary: retire rule: dial_all.induct)
  case (1 dl)
  then show ?case by simp
next
  case (2 key cs ts dl)
  show ?case
  proof (cases "map_of (dl_connections dl) key")
    case None
    then show ?thesis
      using "2.IH"(1) [OF None] "2.prems" fresh_idle_start old_connections_start [OF None]
      by (simp add: fresh_idle_def)
  next
    case (Some c)
    show ?thesis
    proof (cases "connectedStale cs c")
      case False
      then show ?thesis using "2.IH"(2) [OF Some] "2.prems" Some by simp
    next
      case True
      let ?dl1 = "dl\<lparr>dl_connections := om_erase key (dl_connections dl)\<rparr>"
      obtain retire' where r: "dial_all ts (start_connection key cs ?dl1) = (retire', dl')" "retire = c # retire'"
        using "2.prems"(3) Some True by (auto split: prod.splits)
      have "mset retire' + old_connections n dl' = old_connections n (start_connection key cs ?dl1)"
        using "2.IH"(3) [OF Some _ _ _ r(1)] "2.prems"(1,2) True fresh_idle_start fresh_idle_erase by blast
      also have "\<dots> = old_connections n ?dl1"
        using "2.prems"(2) by (intro old_connections_start) (auto simp: fresh_idle_def)
      finally have ih: "mset retire' + old_connections n dl' = old_connections n ?dl1" .
      have "(key, c) \<in> set (dl_connections dl)" using Some by (rule map_of_SomeD)
      then have "cn_id c < n"
        using "2.prems"(2) True by (auto simp: fresh_idle_def connectedStale_def not_less [symmetric])
      moreover have "mset (dl_connections dl) = add_mset (key, c) (mset (om_erase key (dl_connections dl)))"
        using "2.prems"(1) Some by (intro mset_om_erase) (auto simp: dialer_inv_def)
      ultimately have "old_connections n dl = add_mset c (old_connections n ?dl1)"
        by (simp add: old_connections_def)
      then show ?thesis using ih r(2) by simp
    qed
  qed
qed

lemma old_connections_all: "dialer_inv dl \<Longrightarrow> old_connections (dl_started dl) dl = mset (map snd (dl_connections dl))"
  by (auto simp: old_connections_def dialer_inv_def filter_mset_eq_conv)

lemma mset_map_partition:
  "mset (map f (filter (\<lambda>(k, c). \<not> P k) m)) + mset (map f (filter (\<lambda>(k, c). P k) m)) = mset (map f m)"
  by (induction m) auto

lemma reconcile_conserves:
  assumes "dialer_inv dl" and "reconcile needed dl = (retire, dl')"
  shows "mset retire + old_connections (dl_started dl) dl' = mset (map snd (dl_connections dl))"
proof -
  let ?P = "\<lambda>(k, c :: connection). k \<in> fst ` set needed"
  let ?dl = "dl\<lparr>dl_connections := filter ?P (dl_connections dl)\<rparr>"
  obtain r where r: "dial_all needed ?dl = (r, dl')"
    "retire = map snd (filter (\<lambda>(k, c). k \<notin> fst ` set needed) (dl_connections dl)) @ r"
    using reconcile_retire [OF assms(2)] by auto
  have "fresh_idle (dl_started dl) ?dl" using assms(1) by (fastforce simp: fresh_idle_def dialer_inv_def)
  then have "mset r + old_connections (dl_started dl) dl' = mset (map snd (filter ?P (dl_connections dl)))"
    using dial_all_conserves [OF dialer_inv_filter [OF assms(1)] _ r(1)] old_connections_all [OF dialer_inv_filter [OF assms(1), of ?P]]
    by simp
  then have "mset retire + old_connections (dl_started dl) dl' =
      mset (map snd (filter (\<lambda>(k, c). k \<notin> fst ` set needed) (dl_connections dl))) +
      mset (map snd (filter ?P (dl_connections dl)))"
    unfolding r(2) map_append mset_append by (simp only: add.assoc)
  also have "\<dots> = mset (map snd (dl_connections dl))"
    by (rule mset_map_partition)
  finally show ?thesis .
qed

lemma dial_all_stable:
  "(\<And>k cs. (k, cs) \<in> set ts \<Longrightarrow> \<exists>c. map_of (dl_connections dl) k = Some c \<and> \<not> connectedStale cs c) \<Longrightarrow>
   dial_all ts dl = ([], dl)"
  by (induction ts) fastforce+

lemma reconcile_twice:
  assumes "dialer_inv dl" and "reconcile needed dl = (retire, dl')"
  shows "reconcile needed dl' = ([], dl')"
proof -
  have in_needed: "k \<in> fst ` set needed" if "(k, c) \<in> set (dl_connections dl')" for k c
    using reconcile_spec(3) [OF assms, of k] that
    by (force simp: map_of_eq_None_iff split: if_splits)
  have "\<exists>c. map_of (dl_connections dl') k = Some c \<and> \<not> connectedStale cs c" if "(k, cs) \<in> set needed" for k cs
    using dialed_settled reconcile_spec(4) [OF assms, of k] that by (metis fst_conv image_eqI)
  then have "dial_all needed dl' = ([], dl')" by (rule dial_all_stable)
  moreover have "filter (\<lambda>(k, c). k \<in> fst ` set needed) (dl_connections dl') = dl_connections dl'"
    using in_needed by (auto simp: filter_id_conv)
  moreover have "filter (\<lambda>(k, c). k \<notin> fst ` set needed) (dl_connections dl') = []"
    using in_needed by (auto simp: filter_empty_conv)
  ultimately show ?thesis by (simp add: reconcile_def Let_def)
qed

lemma reconcile_targets:
  assumes "dialer_inv dl" and "reconcileReliableConnections reg subscribed dl = (retire, dl')"
  shows "dom (map_of (dl_connections dl')) = fst ` set (dial_targets reg subscribed)" (is "?D = ?N")
proof -
  have rec: "reconcile (dial_targets reg subscribed) dl = (retire, dl')"
    using assms(2) by (simp add: reconcileReliableConnections_def)
  note spec = reconcile_spec [OF assms(1) rec]
  have "?D \<subseteq> ?N" using spec(3) by (metis domIff subsetI)
  moreover have "?N \<subseteq> ?D" using spec(4) dialed_settled by fastforce
  ultimately show ?thesis by blast
qed

section \<open>The thread of one connection\<close>

text \<open>
  Where \<open>run_\<close> stands. The number is the index in \<open>candidates_\<close>. Every step is one test of
  \<open>stop_\<close>, one critical section or one blocking call, so \<open>stop\<close> may come between any two.
\<close>

datatype client_pc =
    Loop_head                 \<comment> \<open>\<open>while (!stop_)\<close> around the scan\<close>
  | Candidate nat             \<comment> \<open>head of the candidate loop\<close>
  | Connect nat               \<comment> \<open>\<open>WaitForConnected\<close>\<close>
  | Stream_head nat           \<comment> \<open>\<open>while (!stop_)\<close> around the streams\<close>
  | Publish_ctx nat           \<comment> \<open>the critical section that sets \<open>activeCtx_\<close>\<close>
  | Write_identity nat
  | Reading nat               \<comment> \<open>\<open>while (!stop_)\<close> around the reads\<close>
  | Read_frame nat
  | Drain nat bool            \<comment> \<open>reads discarded until one fails, then \<open>Finish\<close>; \<open>broken\<close>\<close>
  | Leave nat                 \<comment> \<open>\<open>connected_.clear()\<close> and what follows\<close>
  | Pass_end                  \<comment> \<open>back off unless stopping\<close>
  | Exited

text \<open>
  \<open>cl_ctx\<close>: whether \<open>activeCtx_\<close> is set, and whether that context was cancelled. \<open>cl_stopped\<close>
  tells that \<open>stop\<close> has passed its critical section and waits in \<open>join\<close>.
\<close>

record client =
  cl_pc :: client_pc
  cl_stop :: bool
  cl_stopped :: bool
  cl_ctx :: "bool option"
  cl_connected :: string

definition new_client :: client where
  "new_client = \<lparr>cl_pc = Loop_head, cl_stop = False, cl_stopped = False, cl_ctx = None, cl_connected = []\<rparr>"

text \<open>What the thread tells its node: \<open>noteReliableStreamEstablished\<close> and \<open>handleReliableDataFrame\<close>.\<close>

datatype 'f client_event = Established | Delivered 'f

definition goto :: "client_pc \<Rightarrow> client \<Rightarrow> client" where
  "goto pc cl = cl\<lparr>cl_pc := pc\<rparr>"

text \<open>One step: \<open>ok\<close> is what the blocking call of the step returns, \<open>f\<close> the frame it fills in.\<close>

fun client_turn :: "string list \<Rightarrow> bool \<Rightarrow> 'f \<Rightarrow> client_pc \<Rightarrow> client \<Rightarrow> 'f client_event list \<times> client" where
  "client_turn cs ok f Loop_head cl = ([], goto (if cl_stop cl then Exited else Candidate 0) cl)"
| "client_turn cs ok f (Candidate i) cl =
     ([], goto (if length cs \<le> i \<or> cl_stop cl then Pass_end else Connect i) cl)"
| "client_turn cs ok f (Connect i) cl =
     ([], if ok then goto (Stream_head i) (cl\<lparr>cl_connected := cs ! i\<rparr>) else goto (Candidate (Suc i)) cl)"
| "client_turn cs ok f (Stream_head i) cl = ([], goto (if cl_stop cl then Leave i else Publish_ctx i) cl)"
| "client_turn cs ok f (Publish_ctx i) cl =
     ([], if cl_stop cl then goto (Leave i) cl else goto (Write_identity i) (cl\<lparr>cl_ctx := Some False\<rparr>))"
| "client_turn cs ok f (Write_identity i) cl =
     (if ok then ([Established], goto (Reading i) cl) else ([], goto (Leave i) (cl\<lparr>cl_ctx := None\<rparr>)))"
| "client_turn cs ok f (Reading i) cl = ([], goto (if cl_stop cl then Drain i False else Read_frame i) cl)"
| "client_turn cs ok f (Read_frame i) cl =
     (if ok then ([Delivered f], goto (Reading i) cl) else ([], goto (Drain i True) cl))"
| "client_turn cs ok f (Drain i broken) cl =
     ([], if ok then cl
          else goto (if \<not> cl_stop cl \<and> broken then Leave i else Stream_head i) (cl\<lparr>cl_ctx := None\<rparr>))"
| "client_turn cs ok f (Leave i) cl =
     ([], goto (if cl_stop cl then Pass_end else Candidate (Suc i)) (cl\<lparr>cl_connected := []\<rparr>))"
| "client_turn cs ok f Pass_end cl = ([], goto Loop_head cl)"
| "client_turn cs ok f Exited cl = ([], cl)"

definition client_step :: "string list \<Rightarrow> bool \<times> 'f \<Rightarrow> client \<Rightarrow> 'f client_event list \<times> client" where
  "client_step cs a cl = client_turn cs (fst a) (snd a) (cl_pc cl) cl"

text \<open>The two parts of \<open>stop\<close> before \<open>join\<close>: the flag, then \<open>TryCancel\<close> under \<open>ctxMutex_\<close>.\<close>

definition stop_flag :: "client \<Rightarrow> client" where
  "stop_flag cl = cl\<lparr>cl_stop := True\<rparr>"

definition stop_cancel :: "client \<Rightarrow> client" where
  "stop_cancel cl = cl\<lparr>cl_stopped := True, cl_ctx := map_option (\<lambda>_. True) (cl_ctx cl)\<rparr>"

fun client_run :: "string list \<Rightarrow> (bool \<times> 'f) list \<Rightarrow> client \<Rightarrow> 'f client_event list \<times> client" where
  "client_run cs [] cl = ([], cl)"
| "client_run cs (a # as) cl =
     (case client_step cs a cl of (out, cl') \<Rightarrow>
        (case client_run cs as cl' of (outs, cl'') \<Rightarrow> (out @ outs, cl'')))"

text \<open>The states a connection can be in, \<open>stop\<close> being called at any time from another thread.\<close>

definition client_start :: "client \<Rightarrow> bool" where
  "client_start cl \<longleftrightarrow> cl = new_client"

inductive client_move :: "string list \<Rightarrow> client \<Rightarrow> client \<Rightarrow> bool" for cs where
  cm_turn: "client_move cs cl (snd (client_step cs (ok, ()) cl))"
| cm_flag: "client_move cs cl (stop_flag cl)"
| cm_cancel: "cl_stop cl \<Longrightarrow> client_move cs cl (stop_cancel cl)"

section \<open>Properties of the thread\<close>

fun in_stream :: "client_pc \<Rightarrow> bool" where
  "in_stream (Write_identity _) = True"
| "in_stream (Reading _) = True"
| "in_stream (Read_frame _) = True"
| "in_stream (Drain _ _) = True"
| "in_stream _ = False"

text \<open>Whether the thread stands between \<open>connected_ = target\<close> and \<open>connected_.clear()\<close>.\<close>

fun candidate_of :: "client_pc \<Rightarrow> nat option" where
  "candidate_of (Stream_head i) = Some i"
| "candidate_of (Publish_ctx i) = Some i"
| "candidate_of (Write_identity i) = Some i"
| "candidate_of (Reading i) = Some i"
| "candidate_of (Read_frame i) = Some i"
| "candidate_of (Drain i _) = Some i"
| "candidate_of (Leave i) = Some i"
| "candidate_of _ = None"

definition connected_at :: "string list \<Rightarrow> nat option \<Rightarrow> string" where
  "connected_at cs i = (case i of None \<Rightarrow> [] | Some i \<Rightarrow> cs ! i)"

fun index_ok :: "string list \<Rightarrow> client_pc \<Rightarrow> bool" where
  "index_ok cs (Connect i) = (i < length cs)"
| "index_ok cs pc = (case candidate_of pc of None \<Rightarrow> True | Some i \<Rightarrow> i < length cs)"

definition client_inv :: "string list \<Rightarrow> client \<Rightarrow> bool" where
  "client_inv cs cl \<longleftrightarrow>
     (cl_ctx cl \<noteq> None \<longleftrightarrow> in_stream (cl_pc cl)) \<and>
     cl_connected cl = connected_at cs (candidate_of (cl_pc cl)) \<and>
     index_ok cs (cl_pc cl) \<and>
     (cl_stopped cl \<longrightarrow> cl_stop cl \<and> cl_ctx cl \<noteq> Some False)"

lemma client_inv_new: "client_inv cs new_client"
  by (simp add: client_inv_def new_client_def connected_at_def)

lemma client_inv_turn: "client_inv cs cl \<Longrightarrow> cl_pc cl = pc \<Longrightarrow> client_inv cs (snd (client_turn cs ok f pc cl))"
  by (cases pc) (auto simp: client_inv_def goto_def connected_at_def)

lemma client_inv_step: "client_inv cs cl \<Longrightarrow> client_inv cs (snd (client_step cs a cl))"
  by (simp add: client_step_def client_inv_turn)

lemma client_inv_move: "client_move cs cl cl' \<Longrightarrow> client_inv cs cl \<Longrightarrow> client_inv cs cl'"
proof (induction rule: client_move.induct)
  case (cm_turn cl ok)
  then show ?case by (intro client_inv_step)
qed (auto simp: client_inv_def stop_flag_def stop_cancel_def)

interpretation client_runs: invariant_system client_start "client_move cs" "client_inv cs"
  for cs
  by unfold_locales (simp add: client_start_def client_inv_new, rule client_inv_move)

text \<open>How many turns the thread has left once \<open>stop_\<close> is set, not counting drained frames.\<close>

fun turns_left :: "client_pc \<Rightarrow> nat" where
  "turns_left Exited = 0"
| "turns_left Loop_head = 1"
| "turns_left Pass_end = 2"
| "turns_left (Candidate _) = 3"
| "turns_left (Leave _) = 3"
| "turns_left (Stream_head _) = 4"
| "turns_left (Publish_ctx _) = 4"
| "turns_left (Connect _) = 5"
| "turns_left (Drain _ _) = 5"
| "turns_left (Reading _) = 6"
| "turns_left (Write_identity _) = 7"
| "turns_left (Read_frame _) = 7"

lemma turns_left_le: "turns_left pc \<le> 7"
  by (cases pc) simp_all

lemma turns_left_turn:
  "cl_stop cl \<Longrightarrow> cl_pc cl = pc \<Longrightarrow>
   cl_stop (snd (client_turn cs ok f pc cl)) \<and>
   turns_left (cl_pc (snd (client_turn cs ok f pc cl))) \<le> turns_left pc - (if ok then 0 else 1)"
  by (cases pc) (auto simp: goto_def)

lemma turns_left_step:
  "cl_stop cl \<Longrightarrow>
   cl_stop (snd (client_step cs a cl)) \<and>
   turns_left (cl_pc (snd (client_step cs a cl))) \<le> turns_left (cl_pc cl) - (if fst a then 0 else 1)"
  unfolding client_step_def by (rule turns_left_turn) simp_all

lemma client_run_stops:
  "cl_stop cl \<Longrightarrow> turns_left (cl_pc cl) + length (filter fst as) \<le> length as \<Longrightarrow>
   cl_pc (snd (client_run cs as cl)) = Exited"
proof (induction as arbitrary: cl)
  case Nil
  then show ?case by (cases "cl_pc cl") simp_all
next
  case (Cons a as)
  let ?cl = "snd (client_step cs a cl)"
  have "cl_stop ?cl \<and> turns_left (cl_pc ?cl) \<le> turns_left (cl_pc cl) - (if fst a then 0 else 1)"
    by (rule turns_left_step [OF Cons.prems(1)])
  then have "cl_pc (snd (client_run cs as ?cl)) = Exited"
    using Cons.prems(2)
    by (intro Cons.IH; cases "turns_left (cl_pc cl)") (auto split: if_splits)
  then show ?case by (simp add: case_prod_beta)
qed

lemma client_run_inv: "client_inv cs cl \<Longrightarrow> client_inv cs (snd (client_run cs as cl))"
proof (induction as arbitrary: cl)
  case (Cons a as)
  then show ?case using client_inv_step [OF Cons.prems, of a] by (simp add: case_prod_beta)
qed simp

lemma client_run_append:
  "client_run cs (as @ bs) cl =
     (fst (client_run cs as cl) @ fst (client_run cs bs (snd (client_run cs as cl))),
      snd (client_run cs bs (snd (client_run cs as cl))))"
  by (induction as arbitrary: cl) (simp_all add: case_prod_beta)

text \<open>Every candidate before the first reachable one costs two turns.\<close>

lemma client_scan:
  "cl_pc cl = Candidate i \<Longrightarrow> \<not> cl_stop cl \<Longrightarrow> i + n \<le> length cs \<Longrightarrow>
   client_run cs (replicate (2 * n) (False, f)) cl = ([], cl\<lparr>cl_pc := Candidate (i + n)\<rparr>)"
proof (induction n arbitrary: cl i)
  case (Suc n)
  have "client_run cs (replicate (2 * Suc n) (False, f)) cl =
      client_run cs (replicate (2 * n) (False, f)) (cl\<lparr>cl_pc := Candidate (Suc i)\<rparr>)"
    using Suc.prems by (simp add: client_step_def goto_def numeral_2_eq_2 case_prod_beta)
  then show ?case using Suc.IH [of "cl\<lparr>cl_pc := Candidate (Suc i)\<rparr>" "Suc i"] Suc.prems by simp
qed simp

lemma client_first_wins:
  assumes "cl_pc cl = Loop_head" "\<not> cl_stop cl" "n < length cs"
  shows "client_run cs (replicate (2 * n + 2) (False, f) @ [(True, f)]) cl =
    ([], cl\<lparr>cl_pc := Stream_head n, cl_connected := cs ! n\<rparr>)"
proof -
  have "replicate (2 * n + 2) (False, f) = (False, f) # replicate (2 * n) (False, f) @ [(False, f)]"
    by (simp add: replicate_append_same)
  then show ?thesis
    using assms client_scan [of "cl\<lparr>cl_pc := Candidate 0\<rparr>" 0 n cs f]
    by (simp add: client_run_append client_step_def goto_def)
qed

text \<open>A trace that is a sequence of streams: each is announced, then its frames are delivered.\<close>

definition streams_trace :: "'f list list \<Rightarrow> 'f client_event list" where
  "streams_trace fss = concat (map (\<lambda>fs. Established # map Delivered fs) fss)"

lemma streams_trace_append: "streams_trace (fss @ gss) = streams_trace fss @ streams_trace gss"
  by (simp add: streams_trace_def)

lemma streams_trace_extend: "streams_trace (fss @ [fs]) @ [Delivered f] = streams_trace (fss @ [fs @ [f]])"
  by (simp add: streams_trace_def)

fun stream_open :: "client_pc \<Rightarrow> bool" where
  "stream_open (Reading _) = True"
| "stream_open (Read_frame _) = True"
| "stream_open _ = False"

definition trace_of_streams :: "client_pc \<Rightarrow> 'f client_event list \<Rightarrow> bool" where
  "trace_of_streams pc tr \<longleftrightarrow> (\<exists>fss. tr = streams_trace fss \<and> (stream_open pc \<longrightarrow> fss \<noteq> []))"

lemma trace_of_streams_new: "\<not> stream_open pc \<Longrightarrow> trace_of_streams pc []"
  by (auto simp: trace_of_streams_def streams_trace_def)

lemma trace_of_streams_weaken: "trace_of_streams pc tr \<Longrightarrow> stream_open pc' \<longrightarrow> stream_open pc \<Longrightarrow> trace_of_streams pc' tr"
  by (auto simp: trace_of_streams_def)

lemma trace_of_streams_established: "trace_of_streams pc tr \<Longrightarrow> trace_of_streams pc' (tr @ [Established])"
proof -
  assume "trace_of_streams pc tr"
  then obtain fss where "tr = streams_trace fss" by (auto simp: trace_of_streams_def)
  then have "tr @ [Established] = streams_trace (fss @ [[]])" by (simp add: streams_trace_def)
  then show ?thesis by (auto simp: trace_of_streams_def)
qed

lemma trace_of_streams_delivered:
  assumes "trace_of_streams pc tr" "stream_open pc"
  shows "trace_of_streams pc' (tr @ [Delivered f])"
proof -
  obtain fss where "tr = streams_trace fss" "fss \<noteq> []" using assms by (auto simp: trace_of_streams_def)
  then obtain gss fs where "tr = streams_trace (gss @ [fs])" by (metis append_butlast_last_id)
  then have "tr @ [Delivered f] = streams_trace (gss @ [fs @ [f]])" by (simp add: streams_trace_extend)
  then show ?thesis by (auto simp: trace_of_streams_def)
qed

lemma trace_of_streams_turn:
  "trace_of_streams pc tr \<Longrightarrow> cl_pc cl = pc \<Longrightarrow>
   trace_of_streams (cl_pc (snd (client_turn cs ok f pc cl))) (tr @ fst (client_turn cs ok f pc cl))"
  by (cases pc)
    (auto simp: goto_def intro: trace_of_streams_established trace_of_streams_delivered
      elim: trace_of_streams_weaken)

lemma trace_of_streams_run:
  "trace_of_streams (cl_pc cl) tr \<Longrightarrow>
   trace_of_streams (cl_pc (snd (client_run cs as cl))) (tr @ fst (client_run cs as cl))"
proof (induction as arbitrary: cl tr)
  case (Cons a as)
  have "trace_of_streams (cl_pc (snd (client_step cs a cl))) (tr @ fst (client_step cs a cl))"
    using Cons.prems unfolding client_step_def by (rule trace_of_streams_turn) simp
  from Cons.IH [OF this] show ?case by (simp add: case_prod_beta)
qed simp

section \<open>Claims\<close>

text \<open>
  C10. Reconciling leaves exactly one connection for every publisher and seed that must be
  dialed and none for any other. A connection survives if its publisher is still to be dialed and
  the endpoint it is connected to, if any, is still advertised; otherwise it is replaced by a fresh
  one that holds the candidates of one of the publisher's targets. Every former connection is either
  kept or handed back for stopping, exactly once, and no fresh one is stopped. Reconciling again
  changes nothing.
\<close>
theorem reconcile_exact:
  assumes "dialer_inv dl" and "reconcileReliableConnections reg subscribed dl = (retire, dl')"
  shows "dialer_inv dl' \<and>
    dom (map_of (dl_connections dl')) = fst ` set (dial_targets reg subscribed) \<and>
    (\<forall>k c. map_of (dl_connections dl') k = Some c \<longrightarrow>
       (if map_of (dl_connections dl) k \<noteq> None \<and> survives (dial_targets reg subscribed) k (the (map_of (dl_connections dl) k))
        then map_of (dl_connections dl) k = Some c
        else cn_connected c = [] \<and> dl_started dl \<le> cn_id c \<and> (k, cn_candidates c) \<in> set (dial_targets reg subscribed))) \<and>
    mset retire + filter_mset (\<lambda>c. cn_id c < dl_started dl) (mset (map snd (dl_connections dl'))) =
      mset (map snd (dl_connections dl)) \<and>
    reconcileReliableConnections reg subscribed dl' = ([], dl')"
proof (intro conjI allI impI)
  let ?ts = "dial_targets reg subscribed"
  have rec: "reconcile ?ts dl = (retire, dl')" using assms(2) by (simp add: reconcileReliableConnections_def)
  note spec = reconcile_spec [OF assms(1) rec]
  show "dialer_inv dl'" by (rule spec(1))
  show "dom (map_of (dl_connections dl')) = fst ` set ?ts" by (rule reconcile_targets [OF assms])
  show "if map_of (dl_connections dl) k \<noteq> None \<and> survives ?ts k (the (map_of (dl_connections dl) k))
        then map_of (dl_connections dl) k = Some c
        else cn_connected c = [] \<and> dl_started dl \<le> cn_id c \<and> (k, cn_candidates c) \<in> set ?ts"
    if "map_of (dl_connections dl') k = Some c" for k c
  proof -
    have "k \<in> fst ` set ?ts" using spec(3) [of k] that by (auto split: if_splits)
    from spec(4) [OF this] \<open>k \<in> fst ` set ?ts\<close> that show ?thesis
      by (cases "map_of (dl_connections dl) k")
        (auto simp: dialed_def fresh_for_def Let_def split: if_splits)
  qed
  show "mset retire + filter_mset (\<lambda>c. cn_id c < dl_started dl) (mset (map snd (dl_connections dl'))) =
      mset (map snd (dl_connections dl))"
    using reconcile_conserves [OF assms(1) rec] by (simp add: old_connections_def)
  show "reconcileReliableConnections reg subscribed dl' = ([], dl')"
    using reconcile_twice [OF assms(1) rec] by (simp add: reconcileReliableConnections_def)
qed

definition no_connections :: dialer where
  "no_connections = \<lparr>dl_connections = [], dl_started = 0\<rparr>"

lemma no_connections_inv: "dialer_inv no_connections"
  by (simp add: dialer_inv_def no_connections_def)

text \<open>A node that heard the heartbeat of peer 22 and that it publishes \<open>t\<close>.\<close>

definition peer_at :: "string \<Rightarrow> registry" where
  "peer_at address =
     handleTopicAnnouncement 2 0 22 ''t'' ''M'' True 0
       (handleParticipantHeartbeat 2 0 22 [\<lparr>ep_address = address, ep_port = 7, ep_transport = GRPC_TCP\<rparr>] 0
         (fresh_registry 1))"

definition t_topics :: "string set" where
  "t_topics = {makeCompositeKey ''t'' ''M''}"

lemma t_topics_targets:
  "dial_targets reg t_topics = publisher_targets reg (makeCompositeKey ''t'' ''M'')
     @ map (\<lambda>peer. (peerKeyForEndpoint peer, [peer])) (cf_peerEndpoints (reg_config reg))"
  by (simp add: dial_targets_def t_topics_def)

lemma peer_at_no_seeds: "cf_peerEndpoints (reg_config (peer_at a)) = []"
proof -
  have "cf_peerEndpoints (reg_config (handleTopicAnnouncement 2 0 22 ''t'' ''M'' True 0
      (handleParticipantHeartbeat 2 0 22 eps 0 (fresh_registry 1)))) = []" for eps
    by (simp add: handleTopicAnnouncement_def handleParticipantHeartbeat_def fresh_registry_def Let_def
      put_topic_def put_participant_def on_shard_def default_config_def split: option.split)
  then show ?thesis by (simp add: peer_at_def)
qed

lemma peer_at_publishers:
  "publisher_targets (peer_at ''h'') (makeCompositeKey ''t'' ''M'') = [((SubscriberKey 2 0 22), [''h:7''])]"
  "publisher_targets (peer_at ''i'') (makeCompositeKey ''t'' ''M'') = [((SubscriberKey 2 0 22), [''i:7''])]"
  by code_simp+

lemmas peer_at_targets = t_topics_targets peer_at_no_seeds peer_at_publishers

theorem reconcile_exact_witness:
  "let dl = snd (reconcileReliableConnections (peer_at ''h'') t_topics no_connections) in
     dom (map_of (dl_connections dl)) = {(SubscriberKey 2 0 22)} \<and>
     reconcileReliableConnections (peer_at ''h'') t_topics dl = ([], dl)"
  using reconcile_exact [OF no_connections_inv prod.collapse [symmetric], of "peer_at ''h''" t_topics]
  by (simp add: peer_at_targets Let_def)

text \<open>
  A connection that is not connected keeps its old candidates for ever: reconciling never
  replaces it, whatever endpoints its publisher advertises now. A publisher that comes back on
  another endpoint after its stream broke is therefore not dialed there, since the thread of the
  old connection scans the old list only.
\<close>
theorem moved_publisher_not_redialed:
  assumes "dialer_inv dl" and "map_of (dl_connections dl) k = Some c" and "cn_connected c = []"
    and "k \<in> fst ` set (dial_targets reg subscribed)"
    and "reconcileReliableConnections reg subscribed dl = (retire, dl')"
  shows "map_of (dl_connections dl') k = Some c"
proof -
  have "dialed (dial_targets reg subscribed) dl dl' k"
    using reconcile_spec(4) [OF assms(1) _ assms(4)] assms(5) by (simp add: reconcileReliableConnections_def)
  then show ?thesis using assms(2,3) by (simp add: dialed_def)
qed

theorem moved_publisher_not_redialed_witness:
  "let dl = snd (reconcileReliableConnections (peer_at ''h'') t_topics no_connections) in
     dial_targets (peer_at ''i'') t_topics = [((SubscriberKey 2 0 22), [''i:7''])] \<and>
     map_of (dl_connections (snd (reconcileReliableConnections (peer_at ''i'') t_topics dl)))
       (SubscriberKey 2 0 22) = Some \<lparr>cn_id = 0, cn_candidates = [''h:7''], cn_connected = []\<rparr>"
proof -
  let ?dl = "snd (reconcileReliableConnections (peer_at ''h'') t_topics no_connections)"
  have dl: "?dl = \<lparr>dl_connections = [((SubscriberKey 2 0 22),
      \<lparr>cn_id = 0, cn_candidates = [''h:7''], cn_connected = []\<rparr>)], dl_started = 1\<rparr>"
    by (simp add: reconcileReliableConnections_def reconcile_def peer_at_targets Let_def no_connections_def
      start_connection_def)
  have "dialer_inv ?dl" by (simp add: dl dialer_inv_def)
  from moved_publisher_not_redialed [OF this _ _ _ prod.collapse [symmetric],
      of "(SubscriberKey 2 0 22)" "\<lparr>cn_id = 0, cn_candidates = [''h:7''], cn_connected = []\<rparr>"
        "peer_at ''i''" t_topics]
  show ?thesis by (simp add: dl peer_at_targets Let_def)
qed

text \<open>
  The scan tries the candidates in order and the first reachable one wins: if the first
  \<open>n\<close> do not connect and the next one does, the thread is connected to exactly that one after
  two turns per failed candidate and three more.
\<close>
theorem scan_first_wins:
  assumes "cl_pc cl = Loop_head" and "\<not> cl_stop cl" and "n < length cs"
  shows "client_run cs (replicate (2 * n + 2) (False, f) @ [(True, f)]) cl =
    ([], cl\<lparr>cl_pc := Stream_head n, cl_connected := cs ! n\<rparr>)"
  using assms by (rule client_first_wins)

theorem scan_first_wins_witness:
  "cl_connected (snd (client_run [''a:1'', ''b:2'', ''c:3''] (replicate 4 (False, ()) @ [(True, ())]) new_client)) = ''b:2''"
  using scan_first_wins [of new_client 1 "[''a:1'', ''b:2'', ''c:3'']" "()"]
  by (simp add: new_client_def)


lemma demo_client_reachable:
  "reach client_start (client_move [''a:1''])
     (stop_cancel (stop_flag (snd (client_run [''a:1''] (replicate 7 (True, ())) new_client))))"
proof -
  have "reach client_start (client_move [''a:1'']) (snd (client_run [''a:1''] (replicate n (True, ())) cl))"
    if "reach client_start (client_move [''a:1'']) cl" for n cl
    using that
  proof (induction n arbitrary: cl)
    case (Suc n)
    from Suc.IH [OF reach_step [OF Suc.prems cm_turn [where ok = True]]] show ?case
      by (simp add: case_prod_beta)
  qed simp
  then have "reach client_start (client_move [''a:1'']) (snd (client_run [''a:1''] (replicate 7 (True, ())) new_client))"
    by (simp add: reach_init client_start_def)
  then have "reach client_start (client_move [''a:1''])
      (stop_flag (snd (client_run [''a:1''] (replicate 7 (True, ())) new_client)))"
    by (rule reach_step) (rule cm_flag)
  then show ?thesis by (rule reach_step) (rule cm_cancel, simp add: stop_flag_def)
qed


text \<open>
  C26. \<open>stop\<close> returns: from any reachable state in which \<open>stop_\<close> is set, the thread leaves
  its loops within seven turns, plus one for every call that still succeeds. A cancelled stream
  lets only finitely many reads succeed, so \<open>join\<close> ends. The thread then holds no context and
  reports no endpoint.
\<close>
theorem stop_joins:
  assumes "reach client_start (client_move cs) cl" and "cl_stop cl" and "7 + length (filter fst as) \<le> length as"
  shows "cl_pc (snd (client_run cs as cl)) = Exited \<and>
    cl_ctx (snd (client_run cs as cl)) = None \<and> cl_connected (snd (client_run cs as cl)) = []"
proof -
  have "cl_pc (snd (client_run cs as cl)) = Exited"
    using assms(2,3) turns_left_le [of "cl_pc cl"] by (intro client_run_stops) auto
  moreover have "client_inv cs (snd (client_run cs as cl))"
    by (rule client_run_inv [OF client_runs.reach_inv [OF assms(1)]])
  ultimately show ?thesis by (simp add: client_inv_def connected_at_def)
qed

theorem stop_joins_witness:
  "cl_pc (snd (client_run [''a:1''] ([(True, ()), (True, ())] @ replicate 7 (False, ()))
     (stop_cancel (stop_flag (snd (client_run [''a:1''] (replicate 7 (True, ())) new_client)))))) = Exited"
  using stop_joins [OF demo_client_reachable, of "[(True, ()), (True, ())] @ replicate 7 (False, ())"]
  by (simp add: stop_cancel_def stop_flag_def)

text \<open>The node's side of a connection's events.\<close>

fun node_events ::
  "(bytes \<Rightarrow> data_message option) \<Rightarrow> u64 \<Rightarrow> participant_data client_event list \<Rightarrow> rx_state \<Rightarrow>
   data_message list \<times> rx_state"
where
  "node_events parse uid [] st = ([], st)"
| "node_events parse uid (Established # es) st = node_events parse uid es (noteReliableStreamEstablished uid st)"
| "node_events parse uid (Delivered pd # es) st =
     (case handleReliableDataFrame parse pd st of (out, st') \<Rightarrow>
        (case node_events parse uid es st' of (out', st'') \<Rightarrow> (out @ out', st'')))"


end
