(* ===== verification/Edriel_Node.thy ===== *)
theory Edriel_Node
  imports Edriel_Pipeline Edriel_Dial Edriel_Config "HOL-Library.Signed_Division"
begin

text \<open>
  A whole node (\<open>class Edriel\<close>): the endpoints it advertises, its construction from the
  configuration, the heartbeat and cleanup chains on the strand, and the start and stop of
  auto-discovery with the worker pool, the dialed connections and the gRPC server. Sockets,
  timers and threads are represented by what the code relies on: a cancelled wait does not run
  its continuation, an operation on a closed socket fails, and joining a worker means running
  its loop until it leaves.
\<close>

section \<open>Advertised endpoints\<close>

text \<open>What \<open>getifaddrs\<close> lists per interface; an IPv4 address is given in host order.\<close>

datatype ifaddr = No_address | Other_family | Inet u32

definition unicast :: "u32 \<Rightarrow> bool" where
  "unicast hostOrder \<longleftrightarrow>
     (let first = drop_bit 24 hostOrder AND 255 in \<not> (first = 0 \<or> first = 127 \<or> first \<ge> 224))"

fun interface_address :: "ifaddr \<Rightarrow> string option" where
  "interface_address No_address = None"
| "interface_address Other_family = None"
| "interface_address (Inet hostOrder) = (if unicast hostOrder then Some (formatIpv4 hostOrder) else None)"

text \<open>\<open>None\<close>: \<open>getifaddrs\<close> failed.\<close>

definition discoverLocalUnicastIpv4 :: "ifaddr list option \<Rightarrow> string list" where
  "discoverLocalUnicastIpv4 ifa = (case ifa of None \<Rightarrow> [] | Some ps \<Rightarrow> List.map_filter interface_address ps)"

text \<open>
  The \<open>_WIN32\<close> branch: the adapters with their status (\<open>I_OPER_UP\<close>) and unicast addresses (\<open>None\<close> is a
  null pointer). Its filter lets the unspecified address and the rest of 0/8 through.
\<close>

record adapter =
  wa_up :: bool
  wa_unicast :: "u32 option list"

definition unicast_windows :: "u32 \<Rightarrow> bool" where
  "unicast_windows hostOrder \<longleftrightarrow> (let first = drop_bit 24 hostOrder AND 255 in \<not> (first = 127 \<or> first \<ge> 224))"

definition discoverLocalUnicastIpv4_windows :: "adapter list option \<Rightarrow> string list" where
  "discoverLocalUnicastIpv4_windows adapters =
     (case adapters of None \<Rightarrow> []
      | Some as \<Rightarrow> concat (map (\<lambda>a. if wa_up a
          then map formatIpv4 (filter unicast_windows (List.map_filter (\<lambda>sa. sa) (wa_unicast a))) else []) as))"

lemma map_filter_append: "List.map_filter f (xs @ ys) = List.map_filter f xs @ List.map_filter f ys"
  by (simp add: List.map_filter_def)

lemma windows_scan:
  "discoverLocalUnicastIpv4 (Some (map (case_option No_address Inet) (concat (map wa_unicast (filter wa_up as))))) =
     map formatIpv4 (filter unicast (concat (map (List.map_filter (\<lambda>sa. sa) \<circ> wa_unicast) (filter wa_up as))))"
    (is "?posix = _")
  "discoverLocalUnicastIpv4_windows (Some as) =
     map formatIpv4 (filter unicast_windows (concat (map (List.map_filter (\<lambda>sa. sa) \<circ> wa_unicast) (filter wa_up as))))"
  "unicast h \<longleftrightarrow> unicast_windows h \<and> drop_bit 24 h AND 255 \<noteq> 0"
  "discoverLocalUnicastIpv4_windows (Some [\<lparr>wa_up = True, wa_unicast = [Some 0]\<rparr>]) = [''0.0.0.0'']"
proof -
  have one: "List.map_filter interface_address (map (case_option No_address Inet) xs) =
      map formatIpv4 (filter unicast (List.map_filter (\<lambda>sa. sa) xs))" for xs
    by (induction xs) (auto simp: List.map_filter_simps split: option.split)
  show "?posix = map formatIpv4 (filter unicast (concat (map (List.map_filter (\<lambda>sa. sa) \<circ> wa_unicast) (filter wa_up as))))"
    by (induction as) (simp_all add: discoverLocalUnicastIpv4_def map_filter_append one)
  show "discoverLocalUnicastIpv4_windows (Some as) =
     map formatIpv4 (filter unicast_windows (concat (map (List.map_filter (\<lambda>sa. sa) \<circ> wa_unicast) (filter wa_up as))))"
    by (induction as) (simp_all add: discoverLocalUnicastIpv4_windows_def)
  show "unicast h \<longleftrightarrow> unicast_windows h \<and> drop_bit 24 h AND 255 \<noteq> 0"
    by (auto simp: unicast_def unicast_windows_def Let_def)
  show "discoverLocalUnicastIpv4_windows (Some [\<lparr>wa_up = True, wa_unicast = [Some 0]\<rparr>]) = [''0.0.0.0'']"
    by code_simp
qed

definition append_endpoint :: "config \<Rightarrow> string \<Rightarrow> endpoint list \<Rightarrow> endpoint list" where
  "append_endpoint c address eps =
     (if address = [] \<or> unat (cf_maxAdvertisedEndpoints c) \<le> length eps then eps
      else if \<exists>e \<in> set eps. ep_address e = address \<and> ep_port e = ucast (cf_grpcPort c) then eps
      else eps @ [\<lparr>ep_address = address, ep_port = ucast (cf_grpcPort c), ep_transport = GRPC_TCP\<rparr>])"

definition buildSelfEndpoints :: "config \<Rightarrow> ifaddr list option \<Rightarrow> endpoint list" where
  "buildSelfEndpoints c ifa =
     fold (append_endpoint c) (discoverLocalUnicastIpv4 ifa) (fold (append_endpoint c) (cf_advertiseAddresses c) [])"

section \<open>State\<close>

text \<open>
  A self-re-arming activity on the strand. There may be several runs of it at once: posted to
  the strand, waiting for their send to complete, or waiting for the timer.
\<close>

record chain =
  ch_posted :: nat
  ch_sending :: nat
  ch_waiting :: nat

definition no_chain :: chain where
  "no_chain = \<lparr>ch_posted = 0, ch_sending = 0, ch_waiting = 0\<rparr>"

definition chain_post :: "chain \<Rightarrow> chain" where
  "chain_post ch = ch\<lparr>ch_posted := Suc (ch_posted ch)\<rparr>"

text \<open>\<open>cancel\<close>, and the cancellation \<open>expires_after\<close> implies: waits end, nothing else does.\<close>

definition chain_cancel :: "chain \<Rightarrow> chain" where
  "chain_cancel ch = ch\<lparr>ch_waiting := 0\<rparr>"

definition chain_rearm :: "chain \<Rightarrow> chain" where
  "chain_rearm ch = (chain_cancel ch)\<lparr>ch_waiting := 1\<rparr>"

record node =
  nd_pipeline :: pipeline
  nd_rx :: rx_state
  nd_sender :: sender
  nd_dialer :: dialer
  nd_subscribed :: "string set"
  nd_endpoints :: "endpoint list"
  nd_isRunning :: bool
  nd_socketOpen :: bool
  nd_receiveArmed :: bool
  nd_pipelineStarted :: bool
  nd_workers :: bool
  nd_sends :: chain
  nd_cleans :: chain

definition nd_registry :: "node \<Rightarrow> registry" where
  "nd_registry nd = pl_registry (nd_pipeline nd)"

definition set_registry :: "registry \<Rightarrow> node \<Rightarrow> node" where
  "set_registry reg nd = nd\<lparr>nd_pipeline := (nd_pipeline nd)\<lparr>pl_registry := reg\<rparr>\<rparr>"

section \<open>Construction\<close>

definition clampWorkers :: "config \<Rightarrow> nat" where
  "clampWorkers c =
     (let n = cf_workerThreads c in unat (if n < kMinWorkerThreads \<or> n > kMaxWorkerThreads then kDefaultWorkerThreads else n))"

definition new_shards :: "nat \<Rightarrow> shard list" where
  "new_shards n = replicate n \<lparr>sh_participants = [], sh_topics = []\<rparr>"

definition new_rings :: "config \<Rightarrow> nat \<Rightarrow> bytes spsc_ring list" where
  "new_rings c n = replicate n (new_ring (if 0 < cf_rxRingSlots c then cf_rxRingSlots c else kDefaultRxRingSlots))"

text \<open>\<open>pid\<close> is the process id, \<open>rd\<close> the draws of the random device.\<close>

definition new_node :: "config \<Rightarrow> ifaddr list option \<Rightarrow> u32 \<Rightarrow> u32 \<times> u32 \<Rightarrow> int \<Rightarrow> node" where
  "new_node c ifa pid rd now =
     (let n = clampWorkers c;
          uid = push_bit 32 (ucast (fst rd)) OR ucast (snd rd);
          self = new_participant (ucast pid) 0 uid (seconds 10) now
      in \<lparr>nd_pipeline = \<lparr>pl_registry = \<lparr>reg_shards = new_shards n, reg_self = self, reg_config = c\<rparr>,
                         pl_rings = new_rings c n, pl_kernelDropped = 0\<rparr>,
          nd_rx = no_windows, nd_sender = new_sender, nd_dialer = no_connections, nd_subscribed = {},
          nd_endpoints = buildSelfEndpoints c ifa,
          nd_isRunning = False, nd_socketOpen = True, nd_receiveArmed = False, nd_pipelineStarted = False,
          nd_workers = False, nd_sends = no_chain, nd_cleans = no_chain\<rparr>)"

section \<open>The chains\<close>

definition autoDiscoveryCleanupPeriod :: "config \<Rightarrow> int" where
  "autoDiscoveryCleanupPeriod c =
     (let halfTimeout = cf_participantTimeout c sdiv 2 in if halfTimeout \<ge> 1 then halfTimeout else 1)"

text \<open>
  \<open>startAutoDiscoverySender\<close>: what its posted handler does up to \<open>async_send_to\<close> (the packet is
  sent if the socket is open), and the completion handler, which re-arms the timer whether or not
  the send failed. \<open>ser\<close> is \<open>Message::SerializeToString\<close>.
\<close>

definition discovery_identifier :: "node \<Rightarrow> proto_identifier" where
  "discovery_identifier nd = (self_identifier (nd_registry nd))\<lparr>id_endpoints := nd_endpoints nd\<rparr>"

definition sender_run :: "(message \<Rightarrow> bytes) \<Rightarrow> ifaddr list option \<Rightarrow> node \<Rightarrow> bytes list \<times> node" where
  "sender_run ser ifa nd =
     (let nd' = nd\<lparr>nd_endpoints := buildSelfEndpoints (reg_config (nd_registry nd)) ifa,
                   nd_sends := (nd_sends nd)\<lparr>ch_posted := ch_posted (nd_sends nd) - 1,
                                             ch_sending := Suc (ch_sending (nd_sends nd))\<rparr>\<rparr>;
          packet = prependMagicNumberToPacket (ser (Content_identifier (discovery_identifier nd')))
      in (if nd_socketOpen nd then [packet] else [], nd'))"

definition sender_sent :: "node \<Rightarrow> node" where
  "sender_sent nd = nd\<lparr>nd_sends :=
     chain_rearm ((nd_sends nd)\<lparr>ch_sending := ch_sending (nd_sends nd) - 1\<rparr>)\<rparr>"

text \<open>A wait that ends without an error posts the next run.\<close>

definition chain_fire :: "chain \<Rightarrow> chain" where
  "chain_fire ch = chain_post (ch\<lparr>ch_waiting := ch_waiting ch - 1\<rparr>)"

text \<open>\<open>startAutoDiscoveryCleaner\<close>: the posted handler, with the connections it stops.\<close>

definition cleaner_run :: "int \<Rightarrow> node \<Rightarrow> connection list \<times> node" where
  "cleaner_run now nd =
     (case removeTimedOutParticipants now (nd_registry nd) (nd_rx nd) of (reg, rx) \<Rightarrow>
        (case reconcileReliableConnections reg (nd_subscribed nd) (nd_dialer nd) of (retire, dl) \<Rightarrow>
           (retire, (set_registry reg nd)\<lparr>nd_rx := rx, nd_dialer := dl,
              nd_cleans := chain_rearm ((nd_cleans nd)\<lparr>ch_posted := ch_posted (nd_cleans nd) - 1\<rparr>)\<rparr>)))"

section \<open>Start and stop\<close>

definition startReceivePipeline :: "node \<Rightarrow> node" where
  "startReceivePipeline nd =
     (if nd_pipelineStarted nd then nd
      else nd\<lparr>nd_pipelineStarted := True, nd_workers := True, nd_receiveArmed := nd_socketOpen nd\<rparr>)"

text \<open>
  \<open>built\<close>: whether \<open>BuildAndStart\<close> gave a server. Server and service are set and reset together.
\<close>

definition startGrpcServer :: "bool \<Rightarrow> node \<Rightarrow> node" where
  "startGrpcServer built nd =
     (case sd_service (nd_sender nd) of
        Some _ \<Rightarrow> nd
      | None \<Rightarrow> if built then nd\<lparr>nd_sender := (nd_sender nd)\<lparr>sd_service := Some empty_service\<rparr>\<rparr> else nd)"

definition stopGrpcServer :: "node \<Rightarrow> node" where
  "stopGrpcServer nd = nd\<lparr>nd_sender := (nd_sender nd)\<lparr>sd_service := None\<rparr>\<rparr>"

definition initializeAutoDiscovery :: "bool \<Rightarrow> node \<Rightarrow> node" where
  "initializeAutoDiscovery built nd =
     startGrpcServer built
       (let nd' = startReceivePipeline (nd\<lparr>nd_isRunning := True,
              nd_sends := chain_cancel (nd_sends nd), nd_cleans := chain_cancel (nd_cleans nd)\<rparr>)
        in nd'\<lparr>nd_sends := chain_post (nd_sends nd'), nd_cleans := chain_post (nd_cleans nd')\<rparr>)"

definition startAutoDiscovery :: "bool \<Rightarrow> node \<Rightarrow> node" where
  "startAutoDiscovery built nd = (if nd_isRunning nd then nd else initializeAutoDiscovery built nd)"

text \<open>
  Joining the workers one after the other: each runs until it leaves, with the clock readings of
  its turns. The callbacks invoked on the way, or \<open>None\<close> if some join does not return.
\<close>

fun join_workers ::
  "(string \<Rightarrow> (bytes \<Rightarrow> 'm option) option) \<Rightarrow> (bytes \<Rightarrow> message option) \<Rightarrow> (nat \<Rightarrow> int list) \<Rightarrow> nat list \<Rightarrow>
   pipeline \<Rightarrow> ((nat \<times> 'm) list \<times> pipeline) option"
where
  "join_workers types parse clock [] pl = Some ([], pl)"
| "join_workers types parse clock (i # is) pl =
     (case worker_loop types parse (clock i) i pl of
        None \<Rightarrow> None
      | Some (out, pl') \<Rightarrow>
          (case join_workers types parse clock is pl' of
             None \<Rightarrow> None | Some (out', pl'') \<Rightarrow> Some (out @ out', pl'')))"

definition close_rings :: "pipeline \<Rightarrow> pipeline" where
  "close_rings pl = pl\<lparr>pl_rings := map ring_close (pl_rings pl)\<rparr>"

definition stopReceivePipeline ::
  "(string \<Rightarrow> (bytes \<Rightarrow> 'm option) option) \<Rightarrow> (bytes \<Rightarrow> message option) \<Rightarrow> (nat \<Rightarrow> int list) \<Rightarrow>
   node \<Rightarrow> ((nat \<times> 'm) list \<times> node) option"
where
  "stopReceivePipeline types parse clock nd =
     (if \<not> nd_pipelineStarted nd then Some ([], nd)
      else
        let pl = close_rings (nd_pipeline nd) in
        case join_workers types parse clock (if nd_workers nd then [0..<length (pl_rings pl)] else []) pl of
          None \<Rightarrow> None
        | Some (out, pl') \<Rightarrow>
            Some (out, nd\<lparr>nd_pipelineStarted := False, nd_workers := False, nd_pipeline := pl'\<rparr>))"

text \<open>
  The callbacks invoked while the workers drain, the connections stopped, and the node.
\<close>

definition stopAutoDiscovery ::
  "(string \<Rightarrow> (bytes \<Rightarrow> 'm option) option) \<Rightarrow> (bytes \<Rightarrow> message option) \<Rightarrow> (nat \<Rightarrow> int list) \<Rightarrow>
   node \<Rightarrow> ((nat \<times> 'm) list \<times> connection list \<times> node) option"
where
  "stopAutoDiscovery types parse clock nd =
     (case stopReceivePipeline types parse clock
             (nd\<lparr>nd_isRunning := False, nd_sends := chain_cancel (nd_sends nd),
                 nd_cleans := chain_cancel (nd_cleans nd), nd_socketOpen := False, nd_receiveArmed := False\<rparr>) of
        None \<Rightarrow> None
      | Some (out, nd') \<Rightarrow>
          (case stopReliableSubscriptions (nd_dialer nd') of (retired, dl) \<Rightarrow>
             Some (out, retired, stopGrpcServer (nd'\<lparr>nd_dialer := dl\<rparr>))))"

text \<open>The constructor without a configuration, the destructor, and the public call of a reconciliation.\<close>

definition new_node_default :: "(string \<Rightarrow> yaml option) \<Rightarrow> string option \<Rightarrow> ifaddr list option \<Rightarrow> u32 \<Rightarrow> u32 \<times> u32 \<Rightarrow> int \<Rightarrow> node" where
  "new_node_default yamlLoad content = new_node (loadConfig yamlLoad content)"

definition destroy_node ::
  "(string \<Rightarrow> (bytes \<Rightarrow> 'm option) option) \<Rightarrow> (bytes \<Rightarrow> message option) \<Rightarrow> (nat \<Rightarrow> int list) \<Rightarrow>
   node \<Rightarrow> ((nat \<times> 'm) list \<times> connection list \<times> node) option"
where
  "destroy_node = stopAutoDiscovery"

definition startReliableSubscriptions :: "node \<Rightarrow> connection list \<times> node" where
  "startReliableSubscriptions nd =
     (case reconcileReliableConnections (nd_registry nd) (nd_subscribed nd) (nd_dialer nd) of
        (retired, dl) \<Rightarrow> (retired, nd\<lparr>nd_dialer := dl\<rparr>))"

section \<open>Well-formed nodes\<close>

definition node_inv :: "node \<Rightarrow> bool" where
  "node_inv nd \<longleftrightarrow> pipeline_inv (nd_pipeline nd) \<and> registry_inv (nd_registry nd) \<and> dialer_inv (nd_dialer nd) \<and>
     sender_inv (nd_sender nd) \<and> (nd_pipelineStarted nd \<longrightarrow> nd_workers nd)"

subsection \<open>Self endpoints\<close>

text \<open>The distinct elements of a list, each at its first position.\<close>

definition firsts :: "'a list \<Rightarrow> 'a list" where
  "firsts xs = rev (remdups (rev xs))"

lemma firsts_snoc: "firsts (xs @ [a]) = (if a \<in> set xs then firsts xs else firsts xs @ [a])"
  by (simp add: firsts_def)

lemma firsts_set [simp]: "set (firsts xs) = set xs"
  by (simp add: firsts_def)

definition self_endpoint :: "config \<Rightarrow> string \<Rightarrow> endpoint" where
  "self_endpoint c a = \<lparr>ep_address = a, ep_port = ucast (cf_grpcPort c), ep_transport = GRPC_TCP\<rparr>"

lemma append_endpoint_map:
  "append_endpoint c a (map (self_endpoint c) as) =
     map (self_endpoint c)
       (if a = [] \<or> unat (cf_maxAdvertisedEndpoints c) \<le> length as \<or> a \<in> set as then as else as @ [a])"
  by (auto simp: append_endpoint_def self_endpoint_def)

lemma fold_append_endpoint:
  "fold (append_endpoint c) xs [] =
     map (self_endpoint c) (take (unat (cf_maxAdvertisedEndpoints c)) (firsts (filter (\<lambda>a. a \<noteq> []) xs)))"
proof (induction xs rule: rev_induct)
  case Nil
  then show ?case by (simp add: firsts_def)
next
  case (snoc a xs)
  let ?m = "unat (cf_maxAdvertisedEndpoints c)" and ?S = "firsts (filter (\<lambda>a. a \<noteq> []) xs)"
  have "a \<noteq> [] \<Longrightarrow> a \<in> set xs \<Longrightarrow> a \<in> set ?S" by simp
  moreover have "a \<notin> set xs \<Longrightarrow> a \<notin> set (take ?m ?S)" by (auto dest: in_set_takeD)
  ultimately show ?case
    by (cases "?m \<le> length ?S") (auto simp: snoc append_endpoint_map firsts_snoc)
qed

lemma buildSelfEndpoints_fold:
  "buildSelfEndpoints c ifa = fold (append_endpoint c) (cf_advertiseAddresses c @ discoverLocalUnicastIpv4 ifa) []"
  by (simp add: buildSelfEndpoints_def)

lemma self_endpoints_bounded: "length (buildSelfEndpoints c ifa) \<le> unat (cf_maxAdvertisedEndpoints c)"
  unfolding buildSelfEndpoints_fold fold_append_endpoint by simp

subsection \<open>Construction\<close>

lemma clampWorkers_range: "1 \<le> clampWorkers c \<and> clampWorkers c \<le> 16"
  by (simp add: clampWorkers_def Let_def kMinWorkerThreads_def kMaxWorkerThreads_def kDefaultWorkerThreads_def
      word_less_nat_alt not_less)

lemma new_ring_slots_inv:
  assumes "config_ok c"
  shows "ring_inv (new_ring (if 0 < cf_rxRingSlots c then cf_rxRingSlots c else kDefaultRxRingSlots) :: bytes spsc_ring)"
proof -
  obtain k where "k < 64" "unat (cf_rxRingSlots c) = 2 ^ k" using assms by (auto simp: config_ok_def)
  then have "0 < unat (cf_rxRingSlots c)" "unat (cf_rxRingSlots c) dvd 2 ^ 64"
    using le_imp_power_dvd [of k 64 "2 :: nat"] by simp_all
  then have "0 < cf_rxRingSlots c" "ring_inv (new_ring (cf_rxRingSlots c) :: bytes spsc_ring)"
    by (simp_all add: word_less_nat_alt new_ring_inv)
  then show ?thesis by simp
qed

lemma new_node_inv:
  assumes "config_ok c"
  shows "node_inv (new_node c ifa pid rd now)"
proof -
  let ?nd = "new_node c ifa pid rd now"
  have n: "0 < clampWorkers c" using clampWorkers_range [of c] by simp
  have "registry_start (nd_registry ?nd)"
    using n by (simp add: registry_start_def has_shards_def new_node_def Let_def nd_registry_def new_shards_def)
  then have "registry_inv (nd_registry ?nd)" by (rule registry_inv_start)
  moreover have "pipeline_inv (nd_pipeline ?nd)"
    using n new_ring_slots_inv [OF assms]
    by (auto simp: pipeline_inv_def new_node_def Let_def has_shards_def new_shards_def new_rings_def workerCount_def)
  ultimately show ?thesis
    by (simp add: node_inv_def new_node_def Let_def no_connections_inv sender_inv_def new_sender_def)
qed

lemma cleanup_period_bounds:
  "1 \<le> autoDiscoveryCleanupPeriod c \<and>
   (2 \<le> cf_participantTimeout c \<longrightarrow> autoDiscoveryCleanupPeriod c = cf_participantTimeout c div 2)"
  by (auto simp: autoDiscoveryCleanupPeriod_def Let_def signed_divide_int_def sgn_if)

subsection \<open>Draining at shutdown\<close>

definition all_closed :: "pipeline \<Rightarrow> bool" where
  "all_closed pl \<longleftrightarrow> (\<forall>r \<in> set (pl_rings pl). rg_closed r)"

definition pipe_ok :: "pipeline \<Rightarrow> bool" where
  "pipe_ok pl \<longleftrightarrow> pipeline_inv pl \<and> registry_inv (pl_registry pl) \<and> all_closed pl"

lemma handlers_workerCount [simp]:
  "workerCount (handleParticipantHeartbeat pid tid uid eps now reg) = workerCount reg"
  "workerCount (handleTopicAnnouncement pid tid uid tn mt isPub now reg) = workerCount reg"
  by (auto simp: handleParticipantHeartbeat_def handleTopicAnnouncement_def Let_def split: option.split)

lemma parse_workerCount: "workerCount (snd (handleAutoDiscoveryParse types msg now reg)) = workerCount reg"
  by (auto simp: handleAutoDiscoveryParse_def Let_def split: message.split option.split)

lemma worker_turn_result:
  assumes "ring_inv (pl_rings pl ! i)" "worker_turn types parse now i pl = Worker_ran out pl'"
  shows "\<exists>r'. ring_inv r' \<and> rg_closed r' = rg_closed (pl_rings pl ! i) \<and> pl_rings pl' = (pl_rings pl)[i := r'] \<and>
    (pl_registry pl' = pl_registry pl \<or>
     (\<exists>msg. pl_registry pl' = snd (handleAutoDiscoveryParse types msg now (pl_registry pl))))"
proof -
  obtain f q where "ring_list (pl_rings pl ! i) = f # q"
    using pop_items [OF assms(1)] assms(2)
    by (cases "ring_list (pl_rings pl ! i)") (auto simp: worker_turn_def split: if_splits)
  from pop_turn(2) [OF assms(1) this] obtain r' where
    "ring_pop (pl_rings pl ! i) = (pop_result.Returned (Some f), r')" "ring_inv r'" "rg_closed r' = rg_closed (pl_rings pl ! i)"
    by auto
  then show ?thesis
    using assms(2) by (cases "parse f") (auto simp: worker_turn_def Let_def case_prod_beta intro!: exI [of _ r'])
qed

lemma worker_turn_inv:
  assumes "pipeline_inv pl" "registry_inv (pl_registry pl)" "i < length (pl_rings pl)"
    and "worker_turn types parse now i pl = Worker_ran out pl'"
  shows "pipeline_inv pl' \<and> registry_inv (pl_registry pl')"
proof -
  obtain r' where r': "ring_inv r'" "pl_rings pl' = (pl_rings pl)[i := r']"
    and reg: "pl_registry pl' = pl_registry pl \<or>
      (\<exists>msg. pl_registry pl' = snd (handleAutoDiscoveryParse types msg now (pl_registry pl)))"
    using worker_turn_result [OF pipeline_inv_ring [OF assms(1,3)] assms(4)] by blast
  have "registry_inv (pl_registry pl')" "workerCount (pl_registry pl') = workerCount (pl_registry pl)"
    using reg assms(2) by (auto simp: inv_parse parse_workerCount)
  moreover have "pipeline_inv (pl\<lparr>pl_rings := (pl_rings pl)[i := r']\<rparr>)"
    by (rule pipeline_inv_update [OF assms(1) r'(1)])
  ultimately show ?thesis
    using r'(2) by (simp add: pipeline_inv_def registry_inv_def)
qed

lemma worker_turn_keeps:
  assumes "pipe_ok pl" "i < length (pl_rings pl)" "worker_turn types parse now i pl = Worker_ran out pl'"
  shows "pipe_ok pl' \<and> length (pl_rings pl') = length (pl_rings pl)"
proof -
  have inv: "pipeline_inv pl" "registry_inv (pl_registry pl)" "all_closed pl" using assms(1) by (simp_all add: pipe_ok_def)
  obtain r' where r': "rg_closed r' = rg_closed (pl_rings pl ! i)" "pl_rings pl' = (pl_rings pl)[i := r']"
    using worker_turn_result [OF pipeline_inv_ring [OF inv(1) assms(2)] assms(3)] by blast
  then have "all_closed pl'"
    using inv(3) assms(2) set_update_subset_insert [of "pl_rings pl" i r'] by (auto simp: all_closed_def)
  then show ?thesis
    using worker_turn_inv [OF inv(1,2) assms(2,3)] r'(2) by (simp add: pipe_ok_def)
qed

lemma worker_loop_keeps:
  "pipe_ok pl \<Longrightarrow> i < length (pl_rings pl) \<Longrightarrow> worker_loop types parse nows i pl = Some (out, pl') \<Longrightarrow>
   pipe_ok pl' \<and> length (pl_rings pl') = length (pl_rings pl)"
proof (induction nows arbitrary: pl out)
  case (Cons now nows)
  show ?case
  proof (cases "worker_turn types parse now i pl")
    case (Worker_ran out1 pl1)
    note k = worker_turn_keeps [OF Cons.prems(1,2) Worker_ran]
    obtain out2 where "worker_loop types parse nows i pl1 = Some (out2, pl')"
      using Cons.prems(3) Worker_ran by (auto split: option.splits)
    from Cons.IH [OF _ _ this] k Cons.prems(2) show ?thesis by auto
  qed (use Cons.prems in auto)
qed simp

text \<open>Everything the workers have left, shard by shard.\<close>

definition backlog :: "(bytes \<Rightarrow> message option) \<Rightarrow> (nat \<Rightarrow> int list) \<Rightarrow> nat list \<Rightarrow> pipeline \<Rightarrow> (message \<times> int) list" where
  "backlog parse clock is pl = concat (map (\<lambda>i. decoded parse (queued i pl) (clock i)) is)"

definition enough_turns :: "(nat \<Rightarrow> int list) \<Rightarrow> pipeline \<Rightarrow> bool" where
  "enough_turns clock pl \<longleftrightarrow> (\<forall>i < length (pl_rings pl). length (queued i pl) < length (clock i))"

lemma join_workers_drain:
  "pipe_ok pl \<Longrightarrow> distinct is \<Longrightarrow> (\<And>i. i \<in> set is \<Longrightarrow> i < length (pl_rings pl) \<and> length (queued i pl) < length (clock i)) \<Longrightarrow>
   \<exists>pl'. join_workers types parse clock is pl = Some (fst (handle_all types (backlog parse clock is pl) (pl_registry pl)), pl') \<and>
     pl_registry pl' = snd (handle_all types (backlog parse clock is pl) (pl_registry pl)) \<and>
     pipe_ok pl' \<and> length (pl_rings pl') = length (pl_rings pl) \<and> (\<forall>i \<in> set is. queued i pl' = []) \<and>
     (\<forall>j. j \<notin> set is \<longrightarrow> pl_rings pl' ! j = pl_rings pl ! j)"
proof (induction "is" arbitrary: pl)
  case Nil
  then show ?case by (simp add: backlog_def)
next
  case (Cons i "is")
  have i: "i < length (pl_rings pl)" "length (queued i pl) < length (clock i)" using Cons.prems(3) by auto
  have "ring_inv (pl_rings pl ! i)" "rg_closed (pl_rings pl ! i)"
    using Cons.prems(1) i(1) by (simp_all add: pipe_ok_def pipeline_inv_def all_closed_def)
  from worker_loop_drains [OF this(1) i(1) this(2) refl i(2), of types parse] obtain pl1 where
    w: "worker_loop types parse (clock i) i pl =
        Some (fst (handle_all types (decoded parse (queued i pl) (clock i)) (pl_registry pl)), pl1)"
      "pl_registry pl1 = snd (handle_all types (decoded parse (queued i pl) (clock i)) (pl_registry pl))"
      "queued i pl1 = []" "\<And>j. j \<noteq> i \<Longrightarrow> pl_rings pl1 ! j = pl_rings pl ! j" by auto
  note k = worker_loop_keeps [OF Cons.prems(1) i(1) w(1)]
  have q: "queued j pl1 = queued j pl" if "j \<in> set is" for j
    using w(4) [of j] that Cons.prems(2) by (cases "j = i") (auto simp: queued_def)
  have b: "backlog parse clock is pl1 = backlog parse clock is pl"
    unfolding backlog_def by (rule arg_cong [of _ _ concat]) (simp add: q)
  obtain pl' where
    "join_workers types parse clock is pl1 = Some (fst (handle_all types (backlog parse clock is pl1) (pl_registry pl1)), pl')"
    "pl_registry pl' = snd (handle_all types (backlog parse clock is pl1) (pl_registry pl1))"
    "pipe_ok pl'" "length (pl_rings pl') = length (pl_rings pl1)" "\<forall>i \<in> set is. queued i pl' = []"
    "\<forall>j. j \<notin> set is \<longrightarrow> pl_rings pl' ! j = pl_rings pl1 ! j"
    using Cons.IH [of pl1] k q Cons.prems(2,3) by auto
  moreover have "backlog parse clock (i # is) pl = decoded parse (queued i pl) (clock i) @ backlog parse clock is pl"
    by (simp add: backlog_def)
  moreover have "queued i pl' = []"
    using calculation(6) w(3) Cons.prems(2) by (simp add: queued_def)
  ultimately show ?case
    using w k by (auto simp: b handle_all_append)
qed

lemma close_rings_ok:
  assumes "pipeline_inv pl" "registry_inv (pl_registry pl)"
  shows "pipe_ok (close_rings pl)"
  using assms by (auto simp: pipe_ok_def close_rings_def pipeline_inv_def all_closed_def) (simp_all add: ring_close_def)

lemma queued_close_rings: "i < length (pl_rings pl) \<Longrightarrow> queued i (close_rings pl) = queued i pl"
  by (simp add: queued_def close_rings_def)

lemma stop_started:
  assumes "node_inv nd" "nd_pipelineStarted nd" "enough_turns clock (nd_pipeline nd)"
  shows "\<exists>pl'. stopAutoDiscovery types parse clock nd =
      Some (fst (handle_all types (backlog parse clock [0..<workerCount (nd_registry nd)] (nd_pipeline nd)) (nd_registry nd)),
            map snd (dl_connections (nd_dialer nd)),
            nd\<lparr>nd_isRunning := False, nd_sends := chain_cancel (nd_sends nd), nd_cleans := chain_cancel (nd_cleans nd),
              nd_socketOpen := False, nd_receiveArmed := False, nd_pipelineStarted := False, nd_workers := False,
              nd_pipeline := pl', nd_dialer := (nd_dialer nd)\<lparr>dl_connections := []\<rparr>,
              nd_sender := (nd_sender nd)\<lparr>sd_service := None\<rparr>\<rparr>) \<and>
    pl_registry pl' =
      snd (handle_all types (backlog parse clock [0..<workerCount (nd_registry nd)] (nd_pipeline nd)) (nd_registry nd)) \<and>
    pipe_ok pl' \<and> (\<forall>i < length (pl_rings pl'). queued i pl' = [])"
proof -
  let ?pl = "close_rings (nd_pipeline nd)" and ?is = "[0..<length (pl_rings (close_rings (nd_pipeline nd)))]"
  have inv: "pipeline_inv (nd_pipeline nd)" "registry_inv (pl_registry (nd_pipeline nd))" "nd_workers nd"
    using assms(1,2) by (simp_all add: node_inv_def nd_registry_def)
  have len: "length (pl_rings ?pl) = workerCount (nd_registry nd)" "pl_registry ?pl = nd_registry nd"
    using inv(1) by (simp_all add: close_rings_def pipeline_inv_def nd_registry_def)
  have b: "backlog parse clock ?is ?pl = backlog parse clock ?is (nd_pipeline nd)"
    unfolding backlog_def by (rule arg_cong [of _ _ concat]) (simp add: queued_def close_rings_def)
  have turns: "i \<in> set ?is \<Longrightarrow> i < length (pl_rings ?pl) \<and> length (queued i ?pl) < length (clock i)" for i
    using assms(3) by (simp add: enough_turns_def queued_def close_rings_def)
  obtain pl' where j: "join_workers types parse clock ?is ?pl =
        Some (fst (handle_all types (backlog parse clock ?is ?pl) (pl_registry ?pl)), pl')"
      "pl_registry pl' = snd (handle_all types (backlog parse clock ?is ?pl) (pl_registry ?pl))"
      "pipe_ok pl'" "length (pl_rings pl') = length (pl_rings ?pl)" "\<forall>i \<in> set ?is. queued i pl' = []"
    using join_workers_drain [OF close_rings_ok [OF inv(1,2)] distinct_upt turns, where types = types and parse = parse]
    by blast
  show ?thesis
    by (rule exI [of _ pl'])
      (use j inv(3) assms(2) in \<open>simp add: stopAutoDiscovery_def stopReceivePipeline_def Let_def b [unfolded len(1)] len
        stopReliableSubscriptions_def stopGrpcServer_def\<close>)
qed

lemma handled_closed:
  assumes "pipe_ok pl" "handleReceivedDatagram parse mem buf n pl = Handled pl'"
  shows "pl' = pl"
  using handled_target [OF assms(2)] assms(1) by (auto simp: pipe_ok_def all_closed_def)

section \<open>Runs of the chains\<close>

definition runs :: "chain \<Rightarrow> nat" where
  "runs ch = ch_posted ch + ch_sending ch + ch_waiting ch"

text \<open>What the strand does while nobody calls start or stop.\<close>

inductive strand_step :: "node \<Rightarrow> node \<Rightarrow> bool" where
  st_send: "0 < ch_posted (nd_sends nd) \<Longrightarrow> strand_step nd (snd (sender_run ser ifa nd))"
| st_sent: "0 < ch_sending (nd_sends nd) \<Longrightarrow> strand_step nd (sender_sent nd)"
| st_send_timer: "0 < ch_waiting (nd_sends nd) \<Longrightarrow> strand_step nd (nd\<lparr>nd_sends := chain_fire (nd_sends nd)\<rparr>)"
| st_clean: "0 < ch_posted (nd_cleans nd) \<Longrightarrow> strand_step nd (snd (cleaner_run now nd))"
| st_clean_timer: "0 < ch_waiting (nd_cleans nd) \<Longrightarrow> strand_step nd (nd\<lparr>nd_cleans := chain_fire (nd_cleans nd)\<rparr>)"

lemmas chain_defs = chain_post_def chain_cancel_def chain_rearm_def chain_fire_def runs_def

lemma sender_run_fields [simp]:
  "nd_cleans (snd (sender_run ser ifa nd)) = nd_cleans nd" "nd_dialer (snd (sender_run ser ifa nd)) = nd_dialer nd"
  "nd_sends (snd (sender_run ser ifa nd)) =
     (nd_sends nd)\<lparr>ch_posted := ch_posted (nd_sends nd) - 1, ch_sending := Suc (ch_sending (nd_sends nd))\<rparr>"
  by (simp_all add: sender_run_def Let_def)

lemma cleaner_run_fields [simp]:
  "nd_sends (snd (cleaner_run now nd)) = nd_sends nd"
  "nd_cleans (snd (cleaner_run now nd)) = chain_rearm ((nd_cleans nd)\<lparr>ch_posted := ch_posted (nd_cleans nd) - 1\<rparr>)"
  by (simp_all add: cleaner_run_def set_registry_def case_prod_beta)

text \<open>A chain neither starts nor ends by itself.\<close>

lemma strand_step_runs:
  "strand_step nd nd' \<Longrightarrow>
   (0 < runs (nd_sends nd') \<longleftrightarrow> 0 < runs (nd_sends nd)) \<and> (0 < runs (nd_cleans nd') \<longleftrightarrow> 0 < runs (nd_cleans nd)) \<and>
   (runs (nd_cleans nd) = 0 \<longrightarrow> nd_dialer nd' = nd_dialer nd)"
  by (induction rule: strand_step.induct) (auto simp: chain_defs sender_sent_def)

lemma strand_runs:
  "strand_step\<^sup>*\<^sup>* nd nd' \<Longrightarrow>
   (0 < runs (nd_sends nd') \<longleftrightarrow> 0 < runs (nd_sends nd)) \<and> (0 < runs (nd_cleans nd') \<longleftrightarrow> 0 < runs (nd_cleans nd)) \<and>
   (runs (nd_cleans nd) = 0 \<longrightarrow> nd_dialer nd' = nd_dialer nd)"
proof (induction rule: rtranclp_induct)
  case (step nd' nd'')
  then show ?case using strand_step_runs [OF step.hyps(2)] by auto
qed simp

lemma stop_fields:
  assumes "stopAutoDiscovery types parse clock nd = Some (out, retired, nd')"
  shows "nd_sends nd' = chain_cancel (nd_sends nd)" "nd_cleans nd' = chain_cancel (nd_cleans nd)"
    "dl_connections (nd_dialer nd') = []" "retired = map snd (dl_connections (nd_dialer nd))"
    "nd_socketOpen nd' = False" "nd_isRunning nd' = False" "sd_service (nd_sender nd') = None"
    "nd_pipelineStarted nd' = False" "nd_receiveArmed nd' = False"
    "nd_subscribed nd' = nd_subscribed nd" "nd_rx nd' = nd_rx nd"
  using assms
  by (auto simp: stopAutoDiscovery_def stopReceivePipeline_def stopReliableSubscriptions_def stopGrpcServer_def Let_def
    split: option.splits if_splits)

section \<open>Claims\<close>

text \<open>
  The advertised endpoints are the configured addresses and then the unicast addresses of
  the interfaces, empty ones left out, each once at its first place, cut at the configured
  maximum; every one carries the gRPC port and transport.
\<close>
theorem self_endpoints_exact:
  "buildSelfEndpoints c ifa =
     map (\<lambda>a. \<lparr>ep_address = a, ep_port = ucast (cf_grpcPort c), ep_transport = GRPC_TCP\<rparr>)
       (take (unat (cf_maxAdvertisedEndpoints c))
         (firsts (filter (\<lambda>a. a \<noteq> []) (cf_advertiseAddresses c @ discoverLocalUnicastIpv4 ifa))))"
  unfolding buildSelfEndpoints_fold fold_append_endpoint self_endpoint_def ..



text \<open>A node with one frame queued, a connection, and both chains waiting for their timers.\<close>

definition quiet_chain :: chain where
  "quiet_chain = \<lparr>ch_posted = 0, ch_sending = 0, ch_waiting = 1\<rparr>"

definition busy_node :: "chain \<Rightarrow> chain \<Rightarrow> node" where
  "busy_node sends cleans =
     \<lparr>nd_pipeline = \<lparr>pl_registry = peer_at ''h'', pl_rings = [publish [1] (new_ring 4)], pl_kernelDropped = 0\<rparr>,
      nd_rx = no_windows, nd_sender = new_sender,
      nd_dialer = start_connection (SubscriberKey 2 0 22) [''h:7''] no_connections, nd_subscribed = t_topics,
      nd_endpoints = [], nd_isRunning = True, nd_socketOpen = True, nd_receiveArmed = True,
      nd_pipelineStarted = True, nd_workers = True, nd_sends = sends, nd_cleans = cleans\<rparr>"

lemma peer_at_inv: "registry_inv (peer_at a)" "workerCount (peer_at a) = 1"
proof -
  show "registry_inv (peer_at a)"
    by (simp add: peer_at_def inv_announce inv_heartbeat fresh_registry_inv small_pid_def)
  show "workerCount (peer_at a) = 1"
    by (simp add: peer_at_def handleTopicAnnouncement_def handleParticipantHeartbeat_def Let_def split: option.split)
qed

lemma one_frame: "ring_inv (publish [1] (new_ring 4) :: bytes spsc_ring)"
  "ring_list (publish [1] (new_ring 4) :: bytes spsc_ring) = [[1]]"
proof -
  have new: "ring_inv (new_ring 4 :: bytes spsc_ring)" by (simp add: new_ring_inv)
  then show "ring_inv (publish [1] (new_ring 4) :: bytes spsc_ring)" by (rule publish_inv)
  show "ring_list (publish [1] (new_ring 4) :: bytes spsc_ring) = [[1]]"
    using publish_open(4) [OF new, of "[1]"] by (simp add: lmo_publish_def)
qed

lemma busy_node_inv: "node_inv (busy_node sends cleans)"
  using one_frame(1) peer_at_inv [of "''h''"]
  by (simp add: node_inv_def busy_node_def nd_registry_def pipeline_inv_def registry_inv_def no_connections_inv
    dialer_inv_start sender_inv_def new_sender_def)

lemma busy_node_turns: "enough_turns (\<lambda>_. [5, 6]) (nd_pipeline (busy_node sends cleans))"
  using one_frame(2) by (simp add: enough_turns_def busy_node_def queued_def)

lemma busy_node_started: "nd_pipelineStarted (busy_node sends cleans)"
  by (simp add: busy_node_def)

lemma busy_node_stops:
  "\<exists>nd'. stopAutoDiscovery (\<lambda>_. Some Some) (\<lambda>_. Some Content_not_set) (\<lambda>_. [5, 6]) (busy_node sends cleans) =
     Some ([], [\<lparr>cn_id = 0, cn_candidates = [''h:7''], cn_connected = []\<rparr>], nd')"
proof -
  let ?nd = "busy_node sends cleans"
  have "fst (handle_all (\<lambda>_. Some Some) (backlog (\<lambda>_. Some Content_not_set) (\<lambda>_. [5, 6]) [0..<workerCount (nd_registry ?nd)]
      (nd_pipeline ?nd)) (nd_registry ?nd)) = []"
    using one_frame(2) peer_at_inv(2) [of "''h''"]
    by (simp add: backlog_def busy_node_def nd_registry_def queued_def handleAutoDiscoveryParse_def)
  moreover have "map snd (dl_connections (nd_dialer ?nd)) = [\<lparr>cn_id = 0, cn_candidates = [''h:7''], cn_connected = []\<rparr>]"
    by (simp add: busy_node_def start_connection_def no_connections_def)
  ultimately show ?thesis
    using stop_started [OF busy_node_inv busy_node_started busy_node_turns, of "\<lambda>_. Some Some"
        "\<lambda>_. Some Content_not_set" sends cleans] by auto
qed


text \<open>
  Starting again after a stop gives a node that reports that it runs but neither receives
  nor sends: its rings stay closed, so that no datagram is ever queued, the receive is not armed
  and the closed socket drops every heartbeat.
\<close>
theorem restart_is_dead:
  assumes "node_inv nd" "nd_pipelineStarted nd" "enough_turns clock (nd_pipeline nd)"
    and "stopAutoDiscovery types parse clock nd = Some (out, retired, nd')"
  shows "let nd'' = startAutoDiscovery built nd' in
    nd_isRunning nd'' \<and> nd_pipelineStarted nd'' \<and> \<not> nd_receiveArmed nd'' \<and> all_closed (nd_pipeline nd'') \<and>
    (case handleReceivedDatagram parse mem buf n (nd_pipeline nd'') of Handled pl \<Rightarrow> pl = nd_pipeline nd'' | _ \<Rightarrow> True) \<and>
    fst (sender_run ser ifa nd'') = []"
proof -
  obtain pl' where "nd_pipeline nd' = pl'" "pipe_ok pl'"
    using stop_started [OF assms(1-3), of types parse] assms(4) by auto
  moreover note stop_fields [OF assms(4)]
  moreover have "nd_pipeline (startAutoDiscovery built nd') = nd_pipeline nd'"
    by (simp add: startAutoDiscovery_def initializeAutoDiscovery_def startReceivePipeline_def startGrpcServer_def Let_def
      split: option.split)
  moreover have "nd_isRunning (startAutoDiscovery built nd')" "nd_pipelineStarted (startAutoDiscovery built nd')"
    "\<not> nd_receiveArmed (startAutoDiscovery built nd')" "\<not> nd_socketOpen (startAutoDiscovery built nd')"
    using stop_fields [OF assms(4)]
    by (simp_all add: startAutoDiscovery_def initializeAutoDiscovery_def startReceivePipeline_def startGrpcServer_def Let_def
      split: option.split)
  ultimately show ?thesis
    using handled_closed [of "nd_pipeline (startAutoDiscovery built nd')" parse mem buf n]
    by (auto simp: Let_def sender_run_def pipe_ok_def split: received.split)
qed

theorem restart_is_dead_witness:
  "\<exists>nd'. stopAutoDiscovery (\<lambda>_. Some Some) (\<lambda>_. Some Content_not_set) (\<lambda>_. [5, 6]) (busy_node quiet_chain quiet_chain) =
     Some ([], [\<lparr>cn_id = 0, cn_candidates = [''h:7''], cn_connected = []\<rparr>], nd') \<and>
     nd_isRunning (startAutoDiscovery True nd') \<and> fst (sender_run (\<lambda>_. [1]) None (startAutoDiscovery True nd')) = []"
proof -
  obtain nd' where s: "stopAutoDiscovery (\<lambda>_. Some Some) (\<lambda>_. Some Content_not_set) (\<lambda>_. [5, 6]) (busy_node quiet_chain quiet_chain) =
      Some ([], [\<lparr>cn_id = 0, cn_candidates = [''h:7''], cn_connected = []\<rparr>], nd')"
    using busy_node_stops by blast
  from restart_is_dead [OF busy_node_inv busy_node_started busy_node_turns s, of True _ _ _ "\<lambda>_. [1]" None] s
  show ?thesis by (auto simp: Let_def)
qed

text \<open>
  C40. What \<open>stopAutoDiscovery\<close> does not stop. A heartbeat or cleanup run that is posted to the
  strand, or a heartbeat whose send is not completed, survives the call, and its chain then never
  ends; if there is none, both chains are over for good and no connection appears again. A
  surviving cleanup run dials all needed publishers again on the stopped node.
\<close>
theorem stop_misses_posted_runs:
  assumes "stopAutoDiscovery types parse clock nd = Some (out, retired, nd')" and "strand_step\<^sup>*\<^sup>* nd' nd''"
    and "dialer_inv (nd_dialer nd)"
  shows "(0 < runs (nd_sends nd'') \<longleftrightarrow> 0 < ch_posted (nd_sends nd) + ch_sending (nd_sends nd)) \<and>
    (0 < runs (nd_cleans nd'') \<longleftrightarrow> 0 < ch_posted (nd_cleans nd) + ch_sending (nd_cleans nd)) \<and>
    (ch_posted (nd_cleans nd) + ch_sending (nd_cleans nd) = 0 \<longrightarrow> dl_connections (nd_dialer nd'') = []) \<and>
    dom (map_of (dl_connections (nd_dialer (snd (cleaner_run now nd'))))) =
      fst ` set (dial_targets (cleaned now (nd_registry nd')) (nd_subscribed nd))"
proof -
  note f = stop_fields [OF assms(1)]
  have r: "runs (chain_cancel ch) = ch_posted ch + ch_sending ch" for ch by (simp add: chain_defs)
  have "dialer_inv (nd_dialer nd')" using f(3) by (simp add: dialer_inv_def)
  from reconcile_targets [OF this prod.collapse [symmetric]]
  have "dom (map_of (dl_connections (nd_dialer (snd (cleaner_run now nd'))))) =
      fst ` set (dial_targets (cleaned now (nd_registry nd')) (nd_subscribed nd))"
    by (simp add: cleaner_run_def cleanup_eq f(10) case_prod_beta)
  then show ?thesis using strand_runs [OF assms(2)] f(1-3) by (simp add: r)
qed

theorem stop_misses_posted_runs_witness:
  "\<exists>nd'. stopAutoDiscovery (\<lambda>_. Some Some) (\<lambda>_. Some Content_not_set) (\<lambda>_. [5, 6])
       (busy_node (chain_post no_chain) (chain_post no_chain)) = Some ([], [\<lparr>cn_id = 0, cn_candidates = [''h:7''], cn_connected = []\<rparr>], nd') \<and>
     0 < runs (nd_sends nd') \<and> 0 < runs (nd_cleans nd')"
proof -
  let ?nd = "busy_node (chain_post no_chain) (chain_post no_chain)"
  obtain nd' where s: "stopAutoDiscovery (\<lambda>_. Some Some) (\<lambda>_. Some Content_not_set) (\<lambda>_. [5, 6]) ?nd =
      Some ([], [\<lparr>cn_id = 0, cn_candidates = [''h:7''], cn_connected = []\<rparr>], nd')"
    using busy_node_stops by blast
  have "dialer_inv (nd_dialer ?nd)" using busy_node_inv by (simp add: node_inv_def)
  from stop_misses_posted_runs [OF s rtranclp.rtrancl_refl this] s show ?thesis
    by (auto simp: busy_node_def chain_post_def no_chain_def)
qed

section \<open>Discovering a publisher\<close>

definition advertised :: "string \<Rightarrow> string \<Rightarrow> bool \<Rightarrow> registry \<Rightarrow> message" where
  "advertised tn mt reliable peer = Content_advertisement (self_advertisement tn mt True reliable peer)"

text \<open>The key under which a peer is dialed.\<close>

definition peer_key :: "registry \<Rightarrow> SubscriberKey" where
  "peer_key peer = SubscriberKey (ucast (p_pid (reg_self peer))) (p_tid (reg_self peer)) (own_uid peer)"

lemma ucast_small [simp]: "ucast (ucast (x :: u32) :: u64) = x"
  by (rule bit_word_eqI) (auto simp: bit_ucast_iff dest: bit_imp_le_length)

lemma heartbeat_find:
  assumes "has_shards reg" "uid \<noteq> own_uid reg"
  shows "\<exists>p. find_participant (handleParticipantHeartbeat pid tid uid eps now reg) uid = Some p \<and> p_endpoints p = eps"
    and "find_topic (handleParticipantHeartbeat pid tid uid eps now reg) = find_topic reg"
  using assms by (auto simp: handleParticipantHeartbeat_def own_uid_def find_after_put split: option.split)

lemma announce_find:
  assumes "has_shards reg" "uid \<noteq> own_uid reg"
  shows "find_participant (handleTopicAnnouncement pid tid uid tn mt isPub now reg) = find_participant reg"
    and "\<exists>e. find_topic (handleTopicAnnouncement pid tid uid tn mt True now reg) (makeCompositeKey tn mt) = Some e \<and>
      (\<exists>p. map_of (te_publishers e) (pid, tid, uid) = Some p)"
  using assms
  by (auto simp: handleTopicAnnouncement_def own_uid_def Let_def TopicInfo_def find_after_put ps_insert_def p_key_def
    new_participant_def)

lemma publisher_targets_uid:
  assumes "registry_inv reg" "(k, cs) \<in> set (publisher_targets reg topicKey)"
  shows "\<exists>p. find_participant reg (sk_uid k) = Some p \<and> p_endpoints p \<noteq> [] \<and> cs = endpointCandidates (p_endpoints p)"
  using assms(2)
  by (auto simp: publisher_targets_def sub_key_def Let_def split: option.splits if_splits)

lemma publisher_targets_known:
  assumes "registry_inv reg" "find_topic reg topicKey = Some e" "map_of (te_publishers e) (pid, tid, uid) = Some q"
    and "find_participant reg uid = Some p" "p_endpoints p \<noteq> []"
  shows "(SubscriberKey (ucast pid) tid uid, endpointCandidates (p_endpoints p)) \<in> set (publisher_targets reg topicKey)"
proof -
  have q: "((pid, tid, uid), q) \<in> set (te_publishers e)" using assms(3) by (rule map_of_SomeD)
  then have "p_key q = (pid, tid, uid)"
    using inv_find(2) [OF assms(1,2)] by (auto simp: entry_ok_def peers_ok_def)
  then have "sub_key q = SubscriberKey (ucast pid) tid uid" "p_uid q = uid"
    by (simp_all add: sub_key_def p_key_def)
  then show ?thesis
    using q assms(2,4,5) by (force simp: publisher_targets_def Let_def)
qed

text \<open>
  C24. A subscriber that hears a peer advertise a reliable topic and then its heartbeat dials that
  peer, under its identity and with exactly the endpoints of the heartbeat. Between the two it
  does not: an advertisement carries no endpoints and overwrites the known ones with none, so a
  reconciliation between an advertisement and the next heartbeat finds no publisher target under the
  peer's uid on any topic, and drops a working connection to it.
\<close>
theorem publisher_discovery:
  assumes "registry_inv reg" "own_uid peer \<noteq> own_uid reg" "finite subscribed" "makeCompositeKey tn mt \<in> subscribed"
  shows "let reg1 = snd (handleAutoDiscoveryParse types (advertised tn mt reliable peer) now reg);
        reg2 = snd (handleAutoDiscoveryParse types (Content_identifier ((self_identifier peer)\<lparr>id_endpoints := eps\<rparr>)) now' reg1)
    in (own_uid peer \<notin> sk_uid ` fst ` set (concat (map (publisher_targets reg1) topics))) \<and>
       (eps = [] \<or> (peer_key peer, endpointCandidates eps) \<in> set (dial_targets reg2 subscribed))"
proof -
  let ?uid = "own_uid peer" and ?pid = "ucast (ucast (p_pid (reg_self peer)) :: u32) :: u64" and ?tid = "p_tid (reg_self peer)"
  let ?reg0 = "handleParticipantHeartbeat ?pid ?tid ?uid [] now reg"
  let ?reg1 = "snd (handleAutoDiscoveryParse types (advertised tn mt reliable peer) now reg)"
  let ?reg2 = "snd (handleAutoDiscoveryParse types (Content_identifier ((self_identifier peer)\<lparr>id_endpoints := eps\<rparr>)) now' ?reg1)"
  have shards: "has_shards reg" using assms(1) by (simp add: registry_inv_def)
  have r1: "?reg1 = handleTopicAnnouncement ?pid ?tid ?uid tn mt True now ?reg0"
    by (simp add: handleAutoDiscoveryParse_def advertised_def self_advertisement_def self_identifier_def Let_def own_uid_def)
  have r2: "?reg2 = handleParticipantHeartbeat ?pid ?tid ?uid eps now' ?reg1"
    by (simp add: handleAutoDiscoveryParse_def self_identifier_def own_uid_def)
  have inv1: "registry_inv ?reg1" and inv2: "registry_inv ?reg2" using assms(1) by (simp_all add: inv_parse)
  have own: "has_shards ?reg0" "own_uid ?reg0 = own_uid reg" "has_shards ?reg1" "own_uid ?reg1 = own_uid reg"
    using shards by simp_all (simp add: own_uid_def)
  have u0: "?uid \<noteq> own_uid ?reg0" using assms(2) own(2) by simp
  obtain p0 where "find_participant ?reg0 ?uid = Some p0" "p_endpoints p0 = []"
    using heartbeat_find(1) [OF shards assms(2)] by blast
  then have p1: "find_participant ?reg1 ?uid = Some p0" "p_endpoints p0 = []"
    using announce_find(1) [OF own(1)] assms(2) own(2) by (simp_all add: r1)
  have none: "?uid \<notin> sk_uid ` fst ` set (concat (map (publisher_targets ?reg1) topics))"
    using publisher_targets_uid [OF inv1] p1 by fastforce
  obtain e q where e: "find_topic ?reg1 (makeCompositeKey tn mt) = Some e" "map_of (te_publishers e) (?pid, ?tid, ?uid) = Some q"
    using announce_find(2) [OF own(1) u0] unfolding r1 by blast
  have u1: "?uid \<noteq> own_uid ?reg1" using assms(2) own(4) by simp
  obtain p2 where p2: "find_participant ?reg2 ?uid = Some p2" "p_endpoints p2 = eps"
    using heartbeat_find(1) [OF own(3) u1] unfolding r2 by blast
  have e2: "find_topic ?reg2 (makeCompositeKey tn mt) = Some e"
    using heartbeat_find(2) [OF own(3) u1] e(1) by (simp only: r2)
  have "eps \<noteq> [] \<Longrightarrow> (peer_key peer, endpointCandidates eps) \<in> set (publisher_targets ?reg2 (makeCompositeKey tn mt))"
    using publisher_targets_known [OF inv2 e2 e(2) p2(1)] p2(2) by (simp add: peer_key_def)
  then have "eps \<noteq> [] \<Longrightarrow> (peer_key peer, endpointCandidates eps) \<in> set (dial_targets ?reg2 subscribed)"
    using assms(3,4) by (auto simp: dial_targets_def)
  with none show ?thesis by (auto simp: Let_def)
qed

definition publishing_peer :: registry where
  "publishing_peer = (fresh_registry 1)\<lparr>reg_self := new_participant 2 0 22 0 0\<rparr>"

theorem publisher_discovery_witness:
  "(SubscriberKey 2 0 22, [''h:7'']) \<in> set (dial_targets
     (snd (handleAutoDiscoveryParse (\<lambda>_. Some Some) (Content_identifier ((self_identifier publishing_peer)
            \<lparr>id_endpoints := [\<lparr>ep_address = ''h'', ep_port = 7, ep_transport = GRPC_TCP\<rparr>]\<rparr>)) 1
       (snd (handleAutoDiscoveryParse (\<lambda>_. Some Some) (advertised ''t'' ''M'' True publishing_peer) 0 (fresh_registry 1)))))
     t_topics)"
proof -
  have "registry_inv (fresh_registry 1)" by (simp add: fresh_registry_inv)
  moreover have "own_uid publishing_peer \<noteq> own_uid (fresh_registry 1)"
    by (simp add: publishing_peer_def) (simp add: own_uid_def new_participant_def)
  moreover have "finite t_topics" "makeCompositeKey ''t'' ''M'' \<in> t_topics" by (simp_all add: t_topics_def)
  moreover have "peer_key publishing_peer = SubscriberKey 2 0 22"
    "endpointCandidates [\<lparr>ep_address = ''h'', ep_port = 7, ep_transport = GRPC_TCP\<rparr>] = [''h:7'']"
    by code_simp+
  ultimately show ?thesis
    using publisher_discovery [of "fresh_registry 1" publishing_peer t_topics "''t''" "''M''" "\<lambda>_. Some Some" True 0
        "[\<lparr>ep_address = ''h'', ep_port = 7, ep_transport = GRPC_TCP\<rparr>]" 1]
    by (simp add: Let_def)
qed

end
