(* ===== verification/Edriel_System.thy ===== *)
theory Edriel_System
  imports Edriel_Node
begin

text \<open>
  Everything that can happen to a node, as one step relation over the operations of the other
  theories: calls of the public interface, datagrams, worker turns, strand runs, gRPC callbacks,
  and what the threads of the dialed connections do. The invariants of the components are shown
  to hold together in every reachable state, whatever the order of the steps.
\<close>

section \<open>Steps of a node\<close>

text \<open>
  Decoded payloads are bytes here. A receive handler that never returns, or throws, takes no
  further step. \<open>ns_endpoint\<close> is a connection's thread entering or leaving a candidate.
  Operations that take several locks appear as wholes and as their critical sections, so
  that the steps of other threads may fall between these: \<open>ns_pop\<close> is a worker that has taken a frame and not
  handled it yet, \<open>ns_section\<close> any section on the registry (of a worker, of the cleanup, of a registration),
  \<open>ns_prune\<close> the last section of the cleanup, and the loop \<open>fan\<close> of a send lets other threads run
  between its pushes.
\<close>

inductive node_step :: "node \<Rightarrow> node \<Rightarrow> bool" where
  ns_start: "node_step nd (startAutoDiscovery built nd)"
| ns_stop: "stopAutoDiscovery (types :: string \<Rightarrow> (bytes \<Rightarrow> bytes option) option) parse clock nd = Some (out, retired, nd') \<Longrightarrow>
     node_step nd nd'"
| ns_strand: "strand_step nd nd' \<Longrightarrow> node_step nd nd'"
| ns_receive: "nd_receiveArmed nd \<Longrightarrow>
     on_receive parse buf ec (nd_isRunning nd) d ds (nd_pipeline nd) = (Handled pl, again) \<Longrightarrow>
     node_step nd (nd\<lparr>nd_pipeline := pl, nd_receiveArmed := again\<rparr>)"
| ns_worker: "nd_workers nd \<Longrightarrow> i < workerCount (nd_registry nd) \<Longrightarrow>
     worker_turn (types :: string \<Rightarrow> (bytes \<Rightarrow> bytes option) option) parse now i (nd_pipeline nd) = Worker_ran out pl \<Longrightarrow>
     node_step nd (nd\<lparr>nd_pipeline := pl\<rparr>)"
| ns_pop: "nd_workers nd \<Longrightarrow> i < workerCount (nd_registry nd) \<Longrightarrow>
     ring_pop (pl_rings (nd_pipeline nd) ! i) = (pop_result.Returned frame, ring) \<Longrightarrow>
     node_step nd (nd\<lparr>nd_pipeline := (nd_pipeline nd)\<lparr>pl_rings := (pl_rings (nd_pipeline nd))[i := ring]\<rparr>\<rparr>)"
| ns_section: "registry_step (nd_registry nd) reg \<Longrightarrow> node_step nd (set_registry reg nd)"
| ns_prune: "node_step nd (nd\<lparr>nd_rx := prune_windows stale (nd_rx nd)\<rparr>)"
| ns_publisher: "registerPublisherTopic announce tn mt rel (nd_registry nd) = (ok, reg) \<Longrightarrow> node_step nd (set_registry reg nd)"
| ns_unpublish: "unregisterPublisherTopic tn mt (nd_registry nd) = (ok, reg) \<Longrightarrow> node_step nd (set_registry reg nd)"
| ns_subscriber: "registerSubscriberTopic announce tn mt rel (nd_registry nd) (nd_subscribed nd) = (ok, reg, subs) \<Longrightarrow>
     node_step nd ((set_registry reg nd)\<lparr>nd_subscribed := subs\<rparr>)"
| ns_callback: "registerSubscriberTopic_callback announce tn mt fn rel (nd_registry nd) (nd_subscribed nd) = (ok, reg, subs) \<Longrightarrow>
     node_step nd ((set_registry reg nd)\<lparr>nd_subscribed := subs\<rparr>)"
| ns_subscribe: "subscribe tn mt fn (nd_registry nd) = (ok, reg) \<Longrightarrow> node_step nd (set_registry reg nd)"
| ns_unsubscribe: "unregisterSubscriberTopic tn mt (nd_registry nd) (nd_subscribed nd) = (ok, reg, subs) \<Longrightarrow>
     node_step nd ((set_registry reg nd)\<lparr>nd_subscribed := subs\<rparr>)"
| ns_publish: "fan_keeps fan \<Longrightarrow> publish_with fan serialize tn mt payload now (nd_registry nd) (nd_sender nd) = (res, deliv, calls, sd) \<Longrightarrow>
     node_step nd (nd\<lparr>nd_sender := sd\<rparr>)"
| ns_service: "sd_service (nd_sender nd) = Some sv \<Longrightarrow> service_step sv sv' \<Longrightarrow>
     node_step nd (nd\<lparr>nd_sender := (nd_sender nd)\<lparr>sd_service := Some sv'\<rparr>\<rparr>)"
| ns_reconcile: "reconcileReliableConnections (nd_registry nd) (nd_subscribed nd) (nd_dialer nd) = (retired, dl) \<Longrightarrow>
     node_step nd (nd\<lparr>nd_dialer := dl\<rparr>)"
| ns_endpoint: "map_of (dl_connections (nd_dialer nd)) k = Some c \<Longrightarrow> e = [] \<or> e \<in> set (cn_candidates c) \<Longrightarrow>
     node_step nd (nd\<lparr>nd_dialer := (nd_dialer nd)\<lparr>dl_connections :=
       om_put k (c\<lparr>cn_connected := e\<rparr>) (dl_connections (nd_dialer nd))\<rparr>\<rparr>)"
| ns_events: "node_step nd (nd\<lparr>nd_rx := snd (node_events decode uid es (nd_rx nd))\<rparr>)"

definition node_start :: "node \<Rightarrow> bool" where
  "node_start nd \<longleftrightarrow> (\<exists>yamlLoad content ifa pid rd now. nd = new_node (loadConfig yamlLoad content) ifa pid rd now)"

section \<open>The invariant\<close>

definition endpoints_ok :: "dialer \<Rightarrow> bool" where
  "endpoints_ok dl \<longleftrightarrow> (\<forall>k c. map_of (dl_connections dl) k = Some c \<longrightarrow>
     cn_connected c = [] \<or> cn_connected c \<in> set (cn_candidates c))"

definition flags_ok :: "node \<Rightarrow> bool" where
  "flags_ok nd \<longleftrightarrow> (nd_workers nd \<longleftrightarrow> nd_pipelineStarted nd) \<and>
     (nd_receiveArmed nd \<longrightarrow> nd_socketOpen nd \<and> nd_pipelineStarted nd) \<and>
     (nd_isRunning nd \<longrightarrow> nd_pipelineStarted nd)"

definition system_inv :: "node \<Rightarrow> bool" where
  "system_inv nd \<longleftrightarrow> node_inv nd \<and> rx_inv (nd_rx nd) \<and> finite (nd_subscribed nd) \<and>
     endpoints_ok (nd_dialer nd) \<and> flags_ok nd"

subsection \<open>Windows\<close>

lemma rx_inv_note: "rx_inv st \<Longrightarrow> rx_inv (noteReliableStreamEstablished u st)"
  by (auto simp: rx_inv_def noteReliableStreamEstablished_def window_at_def map_of_reset_publisher
    split: option.splits) (auto simp: reset_window_def new_window_def split: if_splits)

lemma rx_inv_prune:
  assumes "rx_inv st"
  shows "rx_inv (prune_windows stale st)"
proof -
  have ok: "om_ok (reliableWindows st)" using assms by (simp add: rx_inv_def)
  have "window_at (prune_windows stale st) k = window_at st k \<or> window_at (prune_windows stale st) k = new_window" for k
    by (auto simp: window_at_def prune_windows_def map_of_filter_om [OF ok] split: option.split)
  moreover have "om_ok (reliableWindows (prune_windows stale st))"
    using ok by (simp add: prune_windows_def)
  ultimately show ?thesis
    using assms unfolding rx_inv_def by (metis window_inv_new empty_iff image_empty list.set(1) new_window_def rx_window.select_convs(2))
qed

lemma rx_inv_events: "rx_inv st \<Longrightarrow> rx_inv (snd (node_events decode uid es st))"
proof (induction es arbitrary: st)
  case (Cons e es)
  then show ?case
    by (cases e) (auto simp: rx_inv_note handleReliableDataFrame_def case_prod_beta split: option.split intro: rx_inv_receive)
qed simp

subsection \<open>The pipeline\<close>

lemma handled_inv:
  assumes "pipeline_inv pl" "handleReceivedDatagram parse mem buf n pl = Handled pl'"
  shows "pipeline_inv pl' \<and> pl_registry pl' = pl_registry pl"
  using handled_target [OF assms(2,1)] assms(1) publish_at_inv by fastforce

lemma note_overruns_inv [simp]:
  "pipeline_inv (note_overruns drops pl) = pipeline_inv pl" "pl_registry (note_overruns drops pl) = pl_registry pl"
  by (simp_all add: note_overruns_def pipeline_inv_def)

lemma drain_socket_inv:
  "pipeline_inv pl \<Longrightarrow> drain_socket parse buf ds pl = Handled pl' \<Longrightarrow> pipeline_inv pl' \<and> pl_registry pl' = pl_registry pl"
proof (induction ds arbitrary: pl)
  case (Cons d ds)
  show ?case
  proof (cases "dg_len d = 0")
    case False
    then obtain pl1 where h: "handleReceivedDatagram parse (dg_mem d) buf (dg_len d) (note_overruns (dg_ovfl d) pl) = Handled pl1"
      "drain_socket parse buf ds pl1 = Handled pl'" using Cons.prems(2) by (auto split: received.splits)
    from handled_inv [OF _ h(1)] Cons.prems(1) Cons.IH [OF _ h(2)] show ?thesis by simp
  qed (use Cons.prems in simp)
qed simp

lemma on_receive_inv:
  assumes "pipeline_inv pl" "on_receive parse buf ec running d ds pl = (Handled pl', again)"
  shows "pipeline_inv pl' \<and> pl_registry pl' = pl_registry pl \<and> (again \<longrightarrow> running)"
proof (cases ec)
  case False
  then obtain pl1 where h: "handleReceivedDatagram parse (dg_mem d) buf (dg_len d) pl = Handled pl1"
    "drain_socket parse buf ds pl1 = Handled pl'" "again = running"
    using assms(2) by (auto simp: on_receive_def split: received.splits)
  from handled_inv [OF assms(1) h(1)] drain_socket_inv [OF _ h(2)] h(3) show ?thesis by simp
qed (use assms in \<open>simp add: on_receive_def\<close>)

subsection \<open>The registry\<close>

lemma erase_topic_workers [simp]: "workerCount (erase_topic k reg) = workerCount reg"
  by (simp add: erase_topic_def)

lemma register_entry_same [simp]:
  "workerCount (register_entry tn mt rel reg) = workerCount reg" "workerCount (push_callback k cb reg) = workerCount reg"
  by (simp_all add: register_entry_def push_callback_def Let_def)

lemma registry_step_workers: "registry_step reg reg' \<Longrightarrow> workerCount reg' = workerCount reg"
  by (induction rule: registry_step.induct)
    (auto simp: parse_workerCount cleanup_eq ageParticipant_def registerPublisherTopic_def
      unregisterPublisherTopic_def registerSubscriberTopic_def registerSubscriberTopic_callback_def subscribe_def
      unregisterSubscriberTopic_def Let_def split: option.split)

lemma set_registry_fields [simp]:
  "nd_registry (set_registry reg nd) = reg" "nd_pipeline (set_registry reg nd) = (nd_pipeline nd)\<lparr>pl_registry := reg\<rparr>"
  "nd_rx (set_registry reg nd) = nd_rx nd" "nd_sender (set_registry reg nd) = nd_sender nd"
  "nd_dialer (set_registry reg nd) = nd_dialer nd" "nd_subscribed (set_registry reg nd) = nd_subscribed nd"
  "nd_isRunning (set_registry reg nd) = nd_isRunning nd" "nd_socketOpen (set_registry reg nd) = nd_socketOpen nd"
  "nd_receiveArmed (set_registry reg nd) = nd_receiveArmed nd"
  "nd_pipelineStarted (set_registry reg nd) = nd_pipelineStarted nd" "nd_workers (set_registry reg nd) = nd_workers nd"
  by (simp_all add: set_registry_def nd_registry_def)

lemma pipeline_inv_registry:
  "pipeline_inv pl \<Longrightarrow> registry_inv reg \<Longrightarrow> workerCount reg = workerCount (pl_registry pl) \<Longrightarrow>
   pipeline_inv (pl\<lparr>pl_registry := reg\<rparr>)"
  by (simp add: pipeline_inv_def registry_inv_def)

lemma system_inv_registry:
  assumes "system_inv nd" "registry_step (nd_registry nd) reg" "finite subs"
  shows "system_inv (set_registry reg nd)" "system_inv ((set_registry reg nd)\<lparr>nd_subscribed := subs\<rparr>)"
proof -
  have "registry_inv reg" "workerCount reg = workerCount (pl_registry (nd_pipeline nd))"
    using registry_inv_step [OF assms(2)] registry_step_workers [OF assms(2)] assms(1)
    by (simp_all add: system_inv_def node_inv_def nd_registry_def)
  then have "node_inv (set_registry reg nd)"
    using assms(1) by (simp add: system_inv_def node_inv_def pipeline_inv_registry)
  then show "system_inv (set_registry reg nd)" "system_inv ((set_registry reg nd)\<lparr>nd_subscribed := subs\<rparr>)"
    using assms(1,3) by (simp_all add: system_inv_def node_inv_def flags_ok_def nd_registry_def)
qed

subsection \<open>The connections\<close>

lemma reconcile_endpoints:
  assumes "dialer_inv dl" "endpoints_ok dl" "reconcileReliableConnections reg subs dl = (retired, dl')"
  shows "dialer_inv dl' \<and> endpoints_ok dl'"
proof -
  have rec: "reconcile (dial_targets reg subs) dl = (retired, dl')"
    using assms(3) by (simp add: reconcileReliableConnections_def)
  note spec = reconcile_spec [OF assms(1) rec]
  have "map_of (dl_connections dl) k = Some c \<or> cn_connected c = []" if c: "map_of (dl_connections dl') k = Some c" for k c
  proof -
    have "k \<in> fst ` set (dial_targets reg subs)" using spec(3) [of k] c by (auto split: if_splits)
    from spec(4) [OF this] this c show ?thesis
      by (cases "map_of (dl_connections dl) k") (auto simp: dialed_def fresh_for_def Let_def split: if_splits)
  qed
  then show ?thesis using spec(1) assms(2) unfolding endpoints_ok_def by blast
qed

lemma endpoint_change_inv:
  assumes "dialer_inv dl" "endpoints_ok dl" "map_of (dl_connections dl) k = Some c" "e = [] \<or> e \<in> set (cn_candidates c)"
  shows "dialer_inv (dl\<lparr>dl_connections := om_put k (c\<lparr>cn_connected := e\<rparr>) (dl_connections dl)\<rparr>) \<and>
    endpoints_ok (dl\<lparr>dl_connections := om_put k (c\<lparr>cn_connected := e\<rparr>) (dl_connections dl)\<rparr>)"
proof -
  have "cn_id c < dl_started dl" using assms(1) map_of_SomeD [OF assms(3)] by (auto simp: dialer_inv_def)
  then show ?thesis
    using assms by (auto simp: dialer_inv_def endpoints_ok_def dest!: set_om_put)
qed

subsection \<open>Start, stop and the strand\<close>

lemma system_inv_start: "system_inv nd \<Longrightarrow> system_inv (startAutoDiscovery built nd)"
proof -
  have "service_inv empty_service"
    by (simp add: service_inv_def empty_service_def new_reactor_def Let_def)
  then show "system_inv nd \<Longrightarrow> system_inv (startAutoDiscovery built nd)"
    by (auto simp: system_inv_def node_inv_def flags_ok_def nd_registry_def startAutoDiscovery_def initializeAutoDiscovery_def
      startReceivePipeline_def startGrpcServer_def sender_inv_def Let_def split: option.splits)
qed

lemma join_workers_keeps:
  "pipe_ok pl \<Longrightarrow> \<forall>i \<in> set is. i < length (pl_rings pl) \<Longrightarrow> join_workers types parse clock is pl = Some (out, pl') \<Longrightarrow> pipe_ok pl'"
proof (induction "is" arbitrary: pl out)
  case (Cons i "is")
  obtain out1 pl1 out2 where j: "worker_loop types parse (clock i) i pl = Some (out1, pl1)"
    "join_workers types parse clock is pl1 = Some (out2, pl')"
    using Cons.prems(3) by (auto split: option.splits)
  note k = worker_loop_keeps [OF Cons.prems(1) _ j(1)]
  show ?case using Cons.IH [OF _ _ j(2)] k Cons.prems(2) by simp
qed simp

lemma stop_pipeline_inv:
  assumes "node_inv nd" "stopReceivePipeline types parse clock nd = Some (out, nd')"
  shows "pipeline_inv (nd_pipeline nd') \<and> registry_inv (nd_registry nd')"
proof (cases "nd_pipelineStarted nd")
  case True
  obtain pl' where pl': "join_workers types parse clock (if nd_workers nd then [0..<length (pl_rings (close_rings (nd_pipeline nd)))] else [])
      (close_rings (nd_pipeline nd)) = Some (out, pl')" "nd_pipeline nd' = pl'"
    using assms(2) True by (auto simp: stopReceivePipeline_def Let_def split: option.splits)
  have "pipe_ok (close_rings (nd_pipeline nd))"
    using assms(1) by (intro close_rings_ok) (simp_all add: node_inv_def nd_registry_def)
  from join_workers_keeps [OF this _ pl'(1)] show ?thesis
    using pl'(2) by (simp add: pipe_ok_def nd_registry_def)
qed (use assms in \<open>simp add: stopReceivePipeline_def node_inv_def\<close>)

lemma system_inv_stop:
  assumes "system_inv nd" "stopAutoDiscovery types parse clock nd = Some (out, retired, nd')"
  shows "system_inv nd'"
proof -
  let ?nd = "nd\<lparr>nd_isRunning := False, nd_sends := chain_cancel (nd_sends nd),
     nd_cleans := chain_cancel (nd_cleans nd), nd_socketOpen := False, nd_receiveArmed := False\<rparr>"
  obtain nd1 where nd1: "stopReceivePipeline types parse clock ?nd = Some (out, nd1)" "nd_pipeline nd' = nd_pipeline nd1"
    "nd_workers nd' = nd_workers nd1" "nd_pipelineStarted nd' = nd_pipelineStarted nd1"
    using assms(2) by (auto simp: stopAutoDiscovery_def stopReliableSubscriptions_def stopGrpcServer_def split: option.splits)
  have "node_inv ?nd" using assms(1) by (simp add: system_inv_def node_inv_def nd_registry_def)
  from stop_pipeline_inv [OF this nd1(1)] have p: "pipeline_inv (nd_pipeline nd')" "registry_inv (nd_registry nd')"
    by (simp_all add: nd1(2) nd_registry_def)
  have "\<not> nd_workers nd1"
    using nd1(1) assms(1)
    by (auto simp: stopReceivePipeline_def Let_def system_inv_def flags_ok_def split: option.splits if_splits)
  then show ?thesis
    using p assms(1) stop_fields [OF assms(2)] nd1(3)
    by (auto simp: system_inv_def node_inv_def flags_ok_def endpoints_ok_def dialer_inv_def sender_inv_def)
qed

lemma system_inv_cleaner:
  assumes "system_inv nd"
  shows "system_inv (snd (cleaner_run now nd))"
proof -
  let ?reg = "cleaned now (nd_registry nd)"
  have dl: "dialer_inv (nd_dialer nd)" "endpoints_ok (nd_dialer nd)" and reg: "registry_inv ?reg"
    using assms inv_cleaned by (auto simp: system_inv_def node_inv_def)
  note r = reconcile_endpoints [OF dl prod.collapse [symmetric], of ?reg "nd_subscribed nd"]
  have p: "pipeline_inv ((nd_pipeline nd)\<lparr>pl_registry := ?reg\<rparr>)"
    using assms reg by (intro pipeline_inv_registry) (simp_all add: system_inv_def node_inv_def nd_registry_def)
  show ?thesis
    using assms r p reg
    by (simp add: system_inv_def node_inv_def cleaner_run_def cleanup_eq case_prod_beta rx_inv_prune flags_ok_def
      nd_registry_def [of "nd\<lparr>nd_pipeline := x\<rparr>" for x] set_registry_def) (simp add: nd_registry_def)
qed

lemma system_inv_strand: "strand_step nd nd' \<Longrightarrow> system_inv nd \<Longrightarrow> system_inv nd'"
  by (induction rule: strand_step.induct)
    (auto simp: system_inv_cleaner,
     auto simp: system_inv_def node_inv_def flags_ok_def nd_registry_def sender_run_def sender_sent_def Let_def)

subsection \<open>All steps\<close>

lemma subscriptions_finite:
  assumes "finite subs"
  shows "registerSubscriberTopic announce tn mt rel reg subs = (ok, reg', subs') \<Longrightarrow> finite subs'"
    and "registerSubscriberTopic_callback announce tn mt fn rel reg subs = (ok, reg', subs') \<Longrightarrow> finite subs'"
    and "unregisterSubscriberTopic tn mt reg subs = (ok, reg', subs') \<Longrightarrow> finite subs'"
  using assms
  by (auto simp: registerSubscriberTopic_def registerSubscriberTopic_callback_def unregisterSubscriberTopic_def Let_def
    split: option.splits if_splits)

lemma system_inv_worker:
  assumes "system_inv nd" "i < workerCount (nd_registry nd)" "worker_turn types parse now i (nd_pipeline nd) = Worker_ran out pl"
  shows "system_inv (nd\<lparr>nd_pipeline := pl\<rparr>)"
proof -
  have inv: "pipeline_inv (nd_pipeline nd)" "registry_inv (pl_registry (nd_pipeline nd))"
    using assms(1) by (simp_all add: system_inv_def node_inv_def nd_registry_def)
  have i: "i < length (pl_rings (nd_pipeline nd))" using inv(1) assms(2) by (simp add: pipeline_inv_def nd_registry_def)
  have "pipeline_inv pl \<and> registry_inv (pl_registry pl)" by (rule worker_turn_inv [OF inv i assms(3)])
  then show ?thesis using assms(1) by (simp add: system_inv_def node_inv_def flags_ok_def nd_registry_def)
qed

lemma system_inv_pop:
  assumes "system_inv nd" "i < workerCount (nd_registry nd)"
    and "ring_pop (pl_rings (nd_pipeline nd) ! i) = (pop_result.Returned frame, ring)"
  shows "system_inv (nd\<lparr>nd_pipeline := (nd_pipeline nd)\<lparr>pl_rings := (pl_rings (nd_pipeline nd))[i := ring]\<rparr>\<rparr>)"
proof -
  have inv: "pipeline_inv (nd_pipeline nd)" using assms(1) by (simp add: system_inv_def node_inv_def)
  then have i: "i < length (pl_rings (nd_pipeline nd))" using assms(2) by (simp add: pipeline_inv_def nd_registry_def)
  have "ring_inv ring" by (rule ring_pop_inv [OF pipeline_inv_ring [OF inv i] assms(3)])
  from pipeline_inv_update [OF inv this, of i] assms(1) show ?thesis
    by (simp add: system_inv_def node_inv_def flags_ok_def nd_registry_def)
qed

lemma system_inv_step: "node_step nd nd' \<Longrightarrow> system_inv nd \<Longrightarrow> system_inv nd'"
proof (induction rule: node_step.induct)
  case (ns_start nd built)
  then show ?case by (rule system_inv_start)
next
  case (ns_stop types parse clock nd out retired nd')
  show ?case by (rule system_inv_stop [OF ns_stop.prems ns_stop.hyps])
next
  case (ns_strand nd nd')
  show ?case by (rule system_inv_strand [OF ns_strand.hyps ns_strand.prems])
next
  case (ns_worker nd i types parse now out pl)
  show ?case by (rule system_inv_worker [OF ns_worker.prems ns_worker.hyps(2,3)])
next
  case (ns_receive nd parse buf ec d ds pl again)
  then have "pipeline_inv (nd_pipeline nd)" by (simp add: system_inv_def node_inv_def)
  from on_receive_inv [OF this ns_receive.hyps(2)] ns_receive show ?case
    by (auto simp: system_inv_def node_inv_def flags_ok_def nd_registry_def)
next
  case (ns_pop nd i frame ring)
  show ?case by (rule system_inv_pop [OF ns_pop.prems ns_pop.hyps(2,3)])
next
  case (ns_section nd reg)
  from system_inv_registry(1) [OF ns_section.prems ns_section.hyps finite.emptyI] show ?case .
next
  case (ns_prune nd stale)
  then show ?case by (simp add: system_inv_def node_inv_def flags_ok_def nd_registry_def rx_inv_prune)
next
  case (ns_publisher announce tn mt rel nd ok reg)
  then have "registry_step (nd_registry nd) reg" using rg_pub [of "nd_registry nd" announce tn mt rel] by simp
  from system_inv_registry(1) [OF ns_publisher.prems this finite.emptyI] show ?case .
next
  case (ns_unpublish tn mt nd ok reg)
  then have "registry_step (nd_registry nd) reg" using rg_unpub [of "nd_registry nd" tn mt] by simp
  from system_inv_registry(1) [OF ns_unpublish.prems this finite.emptyI] show ?case .
next
  case (ns_subscriber announce tn mt rel nd ok reg subs)
  then have "registry_step (nd_registry nd) reg" using rg_sub [of "nd_registry nd" announce tn mt rel "nd_subscribed nd"] by simp
  moreover have "finite subs"
    using ns_subscriber.prems subscriptions_finite(1) [OF _ ns_subscriber.hyps] by (simp add: system_inv_def)
  ultimately show ?case by (rule system_inv_registry(2) [OF ns_subscriber.prems])
next
  case (ns_callback announce tn mt fn rel nd ok reg subs)
  then have "registry_step (nd_registry nd) reg" using rg_subcb [of "nd_registry nd" announce tn mt fn rel "nd_subscribed nd"] by simp
  moreover have "finite subs"
    using ns_callback.prems subscriptions_finite(2) [OF _ ns_callback.hyps] by (simp add: system_inv_def)
  ultimately show ?case by (rule system_inv_registry(2) [OF ns_callback.prems])
next
  case (ns_subscribe tn mt fn nd ok reg)
  then have "registry_step (nd_registry nd) reg" using rg_subscribe [of "nd_registry nd" tn mt fn] by simp
  from system_inv_registry(1) [OF ns_subscribe.prems this finite.emptyI] show ?case .
next
  case (ns_unsubscribe tn mt nd ok reg subs)
  then have "registry_step (nd_registry nd) reg" using rg_unsub [of "nd_registry nd" tn mt "nd_subscribed nd"] by simp
  moreover have "finite subs"
    using ns_unsubscribe.prems subscriptions_finite(3) [OF _ ns_unsubscribe.hyps] by (simp add: system_inv_def)
  ultimately show ?case by (rule system_inv_registry(2) [OF ns_unsubscribe.prems])
next
  case (ns_publish fan serialize tn mt payload now nd res deliv calls sd)
  then have "sender_inv (nd_sender nd)" by (simp add: system_inv_def node_inv_def)
  then have "sender_inv sd" using publish_with_counts [OF ns_publish.hyps] by (simp add: Let_def)
  then show ?case using ns_publish by (simp add: system_inv_def node_inv_def flags_ok_def nd_registry_def)
next
  case (ns_service nd sv sv')
  then have "service_inv sv'" using service_inv_step by (auto simp: system_inv_def node_inv_def sender_inv_def)
  then show ?case using ns_service by (simp add: system_inv_def node_inv_def flags_ok_def nd_registry_def sender_inv_def)
next
  case (ns_reconcile nd retired dl)
  then show ?case
    using reconcile_endpoints [of "nd_dialer nd" "nd_registry nd" "nd_subscribed nd" retired dl]
    by (simp add: system_inv_def node_inv_def flags_ok_def nd_registry_def)
next
  case (ns_endpoint nd k c e)
  then show ?case
    using endpoint_change_inv [of "nd_dialer nd" k c e]
    by (simp add: system_inv_def node_inv_def flags_ok_def nd_registry_def)
next
  case (ns_events nd decode uid es)
  then show ?case by (simp add: system_inv_def node_inv_def flags_ok_def nd_registry_def rx_inv_events)
qed

lemma system_inv_init: "node_start nd \<Longrightarrow> system_inv nd"
  using new_node_inv [OF loadConfig_ok]
  by (auto simp: node_start_def system_inv_def)
    (auto simp: new_node_def Let_def endpoints_ok_def no_connections_def flags_ok_def)

interpretation node_runs: invariant_system node_start node_step system_inv
  by unfold_locales (rule system_inv_init, assumption, rule system_inv_step)

section \<open>Claims\<close>



end
