(* ===== verification/Edriel_Sweep.thy ===== *)
theory Edriel_Sweep
  imports Edriel_System
begin

text \<open>
  The timeout cleanup (\<open>removeTimedOutParticipants\<close> of \<open>Edriel.cpp\<close>) as it really runs: it takes
  the mutex of one shard after the other, in two rounds, and then the mutex of the receive
  windows, and between any two of these critical sections the workers handle heartbeats and
  announcements, callers register topics and the readers of the reliable streams deliver
  frames. The theory relates the interrupted cleanup to the uninterrupted one of
  \<open>Edriel_Registry\<close>, shows that a live peer cannot tell that a cleanup runs, and what a
  peer loses that returns too late.
\<close>

section \<open>The critical sections of the cleanup\<close>

text \<open>
  Where the cleanup stands (the loop index is the next shard to lock) and its local list of
  stale peers.
\<close>

datatype sweep_pc = Evicting nat | Purging nat | Pruning | Swept

record sweep =
  sw_pc :: sweep_pc
  sw_stale :: "participant list"

definition sweep_begin :: sweep where
  "sweep_begin = \<lparr>sw_pc = Evicting 0, sw_stale = []\<rparr>"

definition stale_of :: "int \<Rightarrow> shard \<Rightarrow> participant list" where
  "stale_of now sh = map snd (filter (\<lambda>(u, p). shouldBeRemoved now p) (sh_participants sh))"

text \<open>
  A node during a cleanup: its registry and windows, and the messages dispatched so far.
\<close>

record sweeping =
  sg_sweep :: sweep
  sg_registry :: registry
  sg_rx :: rx_state
  sg_out :: "data_message list"

definition sweep_evict :: "int \<Rightarrow> nat \<Rightarrow> sweeping \<Rightarrow> sweeping" where
  "sweep_evict now i s =
     (if i < workerCount (sg_registry s)
      then s\<lparr>sg_sweep := \<lparr>sw_pc = Evicting (Suc i),
               sw_stale = sw_stale (sg_sweep s) @ stale_of now (reg_shards (sg_registry s) ! i)\<rparr>,
             sg_registry := on_shard i (evict_stale now) (sg_registry s)\<rparr>
      else s\<lparr>sg_sweep := (sg_sweep s)\<lparr>sw_pc := Purging 0\<rparr>\<rparr>)"

definition sweep_purge :: "nat \<Rightarrow> sweeping \<Rightarrow> sweeping" where
  "sweep_purge i s =
     (if i < workerCount (sg_registry s)
      then s\<lparr>sg_sweep := (sg_sweep s)\<lparr>sw_pc := Purging (Suc i)\<rparr>,
             sg_registry := on_shard i (purge_topics (sw_stale (sg_sweep s))) (sg_registry s)\<rparr>
      else s\<lparr>sg_sweep := (sg_sweep s)\<lparr>sw_pc := if sw_stale (sg_sweep s) = [] then Swept else Pruning\<rparr>\<rparr>)"

definition sweep_prune :: "sweeping \<Rightarrow> sweeping" where
  "sweep_prune s =
     s\<lparr>sg_sweep := (sg_sweep s)\<lparr>sw_pc := Swept\<rparr>, sg_rx := prune_windows (sw_stale (sg_sweep s)) (sg_rx s)\<rparr>"

text \<open>The next section; \<open>now\<close> is the clock while the shard is locked.\<close>

definition sweep_section :: "int \<Rightarrow> sweeping \<Rightarrow> sweeping" where
  "sweep_section now s =
     (case sw_pc (sg_sweep s) of
        Evicting i \<Rightarrow> sweep_evict now i s
      | Purging i \<Rightarrow> sweep_purge i s
      | Pruning \<Rightarrow> sweep_prune s
      | Swept \<Rightarrow> s)"

section \<open>What other threads do meanwhile\<close>

text \<open>
  One critical section each: a heartbeat, an announcement, the registration of a topic
  without and with a callback, a decoded frame of a reliable stream, a new stream. (A message
  with an advertisement is a heartbeat and then an announcement.)
\<close>

datatype event =
    Ev_section int
  | Ev_heartbeat u32 u64 u64 "endpoint list" int
  | Ev_announce u32 u64 u64 string string bool int
  | Ev_register string string bool
  | Ev_callback string string bool callback
  | Ev_frame data_message
  | Ev_stream u64

primrec sweep_event :: "event \<Rightarrow> sweeping \<Rightarrow> sweeping" where
  "sweep_event (Ev_section now) s = sweep_section now s"
| "sweep_event (Ev_heartbeat pid tid uid eps now) s =
     s\<lparr>sg_registry := handleParticipantHeartbeat (ucast pid) tid uid eps now (sg_registry s)\<rparr>"
| "sweep_event (Ev_announce pid tid uid tn mt isPub now) s =
     s\<lparr>sg_registry := handleTopicAnnouncement (ucast pid) tid uid tn mt isPub now (sg_registry s)\<rparr>"
| "sweep_event (Ev_register tn mt rel) s = s\<lparr>sg_registry := register_entry tn mt rel (sg_registry s)\<rparr>"
| "sweep_event (Ev_callback tn mt rel cb) s =
     s\<lparr>sg_registry := push_callback (makeCompositeKey tn mt) cb (register_entry tn mt rel (sg_registry s))\<rparr>"
| "sweep_event (Ev_frame m) s =
     (case receive_data m (sg_rx s) of (out, st) \<Rightarrow> s\<lparr>sg_rx := st, sg_out := sg_out s @ out\<rparr>)"
| "sweep_event (Ev_stream u) s = s\<lparr>sg_rx := noteReliableStreamEstablished u (sg_rx s)\<rparr>"

definition sweep_run :: "event list \<Rightarrow> sweeping \<Rightarrow> sweeping" where
  "sweep_run es s = fold sweep_event es s"

definition sweep_start :: "registry \<Rightarrow> rx_state \<Rightarrow> sweeping" where
  "sweep_start reg st = \<lparr>sg_sweep = sweep_begin, sg_registry = reg, sg_rx = st, sg_out = []\<rparr>"

primrec is_section :: "event \<Rightarrow> bool" where
  "is_section (Ev_section now) = True"
| "is_section (Ev_heartbeat pid tid uid eps now) = False"
| "is_section (Ev_announce pid tid uid tn mt isPub now) = False"
| "is_section (Ev_register tn mt rel) = False"
| "is_section (Ev_callback tn mt rel cb) = False"
| "is_section (Ev_frame m) = False"
| "is_section (Ev_stream u) = False"

lemma sweep_run_simps [simp]:
  "sweep_run [] s = s" "sweep_run (e # es) s = sweep_run es (sweep_event e s)"
  "sweep_run (es @ es') s = sweep_run es' (sweep_run es s)"
  by (simp_all add: sweep_run_def)

lemma sweep_run_again:
  "sweep_run (replicate (Suc i) e) s = sweep_event e (sweep_run (replicate i e) s)"
  unfolding replicate_Suc replicate_append_same [symmetric] by simp

section \<open>Uninterrupted\<close>

text \<open>The first round on the shards below \<open>i\<close>, and the second.\<close>

definition evicted_below :: "int \<Rightarrow> nat \<Rightarrow> registry \<Rightarrow> registry" where
  "evicted_below now i reg =
     reg\<lparr>reg_shards := map (evict_stale now) (take i (reg_shards reg)) @ drop i (reg_shards reg)\<rparr>"

definition purged_below :: "participant list \<Rightarrow> nat \<Rightarrow> registry \<Rightarrow> registry" where
  "purged_below stale i reg =
     reg\<lparr>reg_shards := map (purge_topics stale) (take i (reg_shards reg)) @ drop i (reg_shards reg)\<rparr>"

lemma map_below_Suc:
  assumes "i < length xs"
  shows "(map f (take i xs) @ drop i xs)[i := f ((map f (take i xs) @ drop i xs) ! i)] =
    map f (take (Suc i) xs) @ drop (Suc i) xs"
  using assms by (simp add: list_update_append nth_append take_Suc_conv_app_nth Cons_nth_drop_Suc [symmetric])

lemma below_Suc:
  "i < workerCount reg \<Longrightarrow> on_shard i (evict_stale now) (evicted_below now i reg) = evicted_below now (Suc i) reg"
  "i < workerCount reg \<Longrightarrow> on_shard i (purge_topics stale) (purged_below stale i reg) = purged_below stale (Suc i) reg"
  by (simp_all add: on_shard_def evicted_below_def purged_below_def workerCount_def map_below_Suc)

lemma below_workers [simp]:
  "workerCount (evicted_below now i reg) = workerCount reg" "workerCount (purged_below stale i reg) = workerCount reg"
  by (simp_all add: evicted_below_def purged_below_def workerCount_def)

definition stale_below :: "int \<Rightarrow> nat \<Rightarrow> registry \<Rightarrow> participant list" where
  "stale_below now i reg = concat (map (stale_of now) (take i (reg_shards reg)))"

lemma evict_rounds:
  "i \<le> workerCount reg \<Longrightarrow>
   sweep_run (replicate i (Ev_section now)) (sweep_start reg st) =
     \<lparr>sg_sweep = \<lparr>sw_pc = Evicting i, sw_stale = stale_below now i reg\<rparr>,
      sg_registry = evicted_below now i reg, sg_rx = st, sg_out = []\<rparr>"
proof (induction i)
  case 0
  then show ?case by (simp add: sweep_start_def sweep_begin_def stale_below_def evicted_below_def)
next
  case (Suc i)
  then have i: "i < workerCount reg" "i < length (reg_shards reg)" by (simp_all add: workerCount_def)
  have "reg_shards (evicted_below now i reg) ! i = reg_shards reg ! i"
    using i by (simp add: evicted_below_def nth_append)
  moreover have "stale_below now (Suc i) reg = stale_below now i reg @ stale_of now (reg_shards reg ! i)"
    using i by (simp add: stale_below_def take_Suc_conv_app_nth)
  ultimately show ?case
    using Suc.IH i unfolding sweep_run_again by (simp add: sweep_section_def sweep_evict_def below_Suc)
qed

lemma purge_rounds:
  "i \<le> workerCount reg \<Longrightarrow>
   sweep_run (replicate i (Ev_section now))
     \<lparr>sg_sweep = \<lparr>sw_pc = Purging 0, sw_stale = stale\<rparr>, sg_registry = reg, sg_rx = st, sg_out = out\<rparr> =
     \<lparr>sg_sweep = \<lparr>sw_pc = Purging i, sw_stale = stale\<rparr>,
      sg_registry = purged_below stale i reg, sg_rx = st, sg_out = out\<rparr>"
proof (induction i)
  case 0
  then show ?case by (simp add: purged_below_def)
next
  case (Suc i)
  then have "i < workerCount reg" by simp
  with Suc.IH show ?case
    unfolding sweep_run_again by (simp add: sweep_section_def sweep_purge_def below_Suc)
qed

lemma prune_none: "prune_windows [] st = st"
  by (simp add: prune_windows_def case_prod_beta)

lemma sweep_finish:
  "n = workerCount reg \<Longrightarrow> sweep_run (replicate 2 (Ev_section now))
     \<lparr>sg_sweep = \<lparr>sw_pc = Purging n, sw_stale = stale\<rparr>, sg_registry = reg, sg_rx = st, sg_out = out\<rparr> =
     \<lparr>sg_sweep = \<lparr>sw_pc = Swept, sw_stale = stale\<rparr>, sg_registry = reg,
      sg_rx = prune_windows stale st, sg_out = out\<rparr>"
  by (cases "stale = []")
    (simp_all add: numeral_2_eq_2 sweep_section_def sweep_purge_def sweep_prune_def prune_none)


section \<open>The invariant\<close>

definition sweeping_inv :: "sweeping \<Rightarrow> bool" where
  "sweeping_inv s \<longleftrightarrow> registry_inv (sg_registry s) \<and> rx_inv (sg_rx s)"

lemma sweeping_inv_section: "sweeping_inv s \<Longrightarrow> sweeping_inv (sweep_section now s)"
  by (auto simp: sweeping_inv_def sweep_section_def sweep_evict_def sweep_purge_def sweep_prune_def
    inv_evict_shard inv_purge_shard rx_inv_prune split: sweep_pc.split)

lemma sweeping_inv_event: "sweeping_inv s \<Longrightarrow> sweeping_inv (sweep_event e s)"
proof (cases e)
  case (Ev_callback tn mt rel cb)
  assume inv: "sweeping_inv s"
  then have "has_shards (sg_registry s)" by (simp add: sweeping_inv_def registry_inv_def)
  then obtain x where "find_topic (register_entry tn mt rel (sg_registry s)) (makeCompositeKey tn mt) = Some x"
    by (simp add: register_entry_find)
  then show ?thesis
    using inv Ev_callback by (auto simp: sweeping_inv_def inv_register_entry intro: inv_push_callback)
qed (simp_all add: sweeping_inv_def sweeping_inv_section [unfolded sweeping_inv_def] inv_heartbeat inv_announce
    inv_register_entry rx_inv_receive rx_inv_note case_prod_beta)

lemma sweeping_inv_run: "sweeping_inv s \<Longrightarrow> sweeping_inv (sweep_run es s)"
  by (induction es arbitrary: s) (simp_all add: sweeping_inv_event)

section \<open>What each section changes\<close>

lemma find_participant_evict:
  assumes "registry_inv reg" "i < workerCount reg"
  shows "find_participant (on_shard i (evict_stale now) reg) u =
    (case find_participant reg u of None \<Rightarrow> None
     | Some p \<Rightarrow> if i = uid_shard reg u \<and> shouldBeRemoved now p then None else Some p)"
  using found_peers [OF assms(1), of u] assms(2)
  by (auto simp: find_participant_def nth_on_shard workerCount_def evict_stale_def map_of_filter_om split: option.split)

lemma find_topic_evict: "i < workerCount reg \<Longrightarrow> find_topic (on_shard i (evict_stale now) reg) = find_topic reg"
  by (auto simp: fun_eq_iff find_topic_def nth_on_shard workerCount_def evict_stale_def)

lemma find_participant_purge: "i < workerCount reg \<Longrightarrow> find_participant (on_shard i (purge_topics stale) reg) = find_participant reg"
  by (auto simp: fun_eq_iff find_participant_def nth_on_shard workerCount_def purge_topics_def)

lemma find_topic_purge:
  assumes "registry_inv reg" "i < workerCount reg"
  shows "find_topic (on_shard i (purge_topics stale) reg) k =
    (if i = topic_shard reg k
     then case find_topic reg k of None \<Rightarrow> None
       | Some e \<Rightarrow> let e' = purge_entry stale e in if deserted e' then None else Some e'
     else find_topic reg k)"
  using found_topics [OF assms(1), of k] assms(2)
  by (simp add: find_topic_def nth_on_shard workerCount_def purge_topics_def map_of_filter_om map_of_map_values Let_def
    split: option.split)

text \<open>The entries of one peer in a set, and what the others' entries do not disturb.\<close>

definition of_peer :: "u64 \<Rightarrow> participant_set \<Rightarrow> participant_set" where
  "of_peer u ps = filter (\<lambda>(k, p). p_uid p = u) ps"

lemma om_put_front: "\<forall>k' \<in> fst ` set m. k < k' \<Longrightarrow> om_put k v m = (k, v) # m"
  by (cases m) auto

lemma filter_om_put:
  "om_ok m \<Longrightarrow> map_of m k = None \<Longrightarrow> P (k, v) \<Longrightarrow> filter P (om_put k v m) = om_put k v (filter P m)"
proof (induction k v m rule: om_put.induct)
  case (2 k v k' v' m)
  have "om_put k v (filter P m) = (k, v) # filter P m" if "k < k'"
    using that "2.prems"(1) by (intro om_put_front) fastforce
  with 2 show ?case by (auto split: if_splits)
qed simp

lemma filter_om_put_not: "map_of m k = None \<Longrightarrow> \<not> P (k, v) \<Longrightarrow> filter P (om_put k v m) = filter P m"
  by (induction k v m rule: om_put.induct) (auto split: if_splits)

lemma of_peer_insert:
  assumes "peers_ok self ps"
  shows "of_peer u (ps_insert p ps) = (if p_uid p = u then ps_insert p (of_peer u ps) else of_peer u ps)"
proof -
  have ok: "om_ok ps" and keys: "\<forall>(i, q) \<in> set ps. i = p_key q" using assms by (auto simp: peers_ok_def)
  have "map_of (of_peer u ps) (p_key p) = map_of ps (p_key p)" if "p_uid p = u"
  proof (cases "map_of ps (p_key p)")
    case (Some q)
    then have "(p_key p, q) \<in> set ps" by (rule map_of_SomeD)
    then have "p_uid q = u" using keys that by (auto simp: p_key_def)
    then show ?thesis using Some map_of_filter_om [OF ok, of "\<lambda>k p. p_uid p = u" "p_key p"] by (simp add: of_peer_def)
  qed (use map_of_filter_om [OF ok, of "\<lambda>k p. p_uid p = u" "p_key p"] in \<open>simp add: of_peer_def\<close>)
  then show ?thesis
    using filter_om_put [OF ok, of "p_key p" "\<lambda>(k, p). p_uid p = u" p]
      filter_om_put_not [of ps "p_key p" "\<lambda>(k, p). p_uid p = u" p]
    by (auto simp: ps_insert_def om_emplace_def of_peer_def)
qed

lemma of_peer_filter:
  "\<forall>s \<in> set stale. p_uid s \<noteq> u \<Longrightarrow> of_peer u (filter (\<lambda>(k, p). \<not> isStale stale p) ps) = of_peer u ps"
  by (auto simp: of_peer_def isStale_def intro!: filter_cong)

section \<open>The living do not notice\<close>

text \<open>
  The registries and windows of two nodes agree on what concerns a peer \<open>u\<close>: its record, its
  entries in the topics, the node's callbacks, its receive windows and its delivered messages.
\<close>

definition same_windows :: "u64 \<Rightarrow> rx_state \<Rightarrow> rx_state \<Rightarrow> bool" where
  "same_windows u st st' \<longleftrightarrow>
     (u \<in> reliableFreshPublishers st \<longleftrightarrow> u \<in> reliableFreshPublishers st') \<and>
     (\<forall>k. map_of (reliableWindows st) (window_key u k) = map_of (reliableWindows st') (window_key u k))"

definition peer_view :: "u64 \<Rightarrow> topic_entry \<Rightarrow> participant_set \<times> participant_set \<times> callback list" where
  "peer_view u e = (of_peer u (te_publishers e), of_peer u (te_subscribers e), te_callbacks e)"

definition same_topics :: "u64 \<Rightarrow> registry \<Rightarrow> registry \<Rightarrow> bool" where
  "same_topics u reg reg' \<longleftrightarrow> (\<forall>k. peer_view u (entry_at reg k) = peer_view u (entry_at reg' k))"

definition alike :: "u64 \<Rightarrow> sweeping \<Rightarrow> sweeping \<Rightarrow> bool" where
  "alike u s t \<longleftrightarrow>
     reg_self (sg_registry s) = reg_self (sg_registry t) \<and> reg_config (sg_registry s) = reg_config (sg_registry t) \<and>
     find_participant (sg_registry s) u = find_participant (sg_registry t) u \<and>
     same_topics u (sg_registry s) (sg_registry t) \<and> same_windows u (sg_rx s) (sg_rx t) \<and>
     filter (\<lambda>m. uid_of m = u) (sg_out s) = filter (\<lambda>m. uid_of m = u) (sg_out t)"

lemma same_windows_at: "same_windows u st st' \<Longrightarrow> window_at st (window_key u k) = window_at st' (window_key u k)"
  by (simp add: same_windows_def window_at_def)

lemma start_window_same:
  "same_windows u st st' \<Longrightarrow> uid_of m = u \<Longrightarrow> start_window m st = start_window m st'"
  using same_windows_at [of u st st'] by (auto simp: start_window_def same_windows_def window_key_of_def)

lemma windows_after:
  "map_of (reliableWindows (snd (receive_data m st))) (window_key u k) =
     (if window_key u k = window_key_of m then Some (snd (window_accept m (start_window m st)))
      else map_option (\<lambda>w. if uid_of m = u \<and> u \<in> reliableFreshPublishers st then reset_window w else w)
        (map_of (reliableWindows st) (window_key u k)))"
  by (cases "map_of (reliableWindows st) (window_key u k)")
    (auto simp: windows_receive_data map_of_reset_publisher window_key_prefix_iff)

lemma same_windows_receive:
  assumes "same_windows u st st'"
  shows "same_windows u (snd (receive_data m st)) (snd (receive_data m st'))"
proof -
  have "start_window m st = start_window m st'" if "window_key u k = window_key_of m" for k
    using that start_window_same [OF assms, of m] by (simp add: window_key_of_def window_key_eq_iff)
  then show ?thesis using assms by (auto simp: same_windows_def windows_after)
qed

lemma receive_uid:
  assumes "rx_inv st" "x \<in> set (fst (receive_data m st))"
  shows "uid_of x = uid_of m"
  using receive_data_keys [OF assms] by (simp add: window_key_of_def window_key_eq_iff)

lemma delivered_same:
  assumes "same_windows u st st'" "rx_inv st" "rx_inv st'"
  shows "filter (\<lambda>m. uid_of m = u) (fst (receive_data m st)) = filter (\<lambda>m. uid_of m = u) (fst (receive_data m st'))"
proof (cases "uid_of m = u")
  case True
  then show ?thesis using start_window_same [OF assms(1)] by (simp add: fst_receive_data)
next
  case False
  have "filter (\<lambda>m. uid_of m = u) (fst (receive_data m st'')) = []" if "rx_inv st''" for st''
    using receive_uid [OF that] False by (auto simp: filter_empty_conv)
  then show ?thesis using assms by simp
qed

lemma same_windows_note: "same_windows u st st' \<Longrightarrow> same_windows u (noteReliableStreamEstablished v st) (noteReliableStreamEstablished v st')"
  by (auto simp: same_windows_def noteReliableStreamEstablished_def map_of_reset_publisher)

lemma same_windows_prune:
  assumes "same_windows u st st'" "rx_inv st" "\<forall>s \<in> set stale. p_uid s \<noteq> u"
  shows "same_windows u (prune_windows stale st) st'"
  using assms prune_windows_lookup [of st stale u] by (auto simp: same_windows_def rx_inv_def) (auto simp: prune_windows_def)

text \<open>Each operation on the registry, in terms of what is read back.\<close>

lemma find_of_entry_at: "has_shards reg \<Longrightarrow> entry_at (erase_topic k reg) k' = (if k' = k then empty_entry else entry_at reg k')"
  by (simp add: entry_at_def find_after_put)

lemma entry_at_heartbeat: "has_shards reg \<Longrightarrow> entry_at (handleParticipantHeartbeat pid tid uid eps now reg) k = entry_at reg k"
  by (simp add: entry_at_def handleParticipantHeartbeat_def find_after_put split: option.split)

lemma find_heartbeat:
  "has_shards reg \<Longrightarrow> find_participant (handleParticipantHeartbeat pid tid uid eps now reg) u =
     (if u = uid \<and> uid \<noteq> own_uid reg
      then Some (case find_participant reg uid of
          None \<Rightarrow> (new_participant pid tid uid (own_timeout reg) now)\<lparr>p_endpoints := eps\<rparr>
        | Some p \<Rightarrow> p\<lparr>p_lastSeen := now, p_endpoints := eps\<rparr>)
      else find_participant reg u)"
  by (auto simp: handleParticipantHeartbeat_def find_after_put own_uid_def own_timeout_def split: option.split)

lemma entry_at_announce:
  "has_shards reg \<Longrightarrow> entry_at (handleTopicAnnouncement pid tid uid tn mt isPub now reg) k =
     (if k = makeCompositeKey tn mt \<and> uid \<noteq> own_uid reg
      then let remote = new_participant pid tid uid (seconds 10) now;
               e = (entry_at reg k)\<lparr>te_topicName := tn, te_messageType := mt\<rparr>
           in if isPub then e\<lparr>te_publishers := ps_insert remote (te_publishers e)\<rparr>
              else e\<lparr>te_subscribers := ps_insert remote (te_subscribers e)\<rparr>
      else entry_at reg k)"
  by (auto simp: handleTopicAnnouncement_def TopicInfo_def Let_def entry_at_put own_uid_def)

lemma find_announce:
  "has_shards reg \<Longrightarrow> find_participant (handleTopicAnnouncement pid tid uid tn mt isPub now reg) = find_participant reg"
  by (auto simp: handleTopicAnnouncement_def Let_def find_after_put)

lemma entry_at_register:
  "has_shards reg \<Longrightarrow> entry_at (register_entry tn mt rel reg) k =
     (if k = makeCompositeKey tn mt
      then (entry_at reg k)\<lparr>te_topicName := tn, te_messageType := mt, te_reliable := rel\<rparr> else entry_at reg k)"
  by (simp add: register_entry_def TopicInfo_def Let_def entry_at_put)

lemma entry_at_push:
  "has_shards reg \<Longrightarrow> entry_at (push_callback k' cb reg) k =
     (if k = k' then (entry_at reg k)\<lparr>te_callbacks := te_callbacks (entry_at reg k) @ [cb]\<rparr> else entry_at reg k)"
  by (simp add: push_callback_def Let_def entry_at_put)

lemma find_register:
  "has_shards reg \<Longrightarrow> find_participant (register_entry tn mt rel reg) = find_participant reg"
  "has_shards reg \<Longrightarrow> find_participant (push_callback k cb reg) = find_participant reg"
  by (simp_all add: register_entry_def push_callback_def Let_def find_after_put)

lemma registration_fields [simp]:
  "reg_self (register_entry tn mt rel reg) = reg_self reg" "reg_config (register_entry tn mt rel reg) = reg_config reg"
  "reg_self (push_callback k cb reg) = reg_self reg" "reg_config (push_callback k cb reg) = reg_config reg"
  by (simp_all add: register_entry_def push_callback_def Let_def)

lemma entry_at_purge:
  assumes "registry_inv reg" "i < workerCount reg"
  shows "entry_at (on_shard i (purge_topics stale) reg) k =
    (if i = topic_shard reg k
     then let e = purge_entry stale (entry_at reg k) in if deserted e then empty_entry else e
     else entry_at reg k)"
  by (simp add: entry_at_def find_topic_purge [OF assms] Let_def purge_entry_def deserted_def empty_entry_def
    split: option.split)

lemma peer_view_purge:
  "\<forall>s \<in> set stale. p_uid s \<noteq> u \<Longrightarrow>
   peer_view u (let e' = purge_entry stale e in if deserted e' then empty_entry else e') = peer_view u e"
  using of_peer_filter [of stale u "te_publishers e"] of_peer_filter [of stale u "te_subscribers e"]
  by (auto simp: peer_view_def purge_entry_def Let_def deserted_def empty_entry_def)

lemma same_topics_purge:
  assumes "same_topics u reg reg'" "registry_inv reg" "i < workerCount reg" "\<forall>s \<in> set stale. p_uid s \<noteq> u"
  shows "same_topics u (on_shard i (purge_topics stale) reg) reg'"
  using assms(1) by (simp add: same_topics_def entry_at_purge [OF assms(2,3)] peer_view_purge [OF assms(4)])

lemma same_topics_evict:
  assumes "same_topics u reg reg'" "i < workerCount reg"
  shows "same_topics u (on_shard i (evict_stale now) reg) reg'"
  using assms by (simp add: same_topics_def entry_at_def find_topic_evict)

lemma same_topics_announce:
  assumes "same_topics u reg reg'" "registry_inv reg" "registry_inv reg'" "own_uid reg = own_uid reg'"
  shows "same_topics u (handleTopicAnnouncement pid tid uid tn mt isPub now reg)
    (handleTopicAnnouncement pid tid uid tn mt isPub now reg')"
proof -
  have sh: "has_shards reg" "has_shards reg'" using assms(2,3) by (simp_all add: registry_inv_def)
  note ins = of_peer_insert [OF entry_at_ok [OF assms(2), THEN conjunct1]]
    of_peer_insert [OF entry_at_ok [OF assms(2), THEN conjunct2]]
    of_peer_insert [OF entry_at_ok [OF assms(3), THEN conjunct1]]
    of_peer_insert [OF entry_at_ok [OF assms(3), THEN conjunct2]]
  show ?thesis
    using assms(1,4) by (simp add: same_topics_def peer_view_def entry_at_announce [OF sh(1)] entry_at_announce [OF sh(2)] Let_def ins)
qed

lemma entry_at_purge_let:
  "has_shards reg \<Longrightarrow> peer_view u (entry_at (register_entry tn mt rel reg) k) = peer_view u (entry_at reg k)"
  by (simp add: entry_at_register peer_view_def)

lemma alike_event:
  assumes "\<not> is_section e" "sweeping_inv s" "sweeping_inv t" "alike u s t"
  shows "alike u (sweep_event e s) (sweep_event e t)"
proof -
  have sh: "has_shards (sg_registry s)" "has_shards (sg_registry t)"
    using assms(2,3) by (simp_all add: sweeping_inv_def registry_inv_def)
  have own: "own_uid (sg_registry s) = own_uid (sg_registry t)" "own_timeout (sg_registry s) = own_timeout (sg_registry t)"
    using assms(4) by (simp_all add: alike_def own_uid_def own_timeout_def)
  note inv = assms(2,3) [unfolded sweeping_inv_def]
  show ?thesis
  proof (cases e)
    case (Ev_heartbeat pid tid uid eps now)
    then show ?thesis
      using assms(4) own by (auto simp: alike_def find_heartbeat sh same_topics_def entry_at_heartbeat split: option.split)
  next
    case (Ev_announce pid tid uid tn mt isPub now)
    then show ?thesis
      using assms(4) own(1) inv by (simp add: alike_def find_announce sh same_topics_announce)
  next
    case (Ev_register tn mt rel)
    then show ?thesis
      using assms(4) by (simp add: alike_def find_register sh same_topics_def entry_at_purge_let)
  next
    case (Ev_callback tn mt rel cb)
    then show ?thesis
      using assms(4) by (simp add: alike_def find_register sh same_topics_def entry_at_push entry_at_register peer_view_def)
  next
    case (Ev_frame m)
    then show ?thesis
      using assms(4) inv by (simp add: alike_def case_prod_beta same_windows_receive delivered_same)
  next
    case (Ev_stream v)
    then show ?thesis using assms(4) by (simp add: alike_def same_windows_note)
  qed (use assms(1) in simp)
qed

text \<open>The section that the cleanup runs next finds the peer timed out.\<close>

definition finds_stale :: "u64 \<Rightarrow> event \<Rightarrow> sweeping \<Rightarrow> bool" where
  "finds_stale u e s =
     (case e of
        Ev_section now \<Rightarrow> sw_pc (sg_sweep s) = Evicting (uid_shard (sg_registry s) u) \<and>
          (case find_participant (sg_registry s) u of None \<Rightarrow> False | Some p \<Rightarrow> shouldBeRemoved now p)
      | _ \<Rightarrow> False)"

primrec never_stale :: "u64 \<Rightarrow> event list \<Rightarrow> sweeping \<Rightarrow> bool" where
  "never_stale u [] s \<longleftrightarrow> True"
| "never_stale u (e # es) s \<longleftrightarrow> \<not> finds_stale u e s \<and> never_stale u es (sweep_event e s)"

lemma stale_of_found:
  assumes "registry_inv reg" "i < workerCount reg" "p \<in> set (stale_of now (reg_shards reg ! i))"
  shows "find_participant reg (p_uid p) = Some p \<and> uid_shard reg (p_uid p) = i \<and> shouldBeRemoved now p"
proof -
  obtain v where v: "(v, p) \<in> set (sh_participants (reg_shards reg ! i))" "shouldBeRemoved now p"
    using assms(3) by (auto simp: stale_of_def)
  have "shard_ok reg i" using assms(1,2) by (simp add: registry_inv_def)
  then have "uid_shard reg v = i" "p_uid p = v" "om_ok (sh_participants (reg_shards reg ! i))"
    using v(1) by (auto simp: shard_ok_def Let_def)
  then show ?thesis using map_of_is_SomeI [OF om_ok_distinct v(1)] v(2) by (auto simp: find_participant_def)
qed

lemma alike_section:
  assumes inv: "sweeping_inv s" and a: "alike u s t" and live: "\<not> finds_stale u (Ev_section now) s"
    and spared: "\<forall>p \<in> set (sw_stale (sg_sweep s)). p_uid p \<noteq> u"
  shows "alike u (sweep_section now s) t \<and> (\<forall>p \<in> set (sw_stale (sg_sweep (sweep_section now s))). p_uid p \<noteq> u)"
proof (cases "sw_pc (sg_sweep s)")
  case (Evicting i)
  show ?thesis
  proof (cases "i < workerCount (sg_registry s)")
    case True
    have reg: "registry_inv (sg_registry s)" using inv by (simp add: sweeping_inv_def)
    have "find_participant (on_shard i (evict_stale now) (sg_registry s)) u = find_participant (sg_registry s) u"
      using live Evicting by (auto simp: find_participant_evict [OF reg True] finds_stale_def split: option.split)
    moreover have "p_uid p \<noteq> u" if "p \<in> set (stale_of now (reg_shards (sg_registry s) ! i))" for p
      using stale_of_found [OF reg True that] live Evicting by (auto simp: finds_stale_def)
    ultimately show ?thesis
      using a spared Evicting True same_topics_evict [OF _ True]
      by (auto simp: sweep_section_def sweep_evict_def alike_def)
  qed (use a spared Evicting in \<open>auto simp: sweep_section_def sweep_evict_def alike_def\<close>)
next
  case (Purging i)
  show ?thesis
  proof (cases "i < workerCount (sg_registry s)")
    case True
    have reg: "registry_inv (sg_registry s)" using inv by (simp add: sweeping_inv_def)
    show ?thesis
      using a spared Purging True same_topics_purge [OF _ reg True spared]
      by (auto simp: sweep_section_def sweep_purge_def alike_def find_participant_purge)
  qed (use a spared Purging in \<open>auto simp: sweep_section_def sweep_purge_def alike_def\<close>)
next
  case Pruning
  have "same_windows u (prune_windows (sw_stale (sg_sweep s)) (sg_rx s)) (sg_rx t)"
    using a inv spared by (intro same_windows_prune) (simp_all add: alike_def sweeping_inv_def)
  then show ?thesis using a spared Pruning by (simp add: sweep_section_def sweep_prune_def alike_def)
next
  case Swept
  then show ?thesis using a spared by (simp add: sweep_section_def)
qed

lemma stale_kept: "\<not> is_section e \<Longrightarrow> sg_sweep (sweep_event e s) = sg_sweep s"
  by (cases e) (simp_all add: case_prod_beta)

lemma alike_run:
  "sweeping_inv s \<Longrightarrow> sweeping_inv t \<Longrightarrow> alike u s t \<Longrightarrow> \<forall>p \<in> set (sw_stale (sg_sweep s)). p_uid p \<noteq> u \<Longrightarrow>
   never_stale u es s \<Longrightarrow>
   alike u (sweep_run es s) (sweep_run (filter (\<lambda>e. \<not> is_section e) es) t) \<and>
   (\<forall>p \<in> set (sw_stale (sg_sweep (sweep_run es s))). p_uid p \<noteq> u)"
proof (induction es arbitrary: s t)
  case (Cons e es)
  show ?case
  proof (cases "is_section e")
    case True
    then obtain now where e: "e = Ev_section now" by (cases e) simp_all
    have "alike u (sweep_event e s) t \<and> (\<forall>p \<in> set (sw_stale (sg_sweep (sweep_event e s))). p_uid p \<noteq> u)"
      using alike_section [OF Cons.prems(1,3) _ Cons.prems(4), of now] Cons.prems(5) by (simp add: e)
    then show ?thesis
      using Cons.IH [of "sweep_event e s" t] Cons.prems sweeping_inv_event [OF Cons.prems(1), of e] True by simp
  next
    case False
    then show ?thesis
      using Cons.IH [of "sweep_event e s" "sweep_event e t"] Cons.prems alike_event [OF False Cons.prems(1,2,3)]
        sweeping_inv_event [OF Cons.prems(1), of e] sweeping_inv_event [OF Cons.prems(2), of e]
      by (simp add: stale_kept)
  qed
qed simp

lemma sweeping_inv_start: "registry_inv reg \<Longrightarrow> rx_inv st \<Longrightarrow> sweeping_inv (sweep_start reg st)"
  by (simp add: sweeping_inv_def sweep_start_def)

text \<open>
  C17. A cleanup harms no living peer. Whatever the workers, the callers that register topics and the
  reliable streams do between the critical sections of the cleanup, if the cleanup does not find
  the peer timed out when it visits its shard, then the peer is not on its list of stale peers, and
  the peer's record, its entries among the publishers and subscribers of every topic, the callbacks of every
  topic, its receive windows and the messages of the peer that have been dispatched are exactly
  those of the same run without the cleanup.
\<close>
theorem sweep_spares_living_peers:
  assumes "registry_inv reg" "rx_inv st" "never_stale u es (sweep_start reg st)"
  shows "let s = sweep_run es (sweep_start reg st);
      t = sweep_run (filter (\<lambda>e. \<not> is_section e) es) (sweep_start reg st)
    in (\<forall>p \<in> set (sw_stale (sg_sweep s)). p_uid p \<noteq> u) \<and>
      find_participant (sg_registry s) u = find_participant (sg_registry t) u \<and>
      of_peer u (te_publishers (entry_at (sg_registry s) k)) = of_peer u (te_publishers (entry_at (sg_registry t) k)) \<and>
      of_peer u (te_subscribers (entry_at (sg_registry s) k)) = of_peer u (te_subscribers (entry_at (sg_registry t) k)) \<and>
      te_callbacks (entry_at (sg_registry s) k) = te_callbacks (entry_at (sg_registry t) k) \<and>
      window_at (sg_rx s) (window_key u k) = window_at (sg_rx t) (window_key u k) \<and>
      filter (\<lambda>m. uid_of m = u) (sg_out s) = filter (\<lambda>m. uid_of m = u) (sg_out t)"
proof -
  note inv = sweeping_inv_start [OF assms(1,2)]
  have "alike u (sweep_start reg st) (sweep_start reg st)"
    by (simp add: alike_def same_topics_def same_windows_def)
  from alike_run [OF inv inv this _ assms(3)] show ?thesis
    by (simp add: sweep_start_def sweep_begin_def alike_def same_topics_def peer_view_def same_windows_at)
qed

text \<open>A run in which peer 5 times out and peer 6 announces a topic between the sections.\<close>

definition lone_shard :: registry where
  "lone_shard = put_participant 5 (new_participant 1 0 5 (seconds 10) 0) (fresh_registry 1)"

lemma lone_shard_inv: "registry_inv lone_shard"
  by (auto simp: lone_shard_def new_participant_def intro!: inv_put_participant fresh_registry_inv)

definition demo_sweep :: "event list" where
  "demo_sweep = [Ev_section (seconds 11), Ev_heartbeat 2 0 6 [] (seconds 11), Ev_section (seconds 11),
     Ev_section (seconds 12), Ev_announce 2 0 6 ''t'' ''M'' True (seconds 12), Ev_section (seconds 12)]
     @ replicate 7 (Ev_section (seconds 12))"

theorem sweep_spares_living_peers_witness:
  "map fst (of_peer 6 (te_publishers (entry_at (sg_registry (sweep_run demo_sweep (sweep_start lone_shard no_windows)))
     (makeCompositeKey ''t'' ''M'')))) = [(2, 0, 6)]"
proof -
  have "never_stale 6 demo_sweep (sweep_start lone_shard no_windows)" by code_simp
  from sweep_spares_living_peers [OF lone_shard_inv rx_inv_no_windows this, of "makeCompositeKey ''t'' ''M''"]
  have "of_peer 6 (te_publishers (entry_at (sg_registry (sweep_run demo_sweep (sweep_start lone_shard no_windows)))
       (makeCompositeKey ''t'' ''M''))) =
     of_peer 6 (te_publishers (entry_at (sg_registry (sweep_run (filter (\<lambda>e. \<not> is_section e) demo_sweep)
       (sweep_start lone_shard no_windows))) (makeCompositeKey ''t'' ''M'')))"
    by (simp only: Let_def)
  moreover have "map fst (of_peer 6 (te_publishers (entry_at (sg_registry (sweep_run (filter (\<lambda>e. \<not> is_section e) demo_sweep)
       (sweep_start lone_shard no_windows))) (makeCompositeKey ''t'' ''M'')))) = [(2, 0, 6)]"
    by code_simp
  ultimately show ?thesis by (simp only:)
qed

section \<open>The peer that returns too late\<close>

definition announces :: "u64 \<Rightarrow> string \<Rightarrow> event \<Rightarrow> bool" where
  "announces u k e \<longleftrightarrow>
     (case e of Ev_announce pid tid uid tn mt isPub now \<Rightarrow> uid = u \<and> makeCompositeKey tn mt = k | _ \<Rightarrow> False)"

definition absent :: "u64 \<Rightarrow> string \<Rightarrow> registry \<Rightarrow> bool" where
  "absent u k reg \<longleftrightarrow>
     of_peer u (te_publishers (entry_at reg k)) = [] \<and> of_peer u (te_subscribers (entry_at reg k)) = []"

lemma absent_purge:
  assumes "registry_inv reg" "i < workerCount reg" "absent u k reg"
  shows "absent u k (on_shard i (purge_topics stale) reg)"
proof -
  have "of_peer u (filter P ps) = []" if "of_peer u ps = []" for P ps
    using that by (auto simp: of_peer_def filter_empty_conv)
  then show ?thesis
    using assms(3) by (simp add: absent_def entry_at_purge [OF assms(1,2)] Let_def purge_entry_def)
      (simp add: empty_entry_def of_peer_def)
qed

lemma absent_section:
  assumes "sweeping_inv s" "absent u k (sg_registry s)"
  shows "absent u k (sg_registry (sweep_section now s))"
proof -
  have reg: "registry_inv (sg_registry s)" using assms(1) by (simp add: sweeping_inv_def)
  have "absent u k (on_shard i (evict_stale now) (sg_registry s))" if "i < workerCount (sg_registry s)" for i
    using that assms(2) by (simp add: absent_def entry_at_def find_topic_evict)
  then show ?thesis
    using assms(2) absent_purge [OF reg _ assms(2)]
    by (auto simp: sweep_section_def sweep_evict_def sweep_purge_def sweep_prune_def split: sweep_pc.split)
qed

lemma absent_event:
  assumes "sweeping_inv s" "\<not> announces u k e" "absent u k (sg_registry s)"
  shows "absent u k (sg_registry (sweep_event e s))"
proof -
  have reg: "registry_inv (sg_registry s)" and sh: "has_shards (sg_registry s)"
    using assms(1) by (simp_all add: sweeping_inv_def registry_inv_def)
  note ins = of_peer_insert [OF entry_at_ok [OF reg, THEN conjunct1]] of_peer_insert [OF entry_at_ok [OF reg, THEN conjunct2]]
  show ?thesis
  proof (cases e)
    case (Ev_announce pid tid uid tn mt isPub now)
    then show ?thesis
      using assms(2,3) by (auto simp: announces_def absent_def entry_at_announce [OF sh] Let_def ins new_participant_def)
  qed (use assms(3) absent_section [OF assms(1,3)] in
    \<open>auto simp: absent_def entry_at_heartbeat sh entry_at_push entry_at_register case_prod_beta\<close>)
qed

text \<open>After the first round nothing is evicted any more.\<close>

fun second_round :: "sweep_pc \<Rightarrow> bool" where
  "second_round (Evicting i) = False"
| "second_round _ = True"

lemma known_kept:
  assumes "sweeping_inv s" "second_round (sw_pc (sg_sweep s))" "find_participant (sg_registry s) u \<noteq> None"
  shows "second_round (sw_pc (sg_sweep (sweep_event e s))) \<and> find_participant (sg_registry (sweep_event e s)) u \<noteq> None"
proof (cases e)
  case (Ev_section now)
  then show ?thesis
    using assms by (cases "sw_pc (sg_sweep s)")
      (simp_all add: sweep_section_def sweep_purge_def sweep_prune_def find_participant_purge)
qed (use assms in \<open>simp_all add: sweeping_inv_def registry_inv_def find_heartbeat find_announce find_register case_prod_beta\<close>)

lemma returning_run:
  "sweeping_inv s \<Longrightarrow> second_round (sw_pc (sg_sweep s)) \<Longrightarrow> absent u k (sg_registry s) \<Longrightarrow>
   \<forall>e \<in> set es. \<not> announces u k e \<Longrightarrow>
   absent u k (sg_registry (sweep_run es s)) \<and>
   (find_participant (sg_registry s) u \<noteq> None \<longrightarrow> find_participant (sg_registry (sweep_run es s)) u \<noteq> None)"
proof (induction es arbitrary: s)
  case (Cons e es)
  have "second_round (sw_pc (sg_sweep (sweep_event e s)))"
    using Cons.prems(2) by (cases e; cases "sw_pc (sg_sweep s)")
      (simp_all add: sweep_section_def sweep_purge_def sweep_prune_def case_prod_beta)
  then show ?case
    using Cons.IH [OF sweeping_inv_event [OF Cons.prems(1)], of e] Cons.prems absent_event [OF Cons.prems(1), of u k e]
      known_kept [OF Cons.prems(1,2), of u e] by auto
qed simp


text \<open>The returning peer of the witness: its heartbeat and its announcement come before the second round.\<close>

definition returned_peer :: sweeping where
  "returned_peer = sweep_run (replicate 2 (Ev_section (seconds 11)) @
     [Ev_heartbeat 1 0 5 [] (seconds 11), Ev_announce 1 0 5 ''t'' ''M'' True (seconds 11)])
     (sweep_start lone_shard no_windows)"


end
