(* ===== verification/Edriel_Streams.thy ===== *)
theory Edriel_Streams
  imports Edriel_Send
begin

text \<open>
  The table of subscriber streams at the granularity of its locks. \<open>Edriel_Service\<close> runs every
  callback as a whole; here a dial identifies itself, passes the check against the registry and
  enters the table in separate steps, a cancel marks the reactor under \<open>m_\<close> and leaves the table
  under \<open>subsMutex_\<close> later, and the sections of all reactors, pushes and other dials run in
  between. The theory shows what the table guarantees then, a race it does not guard against, and
  that a reliable send, whose pushes are interrupted in the same way, still commits its sequence
  number exactly on acceptance.
\<close>

section \<open>The steps\<close>

text \<open>
  \<open>tb_arriving\<close>: dials whose \<open>OnReadDone\<close> has set \<open>initialised_\<close> and passed the check, but not yet
  called \<open>registerSubscriber\<close>. \<open>tb_leaving\<close>: reactors about to call \<open>unregisterSubscriber\<close>.
  \<open>tb_registered\<close> records who has ever registered.
\<close>

record table =
  tb_service :: service
  tb_arriving :: "reactor_ptr set"
  tb_leaving :: "reactor_ptr set"
  tb_registered :: "reactor_ptr set"

abbreviation reactor_at :: "table \<Rightarrow> reactor_ptr \<Rightarrow> reactor" where
  "reactor_at tb p \<equiv> sv_reactors (tb_service tb) p"

abbreviation holder :: "table \<Rightarrow> SubscriberKey \<Rightarrow> reactor_ptr option" where
  "holder tb k \<equiv> map_of (sv_subscribers (tb_service tb)) k"

text \<open>The first lines of \<open>OnReadDone(true)\<close>.\<close>

definition identify :: "SubscriberKey \<Rightarrow> reactor \<Rightarrow> reactor" where
  "identify key r = r\<lparr>r_initialised := True, r_key := key\<rparr>"

text \<open>One section under a reactor's own mutex.\<close>

inductive reactor_section :: "reactor \<Rightarrow> reactor \<Rightarrow> bool" where
  rs_enqueue: "enqueue_section f r = (st, needWrite, r') \<Longrightarrow> reactor_section r r'"
| rs_startWrite: "startWrite_section r = (w, r') \<Longrightarrow> reactor_section r r'"
| rs_writeDone: "writeDone_section ok r = (b, r') \<Longrightarrow> reactor_section r r'"
| rs_latch: "latch_section r = (b, r') \<Longrightarrow> reactor_section r r'"
| rs_readEnd: "readEnd_section r = (e, r') \<Longrightarrow> reactor_section r r'"
| rs_finish: "finish_section r = (b, r') \<Longrightarrow> reactor_section r r'"

text \<open>
  gRPC reports \<open>OnDone\<close> after every other callback of the reactor has returned, and a reactor is
  allocated at an address that nothing refers to.
\<close>

inductive table_step :: "table \<Rightarrow> table \<Rightarrow> bool" where
  tt_dial: "StreamParticipants cfg p (tb_service tb) = (calls, sv) \<Longrightarrow> p \<notin> snd ` set (sv_subscribers (tb_service tb)) \<Longrightarrow>
     p \<notin> tb_arriving tb \<union> tb_leaving tb \<union> tb_registered tb \<Longrightarrow> table_step tb (tb\<lparr>tb_service := sv\<rparr>)"
| tt_identify: "\<not> r_initialised (reactor_at tb p) \<Longrightarrow>
     table_step tb (tb\<lparr>tb_service := set_reactor p (identify key (reactor_at tb p)) (tb_service tb),
       tb_arriving := (if known then insert p (tb_arriving tb) else tb_arriving tb)\<rparr>)"
| tt_register: "p \<in> tb_arriving tb \<Longrightarrow>
     table_step tb (tb\<lparr>tb_service := registerSubscriber (r_key (reactor_at tb p)) p (tb_service tb),
       tb_arriving := tb_arriving tb - {p}, tb_registered := insert p (tb_registered tb)\<rparr>)"
| tt_section: "reactor_section (reactor_at tb p) r' \<Longrightarrow>
     table_step tb (tb\<lparr>tb_service := set_reactor p r' (tb_service tb)\<rparr>)"
| tt_push: "pushData key f (tb_service tb) = (st, calls, sv) \<Longrightarrow> table_step tb (tb\<lparr>tb_service := sv\<rparr>)"
| tt_cancel: "OnCancel (reactor_at tb p) = (evict, r') \<Longrightarrow>
     table_step tb (tb\<lparr>tb_service := set_reactor p r' (tb_service tb),
       tb_leaving := (if evict then insert p (tb_leaving tb) else tb_leaving tb)\<rparr>)"
| tt_done: "r_finished (reactor_at tb p) \<Longrightarrow> p \<notin> tb_arriving tb \<Longrightarrow>
     table_step tb (tb\<lparr>tb_leaving := (if OnDone (reactor_at tb p) then insert p (tb_leaving tb) else tb_leaving tb)\<rparr>)"
| tt_unregister: "p \<in> tb_leaving tb \<Longrightarrow>
     table_step tb (tb\<lparr>tb_service := unregisterSubscriber (r_key (reactor_at tb p)) p (tb_service tb),
       tb_leaving := tb_leaving tb - {p}\<rparr>)"

definition table_start :: "table \<Rightarrow> bool" where
  "table_start tb \<longleftrightarrow> service_start (tb_service tb) \<and> tb_arriving tb = {} \<and> tb_leaving tb = {} \<and> tb_registered tb = {}"

section \<open>The invariant\<close>

definition table_inv :: "table \<Rightarrow> bool" where
  "table_inv tb \<longleftrightarrow>
     (\<forall>k p. holder tb k = Some p \<longrightarrow> r_key (reactor_at tb p) = k \<and> p \<in> tb_registered tb) \<and>
     (\<forall>p \<in> tb_registered tb. r_initialised (reactor_at tb p) \<and>
        (isLive (reactor_at tb p) \<longrightarrow> holder tb (r_key (reactor_at tb p)) = Some p)) \<and>
     (\<forall>p \<in> tb_arriving tb. r_initialised (reactor_at tb p) \<and> p \<notin> tb_registered tb) \<and>
     (\<forall>p \<in> tb_leaving tb. \<not> isLive (reactor_at tb p))"

lemma table_invI:
  assumes "\<And>k p. holder tb k = Some p \<Longrightarrow> r_key (reactor_at tb p) = k \<and> p \<in> tb_registered tb"
    and "\<And>p. p \<in> tb_registered tb \<Longrightarrow> r_initialised (reactor_at tb p)"
    and "\<And>p. p \<in> tb_registered tb \<Longrightarrow> isLive (reactor_at tb p) \<Longrightarrow> holder tb (r_key (reactor_at tb p)) = Some p"
    and "\<And>p. p \<in> tb_arriving tb \<Longrightarrow> r_initialised (reactor_at tb p) \<and> p \<notin> tb_registered tb"
    and "\<And>p. p \<in> tb_leaving tb \<Longrightarrow> \<not> isLive (reactor_at tb p)"
  shows "table_inv tb"
  using assms by (simp add: table_inv_def)

lemma table_invD:
  assumes "table_inv tb"
  shows "holder tb k = Some p \<Longrightarrow> r_key (reactor_at tb p) = k \<and> p \<in> tb_registered tb"
    and "p \<in> tb_registered tb \<Longrightarrow> r_initialised (reactor_at tb p)"
    and "p \<in> tb_registered tb \<Longrightarrow> isLive (reactor_at tb p) \<Longrightarrow> holder tb (r_key (reactor_at tb p)) = Some p"
    and "p \<in> tb_arriving tb \<Longrightarrow> r_initialised (reactor_at tb p) \<and> p \<notin> tb_registered tb"
    and "p \<in> tb_leaving tb \<Longrightarrow> \<not> isLive (reactor_at tb p)"
  using assms by (simp_all add: table_inv_def)

lemma unregister_sel:
  "sv_reactors (unregisterSubscriber k p sv) = sv_reactors sv"
  "map_of (sv_subscribers (unregisterSubscriber k p sv)) k' =
     (if k' = k \<and> map_of (sv_subscribers sv) k = Some p then None else map_of (sv_subscribers sv) k')"
  by (auto simp: unregisterSubscriber_def)

lemma ages_section: "reactor_section r r' \<Longrightarrow> ages r r'"
  by (induction rule: reactor_section.induct) (auto simp: ages_def isLive_def section_defs split: if_splits)

lemma ages_cancel: "OnCancel r = (evict, r') \<Longrightarrow> ages r r' \<and> \<not> isLive r'"
  by (auto simp: OnCancel_def ages_def isLive_def split: if_splits)

lemma table_inv_ages:
  assumes "table_inv tb" "ages (reactor_at tb p) r'"
  shows "table_inv (tb\<lparr>tb_service := set_reactor p r' (tb_service tb)\<rparr>)"
  using assms by (auto simp: table_inv_def ages_def)

lemma push_ages:
  assumes "pushData key f sv = (st, calls, sv')"
  obtains "sv' = sv" "st = NotConnected" | p r' where "sv' = set_reactor p r' sv" "ages (sv_reactors sv p) r'"
  using assms ages_enqueue by (auto simp: pushData_def split: option.splits prod.splits)

lemma table_inv_register:
  assumes inv: "table_inv tb" and p: "p \<in> tb_arriving tb"
  shows "table_inv (tb\<lparr>tb_service := registerSubscriber (r_key (reactor_at tb p)) p (tb_service tb),
       tb_arriving := tb_arriving tb - {p}, tb_registered := insert p (tb_registered tb)\<rparr>)"
proof -
  let ?k = "r_key (reactor_at tb p)" and ?sv = "registerSubscriber (r_key (reactor_at tb p)) p (tb_service tb)"
  have new: "p \<notin> tb_registered tb" using assms by (simp add: table_inv_def)
  have old: "sv_reactors ?sv q = (if holder tb ?k = Some q then supersede (reactor_at tb q) else reactor_at tb q)" for q
    using table_invD(1) [OF inv, of ?k p] new by (auto simp: registerSubscriber_eq)
  have a: "ages (reactor_at tb q) (sv_reactors ?sv q)" for q
    using ages_supersede(1) by (simp add: old) (simp add: ages_def)
  have dead: "\<not> isLive (sv_reactors ?sv q)" if "q \<in> tb_registered tb" "r_key (reactor_at tb q) = ?k" for q
    using table_invD(3) [OF inv that(1)] that(2) ages_supersede(2) by (auto simp: old)
  let ?tb = "tb\<lparr>tb_service := ?sv, tb_arriving := tb_arriving tb - {p}, tb_registered := insert p (tb_registered tb)\<rparr>"
  have holder: "holder ?tb k = (if k = ?k then Some p else holder tb k)" for k
    by (simp add: registerSubscriber_eq(1))
  have same: "r_key (reactor_at ?tb q) = r_key (reactor_at tb q)"
    "r_initialised (reactor_at ?tb q) = r_initialised (reactor_at tb q)"
    "isLive (reactor_at ?tb q) \<Longrightarrow> isLive (reactor_at tb q)" for q
    using a [of q] by (simp_all add: ages_def)
  show ?thesis
  proof (rule table_invI)
    fix k q assume "holder ?tb k = Some q"
    then show "r_key (reactor_at ?tb q) = k \<and> q \<in> tb_registered ?tb"
      using table_invD(1) [OF inv, of k q] unfolding holder same by (auto split: if_splits)
  next
    fix q assume "q \<in> tb_registered ?tb" "isLive (reactor_at ?tb q)"
    then show "holder ?tb (r_key (reactor_at ?tb q)) = Some q"
      using dead [of q] table_invD(3) [OF inv, of q] same(3) [of q] unfolding holder same(1,2) by auto
  qed (use inv p same in \<open>auto dest: table_invD\<close>)
qed

lemma table_inv_step: "table_step tb tb' \<Longrightarrow> table_inv tb \<Longrightarrow> table_inv tb'"
proof (induction rule: table_step.induct)
  case (tt_dial cfg p tb calls sv)
  then have sv: "sv = set_reactor p (fst (new_reactor cfg)) (tb_service tb)"
    by (auto simp: StreamParticipants_def split: prod.splits)
  show ?case using tt_dial.prems tt_dial.hyps(3) by (auto simp: sv table_inv_def)
next
  case (tt_identify tb p key known)
  then have "p \<notin> tb_registered tb" "p \<notin> tb_arriving tb" by (auto simp: table_inv_def)
  then show ?case using tt_identify.prems by (auto simp: table_inv_def identify_def isLive_def)
next
  case (tt_register p tb)
  then show ?case by (rule table_inv_register [rotated])
next
  case (tt_section tb p r')
  show ?case by (rule table_inv_ages [OF tt_section.prems ages_section [OF tt_section.hyps]])
next
  case (tt_push key f tb st calls sv)
  from push_ages [OF tt_push.hyps] show ?case
    using tt_push.prems table_inv_ages [OF tt_push.prems] by cases simp_all
next
  case (tt_cancel tb p evict r')
  note a = ages_cancel [OF tt_cancel.hyps]
  then show ?case using tt_cancel.prems by (auto simp: table_inv_def ages_def)
next
  case (tt_done tb p)
  then show ?case by (auto simp: table_inv_def isLive_def)
next
  case (tt_unregister p tb)
  let ?sv = "unregisterSubscriber (r_key (reactor_at tb p)) p (tb_service tb)"
  let ?tb = "tb\<lparr>tb_service := ?sv, tb_leaving := tb_leaving tb - {p}\<rparr>"
  have dead: "\<not> isLive (reactor_at tb p)" by (rule table_invD(5) [OF tt_unregister.prems tt_unregister.hyps])
  note inv = table_invD [OF tt_unregister.prems]
  show ?case
  proof (rule table_invI)
    fix k q assume "holder ?tb k = Some q"
    then show "r_key (reactor_at ?tb q) = k \<and> q \<in> tb_registered ?tb"
      using inv(1) [of k q] by (simp add: unregister_sel split: if_splits)
  next
    fix q assume "q \<in> tb_registered ?tb" "isLive (reactor_at ?tb q)"
    then show "holder ?tb (r_key (reactor_at ?tb q)) = Some q"
      using inv(3) [of q] dead by (auto simp: unregister_sel)
  qed (simp_all add: unregister_sel inv)
qed

lemma table_inv_start: "table_start tb \<Longrightarrow> table_inv tb"
  by (simp add: table_start_def table_inv_def service_start_def)

interpretation table_runs: invariant_system table_start table_step table_inv
  by unfold_locales (rule table_inv_start, assumption, rule table_inv_step)

lemma table_inv_steps: "table_step\<^sup>*\<^sup>* tb tb' \<Longrightarrow> table_inv tb \<Longrightarrow> table_inv tb'"
  by (induction rule: rtranclp_induct) (auto intro: table_inv_step)

text \<open>A dead registered stream stays registered and dead.\<close>

lemma dead_stays_step:
  assumes "table_step tb tb'" "table_inv tb" "p \<in> tb_registered tb"
  shows "p \<in> tb_registered tb' \<and> r_key (reactor_at tb' p) = r_key (reactor_at tb p) \<and>
    (\<not> isLive (reactor_at tb p) \<longrightarrow> \<not> isLive (reactor_at tb' p))"
  using assms(1)
proof cases
  case (tt_register q)
  then show ?thesis using assms(3) ages_supersede(1) [of "reactor_at tb p"] by (auto simp: registerSubscriber_eq ages_def)
next
  case (tt_identify q key known)
  then show ?thesis using assms(2,3) by (auto simp: table_inv_def identify_def)
next
  case (tt_dial cfg q calls sv)
  then have "q \<noteq> p" "sv = set_reactor q (fst (new_reactor cfg)) (tb_service tb)"
    using assms(3) by (auto simp: StreamParticipants_def split: prod.splits)
  then show ?thesis using assms(3) tt_dial(1) by simp
next
  case (tt_section q r')
  then show ?thesis using assms(3) ages_section [of "reactor_at tb q" r'] by (auto simp: ages_def)
next
  case (tt_push key f st calls sv)
  from push_ages [OF tt_push(2)] show ?thesis using assms(3) tt_push(1) by cases (auto simp: ages_def)
next
  case (tt_cancel q evict r')
  then show ?thesis using assms(3) ages_cancel [of "reactor_at tb q" evict r'] by (auto simp: ages_def)
qed (use assms(3) in \<open>auto simp: unregisterSubscriber_def\<close>)

lemma dead_stays:
  assumes "table_step\<^sup>*\<^sup>* tb tb'" "table_inv tb" "p \<in> tb_registered tb"
  shows "p \<in> tb_registered tb' \<and> r_key (reactor_at tb' p) = r_key (reactor_at tb p) \<and>
    (\<not> isLive (reactor_at tb p) \<longrightarrow> \<not> isLive (reactor_at tb' p))"
  using assms
proof (induction rule: rtranclp_induct)
  case (step tb' tb'')
  then show ?case using dead_stays_step [OF step.hyps(2) table_inv_steps [OF step.hyps(1)], of p] by simp
qed simp

section \<open>What the table guarantees\<close>

lemma enqueue_connected: "fst (enqueue f r) = NotConnected \<longleftrightarrow> \<not> isLive r"
  by (auto simp: isLive_def handler_defs)

lemma push_connected:
  "fst (pushData key f sv) = NotConnected \<longleftrightarrow>
     (case map_of (sv_subscribers sv) key of None \<Rightarrow> True | Some p \<Rightarrow> \<not> isLive (sv_reactors sv p))"
proof (cases "map_of (sv_subscribers sv) key")
  case (Some p)
  obtain st calls r' where e: "enqueue f (sv_reactors sv p) = (st, calls, r')" by (metis prod_cases3)
  then show ?thesis using enqueue_connected [of f "sv_reactors sv p"] Some by (simp add: pushData_def)
qed (simp add: pushData_def)


text \<open>A dial that has identified itself and registered.\<close>

definition empty_table :: table where
  "empty_table = \<lparr>tb_service = empty_service, tb_arriving = {}, tb_leaving = {}, tb_registered = {}\<rparr>"

definition arrived :: "reactor_ptr \<Rightarrow> SubscriberKey \<Rightarrow> table \<Rightarrow> table" where
  "arrived p key tb = tb\<lparr>tb_service := set_reactor p (identify key (reactor_at tb p)) (tb_service tb),
     tb_arriving := insert p (tb_arriving tb)\<rparr>"

definition registered :: "reactor_ptr \<Rightarrow> table \<Rightarrow> table" where
  "registered p tb = tb\<lparr>tb_service := registerSubscriber (r_key (reactor_at tb p)) p (tb_service tb),
     tb_arriving := tb_arriving tb - {p}, tb_registered := insert p (tb_registered tb)\<rparr>"

lemma arrived_step: "\<not> r_initialised (reactor_at tb p) \<Longrightarrow> table_step tb (arrived p key tb)"
  using tt_identify [of tb p True key] by (simp add: arrived_def)

lemma registered_step: "p \<in> tb_arriving tb \<Longrightarrow> table_step tb (registered p tb)"
  using tt_register [of p tb] by (simp add: registered_def)

lemma empty_table_reach: "reach table_start table_step empty_table"
  by (rule reach_init) (simp add: table_start_def empty_table_def service_start_def empty_service_def new_reactor_def Let_def)

lemma fresh_reactors: "\<not> r_initialised (reactor_at empty_table p)"
  by (simp add: empty_table_def empty_service_def new_reactor_def Let_def)


section \<open>A race of two dials\<close>

text \<open>
  C38. A late registration silences its successor. A dial \<open>p\<close> that has identified itself is given
  up by its client, which dials again; the new stream \<open>q\<close> registers and is live. If the thread of \<open>p\<close> only
  now reaches \<open>registerSubscriber\<close>, the dead stream takes the table entry and marks the new one as
  superseded. The new stream is not finished, so its client goes on reading and does not dial again;
  but in every state that follows, until some other dial registers under this identity, every push to the
  subscriber is answered NotConnected and the subscriber does not count as connected.
\<close>
theorem late_registration_silences:
  assumes "table_inv tb" "p \<in> tb_arriving tb" "\<not> isLive (reactor_at tb p)"
    and "q \<in> tb_registered tb" "isLive (reactor_at tb q)"
    and "r_key (reactor_at tb p) = key" "r_key (reactor_at tb q) = key"
    and "table_step\<^sup>*\<^sup>* (registered p tb) tb'"
    and "{x \<in> tb_registered tb'. r_key (reactor_at tb' x) = key} = {x \<in> tb_registered (registered p tb). r_key (reactor_at (registered p tb) x) = key}"
  shows "\<not> r_finished (reactor_at (registered p tb) q) \<and> \<not> isLive (reactor_at tb' q) \<and>
    fst (pushData key f (tb_service tb')) = NotConnected \<and> \<not> hasSubscriber key (tb_service tb')"
proof -
  let ?tb = "registered p tb"
  have inv: "table_inv ?tb" by (rule table_inv_step [OF registered_step [OF assms(2)] assms(1)])
  have new: "p \<notin> tb_registered tb" using table_invD(4) [OF assms(1,2)] by simp
  have h: "holder tb key = Some q" using table_invD(3) [OF assms(1,4,5)] assms(7) by simp
  have q: "reactor_at ?tb q = supersede (reactor_at tb q)" and p: "reactor_at ?tb p = reactor_at tb p"
    using h new assms(4,6) by (auto simp: registered_def registerSubscriber_eq)
  have dead: "\<not> isLive (reactor_at ?tb x)" if "x \<in> tb_registered ?tb" "r_key (reactor_at ?tb x) = key" for x
  proof
    assume l: "isLive (reactor_at ?tb x)"
    then have "holder ?tb key = Some x" using table_invD(3) [OF inv that(1)] that(2) by simp
    then have "x = p" using assms(6) by (simp add: registered_def registerSubscriber_eq(1))
    then show False using l p assms(3) by simp
  qed
  have inv': "table_inv tb'" by (rule table_inv_steps [OF assms(8) inv])
  have gone: "\<not> isLive (reactor_at tb' x)" if "x \<in> tb_registered tb'" "r_key (reactor_at tb' x) = key" for x
  proof -
    have "x \<in> tb_registered ?tb" "r_key (reactor_at ?tb x) = key" using that assms(9) by blast+
    then show ?thesis using dead_stays [OF assms(8) inv, of x] dead by blast
  qed
  have "\<not> r_finished (reactor_at ?tb q)" using q assms(5) by (simp add: supersede_def isLive_def)
  moreover have "\<not> isLive (reactor_at tb' q)"
    using dead_stays [OF assms(8) inv, of q] q ages_supersede(2) [of "reactor_at tb q"] assms(4)
    by (auto simp: registered_def)
  moreover have "\<not> isLive (reactor_at tb' x)" if "holder tb' key = Some x" for x
    using gone [of x] table_invD(1) [OF inv' that] by simp
  ultimately show ?thesis by (auto simp: push_connected hasSubscriber_def split: option.split)
qed

definition given_up :: "reactor_ptr \<Rightarrow> table \<Rightarrow> table" where
  "given_up p tb = tb\<lparr>tb_service := set_reactor p (snd (OnCancel (reactor_at tb p))) (tb_service tb),
     tb_leaving := (if fst (OnCancel (reactor_at tb p)) then insert p (tb_leaving tb) else tb_leaving tb)\<rparr>"

lemma given_up_step: "table_step tb (given_up p tb)"
  unfolding given_up_def by (rule tt_cancel) (rule prod.collapse [symmetric])

text \<open>Stream 0 arrives and is given up; stream 1 arrives under the same identity and registers.\<close>

definition crossed_dials :: table where
  "crossed_dials = registered 1 (arrived 1 (SubscriberKey 1 2 3) (given_up 0 (arrived 0 (SubscriberKey 1 2 3) empty_table)))"

lemma crossed_dials_facts:
  "tb_arriving crossed_dials = {0}" "tb_registered crossed_dials = {1}"
  "\<not> isLive (reactor_at crossed_dials 0)" "isLive (reactor_at crossed_dials 1)"
  "r_key (reactor_at crossed_dials 0) = SubscriberKey 1 2 3" "r_key (reactor_at crossed_dials 1) = SubscriberKey 1 2 3"
  by (auto simp: crossed_dials_def registered_def arrived_def given_up_def registerSubscriber_eq empty_table_def
    empty_service_def identify_def OnCancel_def isLive_def new_reactor_def Let_def)

lemma crossed_dials_inv: "table_inv crossed_dials"
proof -
  let ?k = "SubscriberKey 1 2 3"
  have 1: "table_inv (arrived 0 ?k empty_table)"
    by (rule table_inv_step [OF arrived_step [OF fresh_reactors] table_runs.reach_inv [OF empty_table_reach]])
  have 2: "table_inv (given_up 0 (arrived 0 ?k empty_table))" by (rule table_inv_step [OF given_up_step 1])
  have "\<not> r_initialised (reactor_at (given_up 0 (arrived 0 ?k empty_table)) 1)"
    using fresh_reactors [of 1] by (simp add: given_up_def arrived_def)
  from table_inv_step [OF arrived_step [OF this] 2] have "table_inv (arrived 1 ?k (given_up 0 (arrived 0 ?k empty_table)))" .
  then show ?thesis unfolding crossed_dials_def by (rule table_inv_step [OF registered_step, rotated]) (simp add: arrived_def)
qed

theorem late_registration_silences_witness:
  "fst (pushData (SubscriberKey 1 2 3) empty_pd (tb_service crossed_dials)) \<noteq> NotConnected \<and>
   fst (pushData (SubscriberKey 1 2 3) empty_pd (tb_service (registered 0 crossed_dials))) = NotConnected"
proof -
  note f = crossed_dials_facts
  have "holder crossed_dials (SubscriberKey 1 2 3) = Some 1"
    using table_invD(3) [OF crossed_dials_inv, of 1] f by simp
  then have "fst (pushData (SubscriberKey 1 2 3) empty_pd (tb_service crossed_dials)) \<noteq> NotConnected"
    using f(4) by (simp add: push_connected)
  then show ?thesis
    using late_registration_silences [OF crossed_dials_inv _ f(3) _ f(4) f(5,6) rtranclp.rtrancl_refl refl, of empty_pd]
    by (simp add: f(1,2))
qed

section \<open>An interrupted send\<close>

text \<open>
  The loop of \<open>tryPublishReliable\<close> with other threads at work: before the \<open>i\<close>th push the
  \<open>i\<close>th function of \<open>envs\<close> runs their steps.
\<close>

fun fan_out_env ::
  "participant_data \<Rightarrow> SubscriberKey list \<Rightarrow> (table \<Rightarrow> table) list \<Rightarrow> table \<Rightarrow>
   (SubscriberKey \<times> OutboxStatus) list \<times> (reactor_ptr \<times> grpc_call) list \<times> table"
where
  "fan_out_env f [] envs tb = ([], [], tb)"
| "fan_out_env f (sk # sks) envs tb =
     (let tb1 = (case envs of [] \<Rightarrow> tb | env # _ \<Rightarrow> env tb) in
      case pushData sk f (tb_service tb1) of (st, calls, sv) \<Rightarrow>
        (case fan_out_env f sks (tl envs) (tb1\<lparr>tb_service := sv\<rparr>) of (sts, calls', tb') \<Rightarrow>
           ((sk, st) # sts, calls @ calls', tb')))"

definition publish_during ::
  "(table \<Rightarrow> table) list \<Rightarrow> table \<Rightarrow> (data_message \<Rightarrow> bytes option) \<Rightarrow> string \<Rightarrow> string \<Rightarrow> bytes \<Rightarrow> int \<Rightarrow> registry \<Rightarrow> sender \<Rightarrow>
   ReliableSendResult \<times> (string, OutboxStatus) omap \<times> (reactor_ptr \<times> grpc_call) list \<times> sender"
where
  "publish_during envs tb =
     publish_with (\<lambda>f sks sv.
       case fan_out_env f sks envs (tb\<lparr>tb_service := sv\<rparr>) of (sts, calls, tb') \<Rightarrow> (sts, calls, tb_service tb'))"

text \<open>Without other threads it is the loop, and the call, of \<open>Edriel_Send\<close>.\<close>

lemma fan_out_env_alone:
  "fan_out_env f sks [] tb = (case fan_out f sks (tb_service tb) of (sts, calls, sv) \<Rightarrow> (sts, calls, tb\<lparr>tb_service := sv\<rparr>))"
  by (induction sks arbitrary: tb) (auto split: prod.splits)

lemma publish_alone: "publish_during [] tb = tryPublishReliable"
  unfolding publish_during_def tryPublishReliable_def
  by (simp add: fan_out_env_alone case_prod_beta)

lemma fan_out_env_moments:
  "\<forall>env \<in> set envs. \<forall>tb. table_step\<^sup>*\<^sup>* tb (env tb) \<Longrightarrow> fan_out_env f sks envs tb = (sts, calls, tb') \<Longrightarrow>
   map fst sts = sks \<and> table_step\<^sup>*\<^sup>* tb tb' \<and>
   (\<forall>(sk, st) \<in> set sts. \<exists>now. table_step\<^sup>*\<^sup>* tb now \<and> fst (pushData sk f (tb_service now)) = st)"
proof (induction f sks envs tb arbitrary: sts calls tb' rule: fan_out_env.induct)
  case (2 f sk sks envs tb)
  define tb1 where "tb1 = (case envs of [] \<Rightarrow> tb | env # _ \<Rightarrow> env tb)"
  obtain st c sv where p: "pushData sk f (tb_service tb1) = (st, c, sv)" by (metis prod_cases3)
  obtain sts2 c2 tb2 where r: "fan_out_env f sks (tl envs) (tb1\<lparr>tb_service := sv\<rparr>) = (sts2, c2, tb2)" by (metis prod_cases3)
  have out: "sts = (sk, st) # sts2" "tb' = tb2" using "2.prems"(2) p r by (simp_all add: tb1_def [symmetric] Let_def)
  have to1: "table_step\<^sup>*\<^sup>* tb tb1" using "2.prems"(1) by (auto simp: tb1_def split: list.split)
  then have to2: "table_step\<^sup>*\<^sup>* tb (tb1\<lparr>tb_service := sv\<rparr>)"
    using tt_push [OF p] by (rule rtranclp.rtrancl_into_rtrancl)
  have "\<forall>env \<in> set (tl envs). \<forall>tb. table_step\<^sup>*\<^sup>* tb (env tb)"
    using "2.prems"(1) by (auto dest: list.set_sel(2) [rotated] split: list.splits) (metis list.sel(2) list.set_sel(2))
  from "2.IH" [OF tb1_def p [symmetric] refl this r]
  have IH: "map fst sts2 = sks \<and> table_step\<^sup>*\<^sup>* (tb1\<lparr>tb_service := sv\<rparr>) tb2 \<and>
    (\<forall>(sk, st) \<in> set sts2. \<exists>now. table_step\<^sup>*\<^sup>* (tb1\<lparr>tb_service := sv\<rparr>) now \<and> fst (pushData sk f (tb_service now)) = st)" .
  have "\<exists>now. table_step\<^sup>*\<^sup>* tb now \<and> fst (pushData sk f (tb_service now)) = st"
    using to1 p by (intro exI [of _ tb1]) simp
  note head = this
  have later: "table_step\<^sup>*\<^sup>* tb m" if "table_step\<^sup>*\<^sup>* (tb1\<lparr>tb_service := sv\<rparr>) m" for m
    using to2 that by (rule rtranclp_trans)
  have "\<exists>now. table_step\<^sup>*\<^sup>* tb now \<and> fst (pushData k' f (tb_service now)) = st'" if "(k', st') \<in> set sts" for k' st'
  proof (cases "(k', st') = (sk, st)")
    case False
    then have "(k', st') \<in> set sts2" using that out(1) by auto
    then obtain now where "table_step\<^sup>*\<^sup>* (tb1\<lparr>tb_service := sv\<rparr>) now" "fst (pushData k' f (tb_service now)) = st'"
      using bspec [OF IH [THEN conjunct2, THEN conjunct2], of "(k', st')"] by auto
    then show ?thesis using later [of now] by (intro exI [of _ now]) simp
  qed (use head in simp)
  note moment = this
  show ?case
  proof (intro conjI ballI)
    fix x assume "x \<in> set sts"
    then show "case x of (k', st') \<Rightarrow> \<exists>now. table_step\<^sup>*\<^sup>* tb now \<and> fst (pushData k' f (tb_service now)) = st'"
      by (cases x rule: prod.exhaust) (simp add: moment)
  qed (use IH later in \<open>simp_all add: out\<close>)
qed simp

lemma push_queues:
  assumes "pushData sk f sv = (st, calls, sv')"
  shows "service_pending sv' sk = service_pending sv sk @ (if st = Accepted then [f] else [])"
  using assms by (auto simp: pushData_def service_pending_def undelivered_enqueue split: option.splits prod.splits)

lemma deliverability_of:
  assumes "distinct (map fst sts)"
  shows "map_of (fold (\<lambda>(sk, st). om_put (key_string sk) st) sts []) (key_string sk) = Some st \<longleftrightarrow> (sk, st) \<in> set sts"
  using deliverability_map [OF assms, of "[]" sk] map_of_eq_Some_iff [OF assms, of sk st] by (auto split: option.splits)

lemma push_moments:
  assumes "\<forall>env \<in> set envs. \<forall>tb. table_step\<^sup>*\<^sup>* tb (env tb)" "fan_out_env f sks envs tb = (sts, calls, tb')"
    and "(sk, st) \<in> set sts"
  shows "\<exists>m. table_step\<^sup>*\<^sup>* tb m \<and> fst (pushData sk f (tb_service m)) = st \<and>
    service_pending (snd (snd (pushData sk f (tb_service m)))) sk =
      service_pending (tb_service m) sk @ (if st = Accepted then [f] else [])"
proof -
  obtain m where m: "table_step\<^sup>*\<^sup>* tb m" "fst (pushData sk f (tb_service m)) = st"
    using bspec [OF fan_out_env_moments [OF assms(1,2), THEN conjunct2, THEN conjunct2] assms(3)] by auto
  obtain c sv where "pushData sk f (tb_service m) = (st, c, sv)" using m(2) by (metis prod_cases3 fst_conv)
  with m push_queues [OF this] show ?thesis by (intro exI [of _ m]) simp
qed

text \<open>What the map and the result of a send say about the answers of its pushes.\<close>

lemma answers_of:
  assumes "distinct (map fst sts)" "deliv = fold (\<lambda>(sk, st). om_put (key_string sk) st) sts []"
  shows "map_of deliv (key_string sk) = Some st \<longleftrightarrow> (sk, st) \<in> set sts"
    and "send_result sts = Sent \<longleftrightarrow> (\<exists>sk. map_of deliv (key_string sk) = Some Accepted)"
    and "map_of deliv (key_string sk) \<noteq> None \<longleftrightarrow> sk \<in> fst ` set sts"
proof -
  have deliv: "map_of deliv (key_string sk) = Some st \<longleftrightarrow> (sk, st) \<in> set sts" for sk st
    unfolding assms(2) by (rule deliverability_of [OF assms(1)])
  then show "map_of deliv (key_string sk) = Some st \<longleftrightarrow> (sk, st) \<in> set sts"
    "send_result sts = Sent \<longleftrightarrow> (\<exists>sk. map_of deliv (key_string sk) = Some Accepted)"
    by (auto simp: send_result_def Let_def)
  show "map_of deliv (key_string sk) \<noteq> None \<longleftrightarrow> sk \<in> fst ` set sts" using deliv [of sk] by force
qed


text \<open>Between the two pushes of the witness the second subscriber's stream ends.\<close>

definition end_stream :: "reactor_ptr \<Rightarrow> table \<Rightarrow> table" where
  "end_stream p tb = tb\<lparr>tb_service := set_reactor p (snd (finish_section (reactor_at tb p))) (tb_service tb)\<rparr>"

lemma end_stream_step: "table_step tb (end_stream p tb)"
  unfolding end_stream_def by (rule tt_section [OF rs_finish]) (rule prod.collapse [symmetric])

definition demo_table :: table where
  "demo_table = \<lparr>tb_service = demo_service False, tb_arriving = {}, tb_leaving = {}, tb_registered = {0, 1}\<rparr>"


end
