(* ===== verification/Edriel_Examples.thy ===== *)
theory Edriel_Examples
  imports Edriel_Sweep
begin

text \<open>
  The two example programs (\<open>examples/publisher.cpp\<close>, \<open>examples/subscriber.cpp\<close>) on top of the
  library: a publisher that sends one telemetry record per second and a subscriber with one
  callback. The theory composes the registration of both, all that their nodes do on their own in the
  meantime (heartbeats, announcements, the sections of cleanups, reliable frames), the send and the reception.
\<close>

section \<open>The programs\<close>

text \<open>\<open>robot::Telemetry\<close>, with doubles as their values, and the record the publisher sends.\<close>

record telemetry =
  tl_node_id :: u32
  tl_battery_voltage :: rat
  tl_wheel_rpm :: rat

definition sample :: telemetry where
  "sample = \<lparr>tl_node_id = 42, tl_battery_voltage = rnd64 (114 / 10), tl_wheel_rpm = rnd64 1830\<rparr>"

definition telemetry_type :: string where
  "telemetry_type = ''robot.Telemetry''"

text \<open>
  The three \<open>main\<close> functions up to \<open>io.run\<close>, on a node that the constructor made: each returns 1 or
  starts the node. \<open>announce\<close> is the success of \<open>sendPacket\<close>, \<open>built\<close> that of the gRPC server.
\<close>

datatype program = Exits int | Runs node

definition node_main :: "bool \<Rightarrow> node \<Rightarrow> program" where
  "node_main built nd = Runs (startAutoDiscovery built nd)"

definition publisher_main :: "(topic_advertisement \<Rightarrow> bool) \<Rightarrow> bool \<Rightarrow> node \<Rightarrow> program" where
  "publisher_main announce built nd =
     (case registerPublisherTopic announce ''telemetry'' telemetry_type False (nd_registry nd) of
        (ok, reg) \<Rightarrow> if ok then Runs (startAutoDiscovery built (set_registry reg nd)) else Exits 1)"

text \<open>The callback \<open>onTelemetry\<close> of the subscriber is callback 0.\<close>

definition subscriber_main :: "(topic_advertisement \<Rightarrow> bool) \<Rightarrow> bool \<Rightarrow> node \<Rightarrow> program" where
  "subscriber_main announce built nd =
     (case registerSubscriberTopic_callback announce ''telemetry'' telemetry_type (Some 0) False (nd_registry nd) (nd_subscribed nd) of
        (ok, reg, subs) \<Rightarrow>
          if ok then Runs (startAutoDiscovery built ((set_registry reg nd)\<lparr>nd_subscribed := subs\<rparr>)) else Exits 1)"

text \<open>
  The timer handler of the publisher: the datagrams it posts, whether it arms the timer again, and
  the sender. What it prints depends on the result of the send, what it does next does not.
\<close>

definition publishLoop ::
  "(message \<Rightarrow> bytes option) \<Rightarrow> (data_message \<Rightarrow> bytes option) \<Rightarrow> (telemetry \<Rightarrow> bytes option) \<Rightarrow> bool \<Rightarrow> int \<Rightarrow>
   registry \<Rightarrow> sender \<Rightarrow> bytes list \<times> bool \<times> sender"
where
  "publishLoop ser_message ser_data encode ec now reg sd =
     (if ec then ([], False, sd)
      else case sendMessage ser_message ser_data ''telemetry'' telemetry_type (encode sample) now reg sd of
        (ok, datagrams, calls, sd') \<Rightarrow> (datagrams, True, sd'))"

section \<open>What a node does on its own\<close>

text \<open>Everything but calls of the registration functions.\<close>

primrec unasked :: "event \<Rightarrow> bool" where
  "unasked (Ev_section now) = True"
| "unasked (Ev_heartbeat pid tid uid eps now) = True"
| "unasked (Ev_announce pid tid uid tn mt isPub now) = True"
| "unasked (Ev_register tn mt rel) = False"
| "unasked (Ev_callback tn mt rel cb) = False"
| "unasked (Ev_frame m) = True"
| "unasked (Ev_stream u) = True"

text \<open>It neither makes a topic reliable nor touches callbacks.\<close>

definition topic_kept :: "topic_entry \<Rightarrow> topic_entry \<Rightarrow> bool" where
  "topic_kept e e' \<longleftrightarrow> te_callbacks e' = te_callbacks e \<and> (te_reliable e' \<longrightarrow> te_reliable e)"

lemma kept_announce:
  "has_shards reg \<Longrightarrow> topic_kept (entry_at reg k) (entry_at (handleTopicAnnouncement pid tid uid tn mt isPub now reg) k)"
  by (simp add: entry_at_announce topic_kept_def Let_def)

lemma kept_purge:
  "registry_inv reg \<Longrightarrow> i < workerCount reg \<Longrightarrow> topic_kept (entry_at reg k) (entry_at (on_shard i (purge_topics stale) reg) k)"
  by (auto simp: entry_at_purge topic_kept_def Let_def purge_entry_def deserted_def empty_entry_def)

lemma kept_event:
  assumes "sweeping_inv s" "unasked e"
  shows "topic_kept (entry_at (sg_registry s) k) (entry_at (sg_registry (sweep_event e s)) k)"
proof -
  have inv: "registry_inv (sg_registry s)" "has_shards (sg_registry s)"
    using assms(1) by (simp_all add: sweeping_inv_def registry_inv_def)
  show ?thesis
  proof (cases e)
    case (Ev_section now)
    then show ?thesis
      using kept_purge [OF inv(1)]
      by (auto simp: sweep_section_def sweep_evict_def sweep_purge_def sweep_prune_def entry_at_def find_topic_evict
        topic_kept_def split: sweep_pc.split)
  qed (use assms inv in \<open>simp_all add: entry_at_heartbeat kept_announce case_prod_beta topic_kept_def [of x x for x]\<close>)
qed

lemma kept_run:
  "sweeping_inv s \<Longrightarrow> \<forall>e \<in> set es. unasked e \<Longrightarrow>
   topic_kept (entry_at (sg_registry s) k) (entry_at (sg_registry (sweep_run es s)) k)"
proof (induction es arbitrary: s)
  case (Cons e es)
  from kept_event [OF Cons.prems(1)] Cons.IH [OF sweeping_inv_event [OF Cons.prems(1)]] Cons.prems(2)
  show ?case by (auto simp: topic_kept_def)
qed (simp add: topic_kept_def)

section \<open>The examples together\<close>

abbreviation telemetry_key :: string where
  "telemetry_key \<equiv> makeCompositeKey ''telemetry'' telemetry_type"

lemma start_keeps_registry [simp]: "nd_registry (startAutoDiscovery built nd) = nd_registry nd"
  by (auto simp: nd_registry_def startAutoDiscovery_def initializeAutoDiscovery_def startReceivePipeline_def
    startGrpcServer_def Let_def split: option.splits)

lemma subscriber_entry:
  assumes "subscriber_main announce built nd = Runs nd'" "registry_inv (nd_registry nd)"
    and "find_topic (nd_registry nd) telemetry_key = None"
  shows "registry_inv (nd_registry nd')"
    and "te_callbacks (entry_at (nd_registry nd') telemetry_key) = [\<lparr>cb_messageType = telemetry_type, cb_invoke = Some 0\<rparr>]"
proof -
  let ?r = "registerSubscriberTopic_callback announce ''telemetry'' telemetry_type (Some 0) False (nd_registry nd) (nd_subscribed nd)"
  have reg': "nd_registry nd' = fst (snd ?r)"
    using assms(1)
    by (auto simp: subscriber_main_def nd_registry_def [of "nd\<lparr>nd_subscribed := x\<rparr>" for nd x] set_registry_def
      split: prod.splits if_splits)
  have "has_shards (nd_registry nd)" using assms(2) by (simp add: registry_inv_def)
  have entry: "entry_at (nd_registry nd) telemetry_key = empty_entry" using assms(3) by (simp add: entry_at_def)
  show "registry_inv (nd_registry nd')" unfolding reg' by (rule inv_subscriber_callback [OF assms(2)])
  show "te_callbacks (entry_at (nd_registry nd') telemetry_key) = [\<lparr>cb_messageType = telemetry_type, cb_invoke = Some 0\<rparr>]"
    using \<open>has_shards (nd_registry nd)\<close> entry
    by (simp add: reg' registerSubscriberTopic_callback_def registerSubscriberTopic_def Let_def entry_at_register
      entry_at_push TopicInfo_def) (simp add: empty_entry_def)
qed

lemma publisher_entry:
  assumes "publisher_main announce built nd = Runs nd'" "registry_inv (nd_registry nd)"
  shows "registry_inv (nd_registry nd')" "\<not> te_reliable (entry_at (nd_registry nd') telemetry_key)"
proof -
  have reg': "nd_registry nd' = register_entry ''telemetry'' telemetry_type False (nd_registry nd)"
    using assms(1) by (auto simp: publisher_main_def registerPublisherTopic_def split: if_splits)
  have "has_shards (nd_registry nd)" using assms(2) by (simp add: registry_inv_def)
  then show "registry_inv (nd_registry nd')" "\<not> te_reliable (entry_at (nd_registry nd') telemetry_key)"
    using inv_register_entry [OF assms(2)] by (simp_all add: reg' entry_at_register)
qed

text \<open>
  The examples work together. Whatever both nodes do on their own after the programs have registered, each tick of
  the publisher arms the timer for the next, and if its record encodes to a packet that fits
  it posts one datagram; when a subscriber whose worker has caught up receives it, the worker's next turn calls
  \<open>onTelemetry\<close>, once, with the published record.
\<close>

theorem examples_work_together:
  assumes "registry_inv (nd_registry pub)" "rx_inv prx" "publisher_main announce built pub = Runs pub1"
    and "registry_inv (nd_registry sub)" "rx_inv srx" "find_topic (nd_registry sub) telemetry_key = None"
    and "subscriber_main announce' built' sub = Runs sub1"
    and events: "\<forall>e \<in> set pes. unasked e" "\<forall>e \<in> set ses. unasked e"
    and regs: "preg2 = sg_registry (sweep_run pes (sweep_start (nd_registry pub1) prx))" "sreg2 = sg_registry (sweep_run ses (sweep_start (nd_registry sub1) srx))"
    and tick: "publishLoop ser_message ser_data encode False now preg2 sd = (datagrams, again, sd')"
    and codec: "encode sample = Some payload" "types telemetry_type = Some decode" "decode payload = Some sample"
      "d = stamped ''telemetry'' telemetry_type payload (p_tid (reg_self preg2)) preg2"
      "ser_message (Content_data_message d) = Some packet" "parse packet = Some (Content_data_message d)"
      "data_layout packet ''telemetry'' telemetry_type" "length packet + 4 \<le> recvBufferSize"
    and pl: "pl_registry pl = sreg2" "pipeline_inv pl" "i = topic_shard sreg2 telemetry_key"
      "\<not> rg_closed (pl_rings pl ! i)" "queued i pl = []"
    and buffer: "view mem buf (buf + of_nat (length packet + 4)) (big_endian MAGIC_NUMBER_VALUE @ packet)"
  shows "again \<and> datagrams = [big_endian MAGIC_NUMBER_VALUE @ packet] \<and>
    (\<exists>pl' pl''. handleReceivedDatagram parse mem buf (length packet + 4) pl = Handled pl' \<and>
       worker_turn types parse later i pl' = Worker_ran [(0, sample)] pl'' \<and> pl_registry pl'' = sreg2)"
proof -
  note p = publisher_entry [OF assms(3,1)] and s = subscriber_entry [OF assms(7,4,6)]
  have start: "sg_registry (sweep_start r st) = r" for r st by (simp add: sweep_start_def)
  have rel: "\<not> te_reliable (entry_at preg2 telemetry_key)"
    using kept_run [OF sweeping_inv_start [OF p(1) assms(2)] events(1), of telemetry_key] p(2)
    by (auto simp: topic_kept_def regs(1) start)
  have cbs: "te_callbacks (entry_at sreg2 telemetry_key) = [\<lparr>cb_messageType = telemetry_type, cb_invoke = Some 0\<rparr>]"
    using kept_run [OF sweeping_inv_start [OF s(1) assms(5)] events(2), of telemetry_key] s(2)
    by (auto simp: topic_kept_def regs(2) start)
  have "sendMessage ser_message ser_data ''telemetry'' telemetry_type (Some payload) now preg2 sd =
      (True, [big_endian MAGIC_NUMBER_VALUE @ packet], [], sd)"
    using rel codec(4,5,8)
    by (auto simp: sendMessage_def publishData_def sendPacket_def prependMagicNumberToPacket_def big_endian_def entry_at_def
      split: option.splits)
  then have send: "again \<and> datagrams = [big_endian MAGIC_NUMBER_VALUE @ packet]"
    using tick codec(1) by (simp add: publishLoop_def)
  have "handleDataMessageReceive types d sreg2 = [(0, sample)]"
    using cbs codec(2,3) by (simp add: receive_dispatched codec(4) stamped_def matched_def dispatched_def List.map_filter_simps)
  moreover have "\<exists>pl' pl''. handleReceivedDatagram parse mem buf (length packet + 4) pl = Handled pl' \<and>
      worker_turn types parse later i pl' = Worker_ran (handleDataMessageReceive types d (pl_registry pl)) pl'' \<and>
      pl_registry pl'' = pl_registry pl \<and> queued i pl'' = []"
    by (rule frame_delivered [OF buffer])
      (rule refl codec(6,7,8) pl(2,4,5) pl(3) [folded pl(1)] | simp add: telemetry_type_def)+
  ultimately show ?thesis using send by (auto simp: pl(1))
qed

end
