(* ===== verification/Edriel_Link.thy ===== *)
theory Edriel_Link
  imports Edriel_Sweep Edriel_Streams
begin

text \<open>
  One topic from the publisher's \<open>tryPublishReliable\<close> to the callbacks of one subscriber, over
  one stream, in every interleaving: sends that are accepted or refused, the critical sections of the
  stream (\<open>SubscriberReactor\<close>) with the pending work of all its threads, the subscriber's entry in the table coming
  and going, the reader of the connection, and everything else the receiver does.
\<close>

section \<open>The link\<close>

text \<open>
  The stream at the publisher, whether the subscriber's table entry points to it, the publisher's
  counters, how many frames the client has read, the receiver's windows; and, for the
  statements, the payloads of the sends that returned Sent and the messages dispatched.
\<close>

record link =
  lk_stream :: stream
  lk_registered :: bool
  lk_sender :: sender
  lk_read :: nat
  lk_rx :: rx_state
  lk_sent :: "bytes list"
  lk_out :: "data_message list"

text \<open>
  The loop of a send when other threads run between the pushes: this subscriber's answer is that of the
  critical section of \<open>enqueue\<close>, the other subscribers answer anything.
\<close>

definition push_one ::
  "SubscriberKey \<Rightarrow> (SubscriberKey \<Rightarrow> OutboxStatus) \<Rightarrow> bool \<Rightarrow> reactor \<Rightarrow> participant_data \<Rightarrow> SubscriberKey list \<Rightarrow> service \<Rightarrow>
   (SubscriberKey \<times> OutboxStatus) list \<times> (reactor_ptr \<times> grpc_call) list \<times> service"
where
  "push_one sk others inTable r f sks sv =
     (map (\<lambda>k. (k, if k \<noteq> sk then others k else if inTable then fst (enqueue_section f r) else NotConnected)) sks, [], sv)"

text \<open>The stream after the section; the thread goes on to \<open>startWrite_\<close>.\<close>

definition offer :: "participant_data \<Rightarrow> stream \<Rightarrow> stream" where
  "offer f s =
     (case enqueue_section f (s_reactor s) of (st, needWrite, r') \<Rightarrow>
        s\<lparr>s_reactor := r', s_tasks := (if needWrite then add_mset Kick (s_tasks s) else s_tasks s),
          s_accepted := (if st = Accepted then s_accepted s @ [f] else s_accepted s)\<rparr>)"

definition next_frame :: "(data_message \<Rightarrow> bytes option) \<Rightarrow> string \<Rightarrow> string \<Rightarrow> bytes \<Rightarrow> registry \<Rightarrow> sender \<Rightarrow> participant_data" where
  "next_frame ser tn mt payload reg sd =
     empty_pd\<lparr>pd_reliable_data := the (ser (stamped tn mt payload (reliablePublisherSeq (makeCompositeKey tn mt) sd + 1) reg))\<rparr>"

text \<open>
  Steps. \<open>lk_run\<close> is any step of the stream that accepts at most frames without reliable data (the
  presence frames of a registration). In \<open>lk_send\<close> the frame reaches the stream if the topic lists the subscriber
  and the table has it; the premise says that no other subscriber accepts what this one refuses. \<open>lk_elsewhere\<close> is any send that is not
  on the topic, \<open>lk_receiver\<close> anything at the receiver that is not about this publisher.
\<close>

inductive link_step ::
  "(data_message \<Rightarrow> bytes option) \<Rightarrow> (bytes \<Rightarrow> data_message option) \<Rightarrow> u64 \<Rightarrow> SubscriberKey \<Rightarrow> string \<Rightarrow> string \<Rightarrow> link \<Rightarrow> link \<Rightarrow> bool"
  for ser parse u sk tn mt where
  lk_run: "stream_step (lk_stream lk) s \<Longrightarrow>
     \<forall>f \<in> set (drop (length (s_accepted (lk_stream lk))) (s_accepted s)). pd_reliable_data f = [] \<Longrightarrow>
     link_step ser parse u sk tn mt lk (lk\<lparr>lk_stream := s\<rparr>)"
| lk_table: "link_step ser parse u sk tn mt lk (lk\<lparr>lk_registered := b\<rparr>)"
| lk_send: "registry_inv reg \<Longrightarrow> own_uid reg = u \<Longrightarrow>
     publish_with (push_one sk others (lk_registered lk) (s_reactor (lk_stream lk))) ser tn mt payload now reg (lk_sender lk) =
       (res, deliv, calls, sd) \<Longrightarrow>
     (res = Sent \<longrightarrow> map_of deliv (key_string sk) = Some Accepted) \<Longrightarrow>
     link_step ser parse u sk tn mt lk (lk\<lparr>
       lk_stream := (if lk_registered lk \<and> map_of deliv (key_string sk) \<noteq> None
         then offer (next_frame ser tn mt payload reg (lk_sender lk)) (lk_stream lk) else lk_stream lk),
       lk_sender := sd, lk_sent := lk_sent lk @ (if res = Sent then [payload] else [])\<rparr>)"
| lk_elsewhere: "reliablePublisherSeq (makeCompositeKey tn mt) sd = reliablePublisherSeq (makeCompositeKey tn mt) (lk_sender lk) \<Longrightarrow>
     link_step ser parse u sk tn mt lk (lk\<lparr>lk_sender := sd\<rparr>)"
| lk_take: "lk_read lk < length (s_started (lk_stream lk)) \<Longrightarrow>
     handleReliableDataFrame parse (s_started (lk_stream lk) ! lk_read lk) (lk_rx lk) = (out, st) \<Longrightarrow>
     link_step ser parse u sk tn mt lk (lk\<lparr>lk_read := Suc (lk_read lk), lk_rx := st, lk_out := lk_out lk @ out\<rparr>)"
| lk_receiver: "same_windows u (lk_rx lk) st \<Longrightarrow> link_step ser parse u sk tn mt lk (lk\<lparr>lk_rx := st\<rparr>)"

text \<open>A new stream that the client has just established; the topic's counter is \<open>n\<close>.\<close>

definition link_start :: "config \<Rightarrow> u64 \<Rightarrow> string \<Rightarrow> u64 \<Rightarrow> link \<Rightarrow> bool" where
  "link_start cfg u key n lk \<longleftrightarrow>
     stream_start cfg (lk_stream lk) \<and> \<not> lk_registered lk \<and> reliablePublisherSeq key (lk_sender lk) = n \<and>
     lk_read lk = 0 \<and> (\<exists>st. lk_rx lk = noteReliableStreamEstablished u st) \<and> lk_sent lk = [] \<and> lk_out lk = []"

text \<open>What \<open>lk_receiver\<close> stands for, among others.\<close>

lemma receiver_frame: "uid_of m \<noteq> u \<Longrightarrow> same_windows u st (snd (receive_data m st))"
  by (auto simp: same_windows_def windows_after window_key_of_def window_key_eq_iff option.map_ident)

lemma receiver_note: "v \<noteq> u \<Longrightarrow> same_windows u st (noteReliableStreamEstablished v st)"
  by (auto simp: same_windows_def noteReliableStreamEstablished_def map_of_reset_publisher window_key_prefix_iff option.map_ident)

lemma receiver_prune:
  assumes "\<forall>s \<in> set stale. p_uid s \<noteq> u"
  shows "same_windows u st (prune_windows stale st)"
  using assms map_of_filter_fst [of "\<lambda>k. \<not> (\<exists>s \<in> set stale. starts_with (window_prefix (p_uid s)) k)" "reliableWindows st"]
  by (simp add: same_windows_def prune_windows_def window_key_prefix_iff)

section \<open>The invariant\<close>

definition codec_ok :: "(data_message \<Rightarrow> bytes option) \<Rightarrow> (bytes \<Rightarrow> data_message option) \<Rightarrow> bool" where
  "codec_ok ser parse \<longleftrightarrow> (\<forall>d s. ser d = Some s \<longrightarrow> s \<noteq> [] \<and> parse s = Some d)"

lemma stamped_fields [simp]:
  "tid_of (stamped tn mt payload n reg) = n" "uid_of (stamped tn mt payload n reg) = own_uid reg"
  "window_key_of (stamped tn mt payload n reg) = window_key (own_uid reg) (makeCompositeKey tn mt)"
  "dm_payload (stamped tn mt payload n reg) = payload"
  by (simp_all add: stamped_def self_identifier_def own_uid_def window_key_of_def)

text \<open>The messages in a list of frames, as the receiver decodes them.\<close>

fun messages_in :: "(bytes \<Rightarrow> data_message option) \<Rightarrow> participant_data list \<Rightarrow> data_message list" where
  "messages_in parse [] = []"
| "messages_in parse (f # fs) =
     (if pd_reliable_data f = [] then [] else frames_of (parse (pd_reliable_data f))) @ messages_in parse fs"

lemma messages_in_append [simp]: "messages_in parse (fs @ gs) = messages_in parse fs @ messages_in parse gs"
  by (induction fs) auto

lemma messages_in_silent: "\<forall>f \<in> set fs. pd_reliable_data f = [] \<Longrightarrow> messages_in parse fs = []"
  by (induction fs) auto

text \<open>Messages on the topic, numbered from \<open>n + 1\<close>.\<close>

fun numbered :: "u64 \<Rightarrow> string \<Rightarrow> u64 \<Rightarrow> data_message list \<Rightarrow> bool" where
  "numbered u key n [] \<longleftrightarrow> True"
| "numbered u key n (m # ms) \<longleftrightarrow> uid_of m = u \<and> window_key_of m = window_key u key \<and> tid_of m = n + 1 \<and> numbered u key (n + 1) ms"

lemma numbered_append:
  "numbered u key n (ms @ ms') \<longleftrightarrow> numbered u key n ms \<and> numbered u key (n + of_nat (length ms)) ms'"
  by (induction ms arbitrary: n) (auto simp: ac_simps)

text \<open>What the receiver's window expects once \<open>j\<close> messages have been delivered.\<close>

definition awaits :: "u64 \<Rightarrow> string \<Rightarrow> u64 \<Rightarrow> nat \<Rightarrow> rx_state \<Rightarrow> bool" where
  "awaits u key n j st \<longleftrightarrow>
     (if j = 0 then u \<in> reliableFreshPublishers st
      else u \<notin> reliableFreshPublishers st \<and> nextExpected (window_at st (window_key u key)) = n + of_nat j + 1 \<and>
        rx_buffer (window_at st (window_key u key)) = [])"

lemma awaits_same: "same_windows u st st' \<Longrightarrow> awaits u key n j st \<Longrightarrow> awaits u key n j st'"
  using same_windows_at [of u st st' key] by (auto simp: awaits_def same_windows_def)

lemma awaits_receive:
  assumes "awaits u key n j st" "uid_of m = u" "window_key_of m = window_key u key" "tid_of m = n + of_nat j + 1"
    and "unat n + j + 1 < 2 ^ 64 - 1"
  shows "fst (receive_data m st) = [m] \<and> awaits u key n (Suc j) (snd (receive_data m st))"
proof -
  have "unat (n + of_nat j :: u64) = unat n + j"
    using assms(5) by (simp add: unat_word_ariths unat_of_nat_u64)
  then have "unat (tid_of m) \<noteq> unat (- 1 :: u64)"
    using assms(4,5) by (simp add: unat_word_ariths unsigned_minus_1_eq_mask mask_eq_exp_minus_1)
  then have "tid_of m \<noteq> - 1" by metis
  then have adv: "advance (tid_of m) = n + of_nat (Suc j) + 1" using assms(4) by (simp add: advance_eq ac_simps)
  have "window_accept m (start_window m st) = ([m], (start_window m st)\<lparr>nextExpected := n + of_nat (Suc j) + 1, rx_buffer := []\<rparr>)"
  proof (cases "j = 0")
    case True
    then show ?thesis
      using assms(1,2) adv by (simp add: awaits_def start_window_def accept_baseline reset_window_def deliver_def new_window_def)
  next
    case False
    then show ?thesis
      using assms adv by (simp add: awaits_def start_window_def accept_expected deliver_def)
  qed
  then show ?thesis
    using assms(2,3) by (simp add: fst_receive_data awaits_def window_at_receive)
qed

definition link_inv :: "config \<Rightarrow> (bytes \<Rightarrow> data_message option) \<Rightarrow> u64 \<Rightarrow> string \<Rightarrow> u64 \<Rightarrow> link \<Rightarrow> bool" where
  "link_inv cfg parse u key n lk \<longleftrightarrow>
     (let ms = messages_in parse (s_accepted (lk_stream lk)); taken = messages_in parse (take (lk_read lk) (s_started (lk_stream lk))) in
      streams cfg (lk_stream lk) \<and> lk_read lk \<le> length (s_started (lk_stream lk)) \<and>
      (\<forall>f \<in> set (s_accepted (lk_stream lk)). pd_reliable_data f \<noteq> [] \<longrightarrow> parse (pd_reliable_data f) \<noteq> None) \<and>
      numbered u key n ms \<and> map dm_payload ms = lk_sent lk \<and>
      reliablePublisherSeq key (lk_sender lk) = n + of_nat (length (lk_sent lk)) \<and>
      (unat n + length (lk_sent lk) < 2 ^ 64 - 1 \<longrightarrow> lk_out lk = taken \<and> awaits u key n (length taken) (lk_rx lk)))"

lemma link_invD:
  assumes "link_inv cfg parse u key n lk"
  shows "streams cfg (lk_stream lk)" "lk_read lk \<le> length (s_started (lk_stream lk))"
    and "f \<in> set (s_accepted (lk_stream lk)) \<Longrightarrow> pd_reliable_data f \<noteq> [] \<Longrightarrow> parse (pd_reliable_data f) \<noteq> None"
    and "numbered u key n (messages_in parse (s_accepted (lk_stream lk)))"
    and "map dm_payload (messages_in parse (s_accepted (lk_stream lk))) = lk_sent lk"
    and "reliablePublisherSeq key (lk_sender lk) = n + of_nat (length (lk_sent lk))"
    and "unat n + length (lk_sent lk) < 2 ^ 64 - 1 \<Longrightarrow>
      lk_out lk = messages_in parse (take (lk_read lk) (s_started (lk_stream lk))) \<and>
      awaits u key n (length (messages_in parse (take (lk_read lk) (s_started (lk_stream lk))))) (lk_rx lk)"
  using assms by (simp_all add: link_inv_def Let_def)

lemma link_invI:
  assumes "streams cfg (lk_stream lk)" "lk_read lk \<le> length (s_started (lk_stream lk))"
    and "\<And>f. f \<in> set (s_accepted (lk_stream lk)) \<Longrightarrow> pd_reliable_data f \<noteq> [] \<Longrightarrow> parse (pd_reliable_data f) \<noteq> None"
    and "numbered u key n (messages_in parse (s_accepted (lk_stream lk)))"
    and "map dm_payload (messages_in parse (s_accepted (lk_stream lk))) = lk_sent lk"
    and "reliablePublisherSeq key (lk_sender lk) = n + of_nat (length (lk_sent lk))"
    and "unat n + length (lk_sent lk) < 2 ^ 64 - 1 \<Longrightarrow>
      lk_out lk = messages_in parse (take (lk_read lk) (s_started (lk_stream lk))) \<and>
      awaits u key n (length (messages_in parse (take (lk_read lk) (s_started (lk_stream lk))))) (lk_rx lk)"
  shows "link_inv cfg parse u key n lk"
  using assms by (simp add: link_inv_def)

text \<open>Frames are only ever added, and handed to gRPC in the order of acceptance.\<close>

lemma stream_grows: "stream_step s t \<Longrightarrow> \<exists>a b. s_accepted t = s_accepted s @ a \<and> s_started t = s_started s @ b"
  by (induction rule: stream_step.induct) auto

lemma stream_fifo: "streams cfg s \<Longrightarrow> s_accepted s = s_started s @ r_outbox (s_reactor s)"
  using outbox_stream.reach_inv by (auto simp: stream_inv_def fifo_inv_def)

lemma offer_step: "stream_step s (offer f s)"
  using st_enqueue [of f s] by (auto simp: offer_def split: prod.splits)

lemma offer_accepted:
  "s_accepted (offer f s) = s_accepted s @ (if fst (enqueue_section f (s_reactor s)) = Accepted then [f] else [])"
  "s_started (offer f s) = s_started s"
  by (simp_all add: offer_def case_prod_beta)

text \<open>A step of the stream that accepts silent frames \<open>a\<close> or one numbered frame.\<close>

lemma link_inv_stream:
  assumes "link_inv cfg parse u key n lk" "stream_step (lk_stream lk) s" "s_accepted s = s_accepted (lk_stream lk) @ a"
    and "\<forall>f \<in> set a. pd_reliable_data f \<noteq> [] \<longrightarrow> parse (pd_reliable_data f) \<noteq> None"
    and "numbered u key (n + of_nat (length (lk_sent lk))) (messages_in parse a)"
    and "reliablePublisherSeq key sd = n + of_nat (length (lk_sent lk) + length (messages_in parse a))"
  shows "link_inv cfg parse u key n (lk\<lparr>lk_stream := s, lk_sender := sd,
    lk_sent := lk_sent lk @ map dm_payload (messages_in parse a)\<rparr>)"
proof -
  note inv = link_invD [OF assms(1)]
  obtain b where b: "s_started s = s_started (lk_stream lk) @ b" using stream_grows [OF assms(2)] by blast
  have len: "length (messages_in parse (s_accepted (lk_stream lk))) = length (lk_sent lk)"
    using arg_cong [OF inv(5), of length] by simp
  show ?thesis
  proof (rule link_invI)
    show "streams cfg (lk_stream (lk\<lparr>lk_stream := s, lk_sender := sd, lk_sent := lk_sent lk @ map dm_payload (messages_in parse a)\<rparr>))"
      using reach_step [OF inv(1) assms(2)] by simp
  qed (use inv assms(3-6) b len in \<open>auto simp: numbered_append\<close>)
qed

lemma link_inv_take:
  assumes "link_inv cfg parse u key n lk" "lk_read lk < length (s_started (lk_stream lk))"
    and out: "handleReliableDataFrame parse (s_started (lk_stream lk) ! lk_read lk) (lk_rx lk) = (out, st)"
  shows "link_inv cfg parse u key n (lk\<lparr>lk_read := Suc (lk_read lk), lk_rx := st, lk_out := lk_out lk @ out\<rparr>)"
proof -
  let ?s = "lk_stream lk" and ?i = "lk_read lk"
  let ?f = "s_started ?s ! ?i" and ?T = "messages_in parse (take ?i (s_started ?s))"
  note inv = link_invD [OF assms(1)]
  have split: "s_accepted ?s = take ?i (s_started ?s) @ ?f # drop (Suc ?i) (s_started ?s) @ r_outbox (s_reactor ?s)"
    using stream_fifo [OF inv(1)] id_take_nth_drop [OF assms(2)] by simp
  have taken: "messages_in parse (take (Suc ?i) (s_started ?s)) = ?T @ messages_in parse [?f]"
    using assms(2) by (simp only: take_Suc_conv_app_nth messages_in_append)
  have step: "messages_in parse [?f] = out \<and> awaits u key n (length (?T @ out)) st"
    if room: "unat n + length (lk_sent lk) < 2 ^ 64 - 1"
  proof (cases "pd_reliable_data ?f = []")
    case True
    then show ?thesis using out inv(7) [OF room] by (simp add: handleReliableDataFrame_def)
  next
    case False
    have "?f \<in> set (s_accepted ?s)" by (simp add: split)
    then obtain m where m: "parse (pd_reliable_data ?f) = Some m" using inv(3) False by blast
    let ?R = "messages_in parse (drop (Suc ?i) (s_started ?s) @ r_outbox (s_reactor ?s))"
    have ms: "messages_in parse (s_accepted ?s) = ?T @ m # ?R"
      using False m by (simp add: split frames_of_def)
    have "numbered u key (n + of_nat (length ?T)) (m # ?R)"
      using inv(4) by (simp only: ms numbered_append)
    then have on_topic: "uid_of m = u" "window_key_of m = window_key u key" "tid_of m = n + of_nat (length ?T) + 1" by simp_all
    have "length (lk_sent lk) = length ?T + Suc (length ?R)"
      using arg_cong [OF inv(5), of length] by (simp only: ms length_map length_append list.size)
    then have "unat n + length ?T + 1 < 2 ^ 64 - 1" using room by linarith
    from awaits_receive [OF inv(7) [OF room, THEN conjunct2] on_topic this] show ?thesis
      using out False m by (simp add: handleReliableDataFrame_def frames_of_def)
  qed
  show ?thesis
    by (rule link_invI) (use inv assms(2) taken step in \<open>simp_all\<close>)
qed

lemma link_inv_send:
  assumes "link_inv cfg parse u (makeCompositeKey tn mt) n lk" "codec_ok ser parse" "registry_inv reg" "own_uid reg = u"
    and send: "publish_with (push_one sk others (lk_registered lk) (s_reactor (lk_stream lk))) ser tn mt payload now reg (lk_sender lk) =
       (res, deliv, calls, sd)"
    and alone: "res = Sent \<longrightarrow> map_of deliv (key_string sk) = Some Accepted"
  shows "link_inv cfg parse u (makeCompositeKey tn mt) n (lk\<lparr>
       lk_stream := (if lk_registered lk \<and> map_of deliv (key_string sk) \<noteq> None
         then offer (next_frame ser tn mt payload reg (lk_sender lk)) (lk_stream lk) else lk_stream lk),
       lk_sender := sd, lk_sent := lk_sent lk @ (if res = Sent then [payload] else [])\<rparr>)"
  using send
proof (cases rule: publish_with_cases)
  case refused
  then show ?thesis using assms(1) by (simp add: link_inv_def)
next
  case (offered sv sv' sts s e)
  let ?key = "makeCompositeKey tn mt" and ?s = "lk_stream lk" and ?f = "next_frame ser tn mt payload reg (lk_sender lk)"
  let ?m = "stamped tn mt payload (reliablePublisherSeq ?key (lk_sender lk) + 1) reg"
  let ?answer = "if lk_registered lk then fst (enqueue_section ?f (s_reactor ?s)) else NotConnected"
  note inv = link_invD [OF assms(1)]
  have f: "?f = empty_pd\<lparr>pd_reliable_data := s\<rparr>" using offered(4) by (simp add: next_frame_def)
  have msg: "s \<noteq> []" "parse s = Some ?m" using assms(2) offered(4) by (auto simp: codec_ok_def)
  have keys: "map fst sts = map sub_key (map snd (te_subscribers e))"
    and ans: "(sk, st) \<in> set sts \<Longrightarrow> st = ?answer" for st
    using offered(6) f by (auto simp: push_one_def)
  have "distinct (map fst sts)" unfolding keys by (rule subscribers_distinct [OF assms(3) offered(3)])
  then have deliv: "map_of deliv (key_string sk) = Some st \<longleftrightarrow> (sk, st) \<in> set sts" for st
    unfolding offered(7) by (rule deliverability_of)
  have sent: "res = Sent \<longleftrightarrow> map_of deliv (key_string sk) = Some Accepted"
    using alone unfolding deliv by (auto simp: offered(8) send_result_def Let_def)
  have seq: "reliablePublisherSeq ?key sd = n + of_nat (length (lk_sent lk) + (if res = Sent then 1 else 0))"
    using offered(9) inv(6) by (simp add: ac_simps)
  show ?thesis
  proof (cases "lk_registered lk \<and> map_of deliv (key_string sk) \<noteq> None")
    case False
    have "res \<noteq> Sent"
    proof
      assume "res = Sent"
      then have "lk_registered lk" using sent deliv ans [of Accepted] by (auto split: if_splits)
      then show False using False sent \<open>res = Sent\<close> by simp
    qed
    with False seq assms(1) show ?thesis by (auto simp: link_inv_def Let_def)
  next
    case True
    then obtain st where st: "map_of deliv (key_string sk) = Some st" by blast
    then have "st = fst (enqueue_section ?f (s_reactor ?s))" using deliv ans True by auto
    then have acc: "fst (enqueue_section ?f (s_reactor ?s)) = Accepted \<longleftrightarrow> res = Sent" using sent st by simp
    let ?a = "if res = Sent then [?f] else []"
    have a: "messages_in parse ?a = (if res = Sent then [?m] else [])"
      using msg by (simp add: f frames_of_def)
    have grown: "s_accepted (offer ?f ?s) = s_accepted ?s @ ?a" using acc by (simp add: offer_accepted)
    have "link_inv cfg parse u ?key n (lk\<lparr>lk_stream := offer ?f ?s, lk_sender := sd,
        lk_sent := lk_sent lk @ map dm_payload (messages_in parse ?a)\<rparr>)"
      by (rule link_inv_stream [OF assms(1) offer_step grown])
        (use a msg seq inv(6) assms(4) in \<open>auto simp: f\<close>)
    moreover have "map dm_payload (messages_in parse ?a) = (if res = Sent then [payload] else [])"
      by (simp add: a)
    ultimately show ?thesis using True by simp
  qed
qed

lemma link_inv_step:
  assumes "codec_ok ser parse" "link_step ser parse u sk tn mt lk lk'" "link_inv cfg parse u (makeCompositeKey tn mt) n lk"
  shows "link_inv cfg parse u (makeCompositeKey tn mt) n lk'"
  using assms(2)
proof cases
  case (lk_run s)
  obtain a where a: "s_accepted s = s_accepted (lk_stream lk) @ a" using stream_grows [OF lk_run(2)] by blast
  then have "messages_in parse a = []" "\<forall>f \<in> set a. pd_reliable_data f = []" using lk_run(3) messages_in_silent by auto
  then show ?thesis
    using link_inv_stream [OF assms(3) lk_run(2) a, of "lk_sender lk"] link_invD(6) [OF assms(3)] lk_run(1) by simp
next
  case (lk_table b)
  then show ?thesis using assms(3) by (simp add: link_inv_def)
next
  case (lk_elsewhere sd)
  then show ?thesis using assms(3) by (simp add: link_inv_def)
next
  case (lk_receiver st)
  then show ?thesis using assms(3) awaits_same [OF lk_receiver(2)] by (auto simp: link_inv_def Let_def)
next
  case (lk_take out st)
  show ?thesis unfolding lk_take(1) by (rule link_inv_take [OF assms(3) lk_take(2,3)])
next
  case (lk_send reg others payload now res deliv calls sd)
  show ?thesis unfolding lk_send(1) by (rule link_inv_send [OF assms(3,1) lk_send(2-5)])
qed

lemma link_inv_start: "link_start cfg u key n lk \<Longrightarrow> link_inv cfg parse u key n lk"
  by (rule link_invI)
    (auto simp: link_start_def stream_start_def awaits_def noteReliableStreamEstablished_def intro: reach_init)

lemma link_reach_inv:
  assumes "codec_ok ser parse" "reach (link_start cfg u (makeCompositeKey tn mt) n) (link_step ser parse u sk tn mt) lk"
  shows "link_inv cfg parse u (makeCompositeKey tn mt) n lk"
  using assms(2) by (induction rule: reach.induct) (auto intro: link_inv_start link_inv_step [OF assms(1)])

lemma numbered_nth: "numbered u key n ms \<Longrightarrow> i < length ms \<Longrightarrow> uid_of (ms ! i) = u \<and> tid_of (ms ! i) = n + of_nat (Suc i)"
  by (induction ms arbitrary: n i) (auto simp: nth_Cons' less_Suc_eq_0_disj ac_simps)

section \<open>Exactly once, in order, under back-pressure\<close>


text \<open>A codec that is faithful on the frames of one topic, and a run of one send, one write and one read.\<close>

definition tid_decoder :: "bytes \<Rightarrow> data_message option" where
  "tid_decoder bs = (case bs of [] \<Rightarrow> None
     | t # payload \<Rightarrow> Some (stamped ''t'' ''M'' payload (ucast t) demo_registry))"

definition demo_codec :: "data_message \<Rightarrow> bytes option" where
  "demo_codec d =
     (if d = stamped ''t'' ''M'' (dm_payload d) (tid_of d) demo_registry \<and> tid_of d < 256
      then tid_codec d else None)"

lemma demo_codec_ok: "codec_ok demo_codec tid_decoder"
proof -
  have "ucast (ucast t :: u8) = t" if "t < 256" for t :: u64
    using that by (simp add: word_unat_eq_iff unsigned_ucast_eq unsigned_take_bit_eq word_less_nat_alt
      take_bit_nat_eq_self)
  then show ?thesis
    by (auto simp: codec_ok_def demo_codec_def tid_codec_def tid_decoder_def split: if_splits)
qed

definition idle_link :: link where
  "idle_link = \<lparr>lk_stream = start_stream default_config, lk_registered = True, lk_sender = demo_sender False,
     lk_read = 0, lk_rx = noteReliableStreamEstablished 99 no_windows, lk_sent = [], lk_out = []\<rparr>"

abbreviation demo_key :: SubscriberKey where
  "demo_key \<equiv> SubscriberKey 1 0 11"

lemma start_accepts:
  "enqueue_section f (s_reactor (start_stream default_config)) =
     (Accepted, True, (fst (new_reactor default_config))\<lparr>r_outbox := [f]\<rparr>)"
proof -
  have "2 \<le> cf_reliableOutboxMaxFrames default_config"
    by (simp add: default_config_def kDefaultReliableOutboxMaxFrames_def)
  from frame_marks_bounds [OF this] show ?thesis
    by (simp add: enqueue_section_def start_stream_def new_reactor_def Let_def unat_gt_0)
qed

definition demo_push ::
  "participant_data \<Rightarrow> SubscriberKey list \<Rightarrow> service \<Rightarrow>
   (SubscriberKey \<times> OutboxStatus) list \<times> (reactor_ptr \<times> grpc_call) list \<times> service" where
  "demo_push f sks sv = (map (\<lambda>k. (k, if k = demo_key then Accepted else NotConnected)) sks, [], sv)"

lemma demo_push_one: "push_one demo_key (\<lambda>_. NotConnected) True (s_reactor (start_stream default_config)) = demo_push"
  by (intro ext) (simp add: push_one_def demo_push_def start_accepts)

definition demo_send :: "ReliableSendResult \<times> (string, OutboxStatus) omap \<times> (reactor_ptr \<times> grpc_call) list \<times> sender" where
  "demo_send = publish_with demo_push demo_codec ''t'' ''M'' [7] 0 demo_registry (demo_sender False)"

lemma demo_send_result:
  "fst demo_send = Sent" "fst (snd demo_send) = [(''1:0:11'', Accepted), (''2:0:22'', NotConnected)]"
  by code_simp+

text \<open>The frame, and the stream when it has been accepted and handed to gRPC.\<close>

definition demo_frame :: participant_data where
  "demo_frame = empty_pd\<lparr>pd_reliable_data := [1, 7]\<rparr>"

definition demo_stream :: stream where
  "demo_stream = (start_stream default_config)\<lparr>
     s_reactor := (fst (new_reactor default_config))\<lparr>r_writeBuffer := demo_frame, r_writing := True\<rparr>,
     s_tasks := {#CallWrite demo_frame False#}, s_accepted := [demo_frame], s_started := [demo_frame]\<rparr>"

definition demo_link :: link where
  "demo_link = idle_link\<lparr>lk_stream := demo_stream, lk_sender := snd (snd (snd demo_send)), lk_sent := [[7]],
     lk_read := 1, lk_rx := snd (receive_data (stamped ''t'' ''M'' [7] 1 demo_registry) (lk_rx idle_link)),
     lk_out := [stamped ''t'' ''M'' [7] 1 demo_registry]\<rparr>"

lemma demo_next_frame: "next_frame demo_codec ''t'' ''M'' [7] demo_registry (demo_sender False) = demo_frame"
  by code_simp

lemma demo_seq: "reliablePublisherSeq k (demo_sender False) = 0"
  by (simp add: reliablePublisherSeq_def demo_sender_def new_sender_def)

lemma demo_own_uid: "own_uid demo_registry = 99"
  by code_simp

text \<open>After the send, with the write still to be started, and after it.\<close>

definition sent_link :: link where
  "sent_link = idle_link\<lparr>lk_stream := offer demo_frame (start_stream default_config),
     lk_sender := snd (snd (snd demo_send)), lk_sent := [[7]]\<rparr>"

definition written_link :: link where
  "written_link = sent_link\<lparr>lk_stream := demo_stream\<rparr>"

abbreviation demo_reach :: "link \<Rightarrow> bool" where
  "demo_reach \<equiv> reach (link_start default_config 99 (makeCompositeKey ''t'' ''M'') 0)
     (link_step demo_codec tid_decoder 99 demo_key ''t'' ''M'')"

lemma sent_link_reach: "demo_reach sent_link"
proof -
  let ?step = "link_step demo_codec tid_decoder 99 demo_key ''t'' ''M''"
  let ?new = "idle_link\<lparr>lk_registered := False\<rparr>"
  have new: "demo_reach ?new"
    by (rule reach_init) (auto simp: link_start_def idle_link_def stream_start_def start_stream_def demo_seq)
  have "?step ?new (?new\<lparr>lk_registered := True\<rparr>)" by (rule lk_table)
  then have 1: "demo_reach idle_link" using reach_step [OF new] by (simp add: idle_link_def)
  have sk: "key_string demo_key = ''1:0:11''" by code_simp
  obtain res deliv calls sd where send: "demo_send = (res, deliv, calls, sd)" using prod_cases4 by blast
  have res: "res = Sent" "deliv = [(''1:0:11'', Accepted), (''2:0:22'', NotConnected)]" "sd = snd (snd (snd demo_send))"
    using demo_send_result by (simp_all add: send)
  have "publish_with (push_one demo_key (\<lambda>_. NotConnected) (lk_registered idle_link) (s_reactor (lk_stream idle_link)))
      demo_codec ''t'' ''M'' [7] 0 demo_registry (lk_sender idle_link) = (res, deliv, calls, sd)"
    using send by (simp add: idle_link_def demo_push_one demo_send_def)
  from lk_send [OF demo_registry_inv demo_own_uid this, of tid_decoder]
  have "?step idle_link (idle_link\<lparr>lk_stream := offer demo_frame (start_stream default_config), lk_sender := sd, lk_sent := [[7]]\<rparr>)"
    by (simp add: res(1,2) sk) (simp add: idle_link_def demo_next_frame)
  with 1 show ?thesis unfolding sent_link_def res(3) [symmetric] by (rule reach_step)
qed

lemma demo_offered:
  "offer demo_frame (start_stream default_config) = (start_stream default_config)\<lparr>
     s_reactor := (fst (new_reactor default_config))\<lparr>r_outbox := [demo_frame]\<rparr>, s_tasks := {#Kick#}, s_accepted := [demo_frame]\<rparr>"
  by (simp add: offer_def start_accepts) (simp add: start_stream_def)

lemma demo_write: "stream_step (lk_stream sent_link) demo_stream"
proof -
  let ?r = "(fst (new_reactor default_config))\<lparr>r_outbox := [demo_frame]\<rparr>"
  have "startWrite_section ?r = (Some demo_frame, (fst (new_reactor default_config))\<lparr>r_writeBuffer := demo_frame, r_writing := True\<rparr>)"
    by (simp add: startWrite_section_def new_reactor_def Let_def)
  moreover have "lk_stream sent_link = offer demo_frame (start_stream default_config)" by (simp add: sent_link_def)
  ultimately show ?thesis
    using st_kick [of "offer demo_frame (start_stream default_config)" "{#}"] unfolding demo_offered
    by (simp add: demo_stream_def after_start_def frames_of_def start_stream_def)
qed

lemma demo_take:
  "lk_read written_link < length (s_started (lk_stream written_link)) \<and>
   handleReliableDataFrame tid_decoder (s_started (lk_stream written_link) ! lk_read written_link) (lk_rx written_link) =
     (lk_out demo_link, lk_rx demo_link) \<and>
   written_link\<lparr>lk_read := Suc (lk_read written_link), lk_rx := lk_rx demo_link, lk_out := lk_out written_link @ lk_out demo_link\<rparr> = demo_link"
proof -
  let ?m = "stamped ''t'' ''M'' [7] 1 demo_registry"
  have "tid_decoder [1, 7] = Some ?m" by (simp add: tid_decoder_def)
  moreover have "receive_data ?m (lk_rx idle_link) = ([?m], snd (receive_data ?m (lk_rx idle_link)))"
    using receive_after_note [of ?m no_windows] demo_own_uid by (simp add: Let_def idle_link_def prod_eq_iff)
  ultimately show ?thesis
    by (simp add: demo_link_def written_link_def sent_link_def idle_link_def demo_stream_def demo_frame_def handleReliableDataFrame_def)
qed

lemma demo_link_reach: "demo_reach demo_link"
proof -
  let ?step = "link_step demo_codec tid_decoder 99 demo_key ''t'' ''M''"
  have "?step sent_link written_link"
    unfolding written_link_def
    by (rule lk_run [OF demo_write]) (simp add: sent_link_def demo_offered demo_stream_def)
  with sent_link_reach have 1: "demo_reach written_link" by (rule reach_step)
  have "?step written_link demo_link"
    using lk_take [of written_link tid_decoder "lk_out demo_link" "lk_rx demo_link" demo_codec 99 demo_key "''t''" "''M''"]
    by (simp only: demo_take)
  with 1 show ?thesis by (rule reach_step)
qed


end
