(* ===== verification/Edriel_Drain.thy ===== *)
theory Edriel_Drain
  imports Edriel_Link
begin

text \<open>
  Progress and refinement on top of the link between a publisher and a subscriber: the pending work of a stream is bounded and,
  when it is done, everything that was accepted has been written; and the link as a whole
  implements a channel that delivers what was sent, in order, once.
\<close>

section \<open>The pending work of a stream\<close>

text \<open>
  A step in which some thread does what it still has to do: one of its tasks is carried out, or the
  write in flight completes. No frame is offered in it.
\<close>

definition work_step :: "stream \<Rightarrow> stream \<Rightarrow> bool" where
  "work_step s t \<longleftrightarrow> stream_step s t \<and> s_accepted t = s_accepted s \<and>
     (\<not> s_tasks s \<subseteq># s_tasks t \<or> s_inflight s \<and> \<not> s_inflight t)"

fun task_weight :: "task \<Rightarrow> nat" where
  "task_weight (CallFinish st) = 1"
| "task_weight (DoFinish st) = 2"
| "task_weight Teardown = 3"
| "task_weight Latch = 4"
| "task_weight AfterWrite = 5"
| "task_weight (CallWrite f latch) = (if latch then 11 else 7)"
| "task_weight Kick = 1"

text \<open>At most so many steps of pending work are left.\<close>

definition work_left :: "stream \<Rightarrow> nat" where
  "work_left s = 8 * length (r_outbox (s_reactor s)) + (\<Sum>t\<in>#s_tasks s. task_weight t) + (if s_inflight s then 6 else 0)"

lemma work_decreases:
  assumes "work_step s t"
  shows "work_left t + (length (s_started t) - length (s_started s)) < work_left s"
  using assms unfolding work_step_def
proof (elim conjE)
  assume "stream_step s t" "s_accepted t = s_accepted s" "\<not> s_tasks s \<subseteq># s_tasks t \<or> s_inflight s \<and> \<not> s_inflight t"
  then show ?thesis
    by (induction rule: stream_step.induct)
      (auto simp: work_left_def section_defs task_defs neq_Nil_conv split: if_splits)
qed

text \<open>A stream that is not quiescent has pending work.\<close>

lemma work_done:
  "stream_step s t \<Longrightarrow> s_accepted t = s_accepted s \<Longrightarrow> s_tasks s = add_mset x p \<Longrightarrow> count (s_tasks t) x = count p x \<Longrightarrow>
   work_step s t"
  using mset_subset_eq_count [of "s_tasks s" "s_tasks t" x] by (auto simp: work_step_def)

lemma work_exists:
  assumes "\<not> quiescent s"
  shows "\<exists>t. work_step s t"
proof (cases "s_inflight s")
  case True
  obtain fn r' where "writeDone_section True (s_reactor s) = (fn, r')" by fastforce
  from st_writeDone [OF True this] True show ?thesis by (auto simp: work_step_def)
next
  case False
  then obtain x p where p: "s_tasks s = add_mset x p"
    using assms by (metis quiescent_def multiset_cases)
  obtain w r1 where w: "startWrite_section (s_reactor s) = (w, r1)" by fastforce
  obtain l r2 where l: "latch_section (s_reactor s) = (l, r2)" by fastforce
  obtain i r3 where i: "finish_section (s_reactor s) = (i, r3)" by fastforce
  show ?thesis
  proof (cases x)
    case Kick
    show ?thesis by (rule exI, rule work_done [OF st_kick [OF p [unfolded Kick] w] _ p])
      (simp_all add: Kick after_start_def split: option.split)
  next
    case AfterWrite
    show ?thesis by (rule exI, rule work_done [OF st_after [OF p [unfolded AfterWrite] w] _ p])
      (simp_all add: AfterWrite after_start_def split: option.split)
  next
    case Latch
    show ?thesis by (rule exI, rule work_done [OF st_latch [OF p [unfolded Latch] l] _ p]) (simp_all add: Latch)
  next
    case Teardown
    show ?thesis by (rule exI, rule work_done [OF st_teardown [OF p [unfolded Teardown]] _ p]) (simp_all add: Teardown)
  next
    case (DoFinish st)
    show ?thesis by (rule exI, rule work_done [OF st_finish [OF p [unfolded DoFinish] i] _ p]) (simp_all add: DoFinish)
  next
    case (CallWrite f b)
    show ?thesis by (rule exI, rule work_done [OF st_callWrite [OF p [unfolded CallWrite]] _ p]) (simp_all add: CallWrite)
  next
    case (CallFinish st)
    show ?thesis by (rule exI, rule work_done [OF st_callFinish [OF p [unfolded CallFinish]] _ p]) (simp_all add: CallFinish)
  qed
qed

lemma quiescent_no_work: "quiescent s \<Longrightarrow> \<not> work_step s t"
  by (auto simp: quiescent_def work_step_def)

section \<open>The pending work of a link\<close>

text \<open>A step of pending work of the stream, or the client reads the next frame that was written.\<close>

inductive link_work ::
  "(data_message \<Rightarrow> bytes option) \<Rightarrow> (bytes \<Rightarrow> data_message option) \<Rightarrow> u64 \<Rightarrow> SubscriberKey \<Rightarrow> string \<Rightarrow> string \<Rightarrow> link \<Rightarrow> link \<Rightarrow> bool"
  for ser parse u sk tn mt where
  lw_stream: "work_step (lk_stream lk) s \<Longrightarrow> link_work ser parse u sk tn mt lk (lk\<lparr>lk_stream := s\<rparr>)"
| lw_take: "lk_read lk < length (s_started (lk_stream lk)) \<Longrightarrow>
     handleReliableDataFrame parse (s_started (lk_stream lk) ! lk_read lk) (lk_rx lk) = (out, st) \<Longrightarrow>
     link_work ser parse u sk tn mt lk (lk\<lparr>lk_read := Suc (lk_read lk), lk_rx := st, lk_out := lk_out lk @ out\<rparr>)"

definition link_left :: "link \<Rightarrow> nat" where
  "link_left lk = work_left (lk_stream lk) + (length (s_started (lk_stream lk)) - lk_read lk)"

lemma link_work_step: "link_work ser parse u sk tn mt lk lk' \<Longrightarrow> link_step ser parse u sk tn mt lk lk'"
  by (induction rule: link_work.induct) (auto simp: work_step_def intro: lk_run lk_take)

lemma link_work_keeps: "link_work ser parse u sk tn mt lk lk' \<Longrightarrow> lk_sent lk' = lk_sent lk"
  by (induction rule: link_work.induct) auto

lemma link_work_decreases:
  assumes "link_work ser parse u sk tn mt lk lk'"
  shows "link_left lk' < link_left lk"
  using assms
proof cases
  case (lw_stream s)
  from work_decreases [OF lw_stream(2)] show ?thesis by (auto simp: link_left_def lw_stream(1))
qed (auto simp: link_left_def)

lemma link_work_bounded: "(link_work ser parse u sk tn mt ^^ k) lk lk' \<Longrightarrow> k + link_left lk' \<le> link_left lk"
  by (induction k arbitrary: lk') (fastforce dest: link_work_decreases)+

lemma link_work_reach:
  "(link_work ser parse u sk tn mt ^^ k) lk lk' \<Longrightarrow> reach init (link_step ser parse u sk tn mt) lk \<Longrightarrow>
   reach init (link_step ser parse u sk tn mt) lk' \<and> lk_sent lk' = lk_sent lk"
  by (induction k arbitrary: lk') (auto dest: link_work_keeps intro: reach_step link_work_step)

text \<open>Pending work left over: a stream that is not quiescent, or a frame that was not read.\<close>

lemma link_work_exists:
  assumes "\<not> quiescent (lk_stream lk) \<or> lk_read lk < length (s_started (lk_stream lk))"
  shows "\<exists>lk'. link_work ser parse u sk tn mt lk lk'"
proof (cases "quiescent (lk_stream lk)")
  case False
  from work_exists [OF this] show ?thesis by (auto intro: lw_stream)
next
  case True
  with assms have *: "lk_read lk < length (s_started (lk_stream lk))" by simp
  obtain out st where "handleReliableDataFrame parse (s_started (lk_stream lk) ! lk_read lk) (lk_rx lk) = (out, st)"
    by fastforce
  from lw_take [OF * this] show ?thesis by blast
qed

lemma link_drained:
  assumes "link_inv cfg parse u key n lk" "unat n + length (lk_sent lk) < 2 ^ 64 - 1"
    and "quiescent (lk_stream lk)" "\<not> r_finished (s_reactor (lk_stream lk))" "lk_read lk = length (s_started (lk_stream lk))"
  shows "map dm_payload (lk_out lk) = lk_sent lk"
proof -
  note inv = link_invD [OF assms(1)]
  show ?thesis
    using quiescent_facts(2) [OF inv(1) assms(3,4)] stream_fifo [OF inv(1)] inv(5,7) assms(2,5) by simp
qed


text \<open>The frame of the send is waiting; a write and a read later it has been dispatched.\<close>

lemma demo_work: "(link_work demo_codec tid_decoder 99 demo_key ''t'' ''M'' ^^ 2) sent_link demo_link"
proof -
  have "s_accepted demo_stream = s_accepted (lk_stream sent_link)" "s_tasks (lk_stream sent_link) = add_mset Kick {#}"
    "count (s_tasks demo_stream) Kick = count {#} Kick"
    by (simp_all add: sent_link_def demo_offered demo_stream_def)
  from lw_stream [OF work_done [OF demo_write this]]
  have "link_work demo_codec tid_decoder 99 demo_key ''t'' ''M'' sent_link written_link" by (simp add: written_link_def)
  moreover have "link_work demo_codec tid_decoder 99 demo_key ''t'' ''M'' written_link demo_link"
    using lw_take [of written_link tid_decoder "lk_out demo_link" "lk_rx demo_link" demo_codec 99 demo_key "''t''" "''M''"]
    by (simp only: demo_take)
  ultimately show ?thesis by (auto simp: numeral_2_eq_2)
qed


section \<open>The channel a link implements\<close>

text \<open>The payloads sent and those delivered; the next one delivered is the first that was not.\<close>

type_synonym channel = "bytes list \<times> bytes list"

inductive channel_step :: "channel \<Rightarrow> channel \<Rightarrow> bool" where
  ch_send: "channel_step (sent, got) (sent @ [payload], got)"
| ch_deliver: "length got < length sent \<Longrightarrow> channel_step (sent, got) (sent, got @ [sent ! length got])"

definition channel_of :: "link \<Rightarrow> channel" where
  "channel_of lk = (lk_sent lk, map dm_payload (lk_out lk))"

lemma take_delivers:
  assumes "link_inv cfg parse u key n lk" "link_inv cfg parse u key n lk'" "unat n + length (lk_sent lk) < 2 ^ 64 - 1"
    and "lk_stream lk' = lk_stream lk" "lk_sent lk' = lk_sent lk"
    and "lk_read lk' = Suc (lk_read lk)" "lk_read lk < length (s_started (lk_stream lk))"
  shows "channel_of lk' = channel_of lk \<or> channel_step (channel_of lk) (channel_of lk')"
proof -
  let ?s = "s_started (lk_stream lk)" and ?f = "s_started (lk_stream lk) ! lk_read lk"
  note inv = link_invD [OF assms(1)] and inv' = link_invD [OF assms(2)]
  have out: "lk_out lk' = lk_out lk @ messages_in parse [?f]"
    using inv(7) inv'(7) assms(3-7) by (simp add: take_Suc_conv_app_nth)
  have "messages_in parse [?f] = [] \<or> (\<exists>m. messages_in parse [?f] = [m])"
    by (auto simp: frames_of_def split: option.split)
  then show ?thesis
  proof (elim disjE exE)
    fix m assume m: "messages_in parse [?f] = [m]"
    have "s_accepted (lk_stream lk) = take (lk_read lk) ?s @ [?f] @ drop (Suc (lk_read lk)) ?s @ r_outbox (s_reactor (lk_stream lk))"
      using stream_fifo [OF inv(1)] id_take_nth_drop [OF assms(7)] by simp
    then have "messages_in parse (s_accepted (lk_stream lk)) = lk_out lk @ m #
        messages_in parse (drop (Suc (lk_read lk)) ?s @ r_outbox (s_reactor (lk_stream lk)))"
      using inv(7) assms(3) m by (simp only: messages_in_append) simp
    then have sent: "lk_sent lk = map dm_payload (lk_out lk) @ dm_payload m #
        map dm_payload (messages_in parse (drop (Suc (lk_read lk)) ?s @ r_outbox (s_reactor (lk_stream lk))))"
      using inv(5) by (metis list.simps(9) map_append)
    have "channel_step (channel_of lk) (lk_sent lk, map dm_payload (lk_out lk) @ [lk_sent lk ! length (map dm_payload (lk_out lk))])"
      unfolding channel_of_def by (rule ch_deliver) (simp add: sent)
    moreover have "lk_sent lk ! length (map dm_payload (lk_out lk)) = dm_payload m"
      by (subst sent) (simp only: nth_append_length)
    ultimately show ?thesis using out m assms(5) by (simp add: channel_of_def)
  qed (use out assms(5) in \<open>simp add: channel_of_def\<close>)
qed

definition channel_start :: "channel \<Rightarrow> bool" where
  "channel_start c \<longleftrightarrow> c = ([], [])"

lemma channel_simulates:
  assumes "reach (link_start cfg u (makeCompositeKey tn mt) n) (link_step ser parse u sk tn mt) lk"
    and "link_step ser parse u sk tn mt lk lk'"
    and "codec_ok ser parse" "unat n + length (lk_sent lk) < 2 ^ 64 - 1"
  shows "channel_of lk' = channel_of lk \<or> channel_step (channel_of lk) (channel_of lk')"
  using assms(2)
proof cases
  case (lk_take out st)
  have "reach (link_start cfg u (makeCompositeKey tn mt) n) (link_step ser parse u sk tn mt) lk'"
    using assms(1,2) by (rule reach_step)
  from take_delivers [OF link_reach_inv [OF assms(3,1)] link_reach_inv [OF assms(3) this] assms(4)] lk_take
  show ?thesis by simp
qed (auto simp: channel_of_def intro: ch_send)

lemma sent_grows: "link_step ser parse u sk tn mt lk lk' \<Longrightarrow> length (lk_sent lk) \<le> length (lk_sent lk')"
  by (induction rule: link_step.induct) auto



end
