(* ===== verification/Edriel_Order.thy ===== *)
theory Edriel_Order
  imports Edriel_Node
begin

text \<open>
  The receiver thread and the workers of \<open>Edriel.cpp\<close> in every interleaving: what the rings
  between them promise to a topic. The receiver puts a frame into the ring of one shard; the worker of the shard pops
  it and handles it while the receiver goes on; other threads change the registry
  and close the rings. Frames are conserved and counted, and the messages of one topic are
  handled in the order in which they arrived.
\<close>

section \<open>Runs of the pipeline\<close>

text \<open>
  The pipeline, the frame each worker has popped and not handled yet; and, for the statements, the
  frames put into the rings with the ring, those each worker has handled, those evicted from each ring.
\<close>

record pipe_run =
  pr_pl :: pipeline
  pr_hand :: "nat \<Rightarrow> bytes option"
  pr_arrived :: "(nat \<times> bytes) list"
  pr_handled :: "nat \<Rightarrow> bytes list"
  pr_lost :: "nat \<Rightarrow> bytes list"

text \<open>The body of a worker's loop after the pop.\<close>

definition worker_handle ::
  "(string \<Rightarrow> (bytes \<Rightarrow> 'm option) option) \<Rightarrow> (bytes \<Rightarrow> message option) \<Rightarrow> int \<Rightarrow> bytes \<Rightarrow> registry \<Rightarrow>
   (nat \<times> 'm) list \<times> registry"
where
  "worker_handle types parse now frame reg =
     (case parse frame of None \<Rightarrow> ([], reg) | Some msg \<Rightarrow> handleAutoDiscoveryParse types msg now reg)"

lemma worker_turn_split:
  "worker_turn types parse now i pl =
     (case ring_pop (pl_rings pl ! i) of
        (pop_result.Blocked, _) \<Rightarrow> Worker_waits
      | (pop_result.Returned None, _) \<Rightarrow> Worker_leaves
      | (pop_result.Returned (Some frame), ring) \<Rightarrow>
          (case worker_handle types parse now frame (pl_registry pl) of
             (out, reg) \<Rightarrow> Worker_ran out (pl\<lparr>pl_rings := (pl_rings pl)[i := ring], pl_registry := reg\<rparr>)))"
  by (auto simp: worker_turn_def worker_handle_def Let_def split: pop_result.split option.split prod.split)

text \<open>
  A data frame that decodes is encoded the way the library's own sender encodes it: topic and type where the fast
  route looks for them.
\<close>

definition canonical :: "(bytes \<Rightarrow> message option) \<Rightarrow> bytes \<Rightarrow> bool" where
  "canonical parse packet \<longleftrightarrow>
     (case parse packet of
        Some (Content_data_message d) \<Rightarrow>
          data_layout packet (dm_topic_name d) (dm_message_type d) \<and> dm_topic_name d \<noteq> [] \<and> dm_message_type d \<noteq> []
      | _ \<Rightarrow> True)"

text \<open>The receiver puts a frame into ring \<open>i\<close>; in a full ring it takes the place of the oldest one.\<close>

definition arrive :: "nat \<Rightarrow> bytes \<Rightarrow> pipe_run \<Rightarrow> pipe_run" where
  "arrive i frame s =
     s\<lparr>pr_pl := publish_at i frame (pr_pl s), pr_arrived := pr_arrived s @ [(i, frame)],
       pr_lost := (if length (queued i (pr_pl s)) < ring_cap (pl_rings (pr_pl s) ! i) then pr_lost s
         else (pr_lost s)(i := pr_lost s i @ [hd (queued i (pr_pl s))]))\<rparr>"

text \<open>
  Steps: a datagram whose frame goes into an open ring (the others change nothing), the
  pop of a worker, the handling of what it popped, other threads at the registry, and the closing of a ring.
\<close>

inductive pipe_step ::
  "(string \<Rightarrow> (bytes \<Rightarrow> 'm option) option) \<Rightarrow> (bytes \<Rightarrow> message option) \<Rightarrow> u64 \<Rightarrow> pipe_run \<Rightarrow> pipe_run \<Rightarrow> bool"
  for types parse buf where
  pr_received: "view mem buf (buf + of_nat (length dgram)) dgram \<Longrightarrow> length dgram \<le> recvBufferSize \<Longrightarrow>
     frame = drop magicNumberSize dgram \<Longrightarrow> canonical parse frame \<Longrightarrow>
     i < length (pl_rings (pr_pl s)) \<Longrightarrow> \<not> rg_closed (pl_rings (pr_pl s) ! i) \<Longrightarrow>
     handleReceivedDatagram parse mem buf (length dgram) (pr_pl s) = Handled (publish_at i frame (pr_pl s)) \<Longrightarrow>
     pipe_step types parse buf s (arrive i frame s)"
| pr_popped: "pr_hand s i = None \<Longrightarrow> i < length (pl_rings (pr_pl s)) \<Longrightarrow>
     ring_pop (pl_rings (pr_pl s) ! i) = (pop_result.Returned (Some frame), ring) \<Longrightarrow>
     pipe_step types parse buf s (s\<lparr>pr_pl := (pr_pl s)\<lparr>pl_rings := (pl_rings (pr_pl s))[i := ring]\<rparr>,
       pr_hand := (pr_hand s)(i := Some frame)\<rparr>)"
| pr_handles: "pr_hand s i = Some frame \<Longrightarrow> worker_handle types parse now frame (pl_registry (pr_pl s)) = (out, reg) \<Longrightarrow>
     pipe_step types parse buf s (s\<lparr>pr_pl := (pr_pl s)\<lparr>pl_registry := reg\<rparr>,
       pr_hand := (pr_hand s)(i := None), pr_handled := (pr_handled s)(i := pr_handled s i @ [frame])\<rparr>)"
| pr_registry: "has_shards reg \<Longrightarrow> workerCount reg = workerCount (pl_registry (pr_pl s)) \<Longrightarrow>
     pipe_step types parse buf s (s\<lparr>pr_pl := (pr_pl s)\<lparr>pl_registry := reg\<rparr>\<rparr>)"
| pr_closed: "i < length (pl_rings (pr_pl s)) \<Longrightarrow>
     pipe_step types parse buf s (s\<lparr>pr_pl := (pr_pl s)\<lparr>pl_rings := (pl_rings (pr_pl s))[i := ring_close (pl_rings (pr_pl s) ! i)]\<rparr>\<rparr>)"

definition pipe_start :: "pipe_run \<Rightarrow> bool" where
  "pipe_start s \<longleftrightarrow> pipeline_inv (pr_pl s) \<and> (\<forall>i. pr_hand s i = None \<and> pr_handled s i = [] \<and> pr_lost s i = []) \<and>
     pr_arrived s = [] \<and> (\<forall>i < length (pl_rings (pr_pl s)). queued i (pr_pl s) = [] \<and> rg_dropped (pl_rings (pr_pl s) ! i) = 0)"

text \<open>The steps cover the receiver: a datagram that is handled changes nothing or is a \<open>pr_received\<close>.\<close>

lemma received_covered:
  assumes "view mem buf (buf + of_nat (length dgram)) dgram" "pipeline_inv pl"
    and "handleReceivedDatagram parse mem buf (length dgram) pl = Handled pl'"
  shows "pl' = pl \<or> (\<exists>i < length (pl_rings pl). \<not> rg_closed (pl_rings pl ! i) \<and> pl' = publish_at i (drop magicNumberSize dgram) pl)"
proof (cases "length dgram < magicNumberSize")
  case False
  let ?packet = "drop magicNumberSize dgram"
  have "view mem (buf + of_nat 4) (buf + of_nat (length dgram)) (drop 4 dgram)"
    by (rule view_drop [OF assms(1)]) (use False in \<open>simp add: magicNumberSize_def\<close>)
  then have "bytes_at mem (buf + 4) (length ?packet) = ?packet"
    using bytes_at_view [of mem "buf + 4" _ ?packet "[]"] by (simp add: magicNumberSize_def)
  then have frm: "bytes_at mem (buf + 4) (length dgram - 4) = ?packet" by (simp add: magicNumberSize_def)
  have "pl' = pl \<or> (\<exists>i < length (pl_rings pl). pl' = publish_at i frm pl)"
    if "publish_routed parse routing frm pl = Handled pl'" for routing frm
    using that target_bound [OF assms(2)] unfolding publish_routed_def
    by (cases routing; cases "parse frm") (fastforce split: option.splits route.splits)+
  from this [of _ ?packet] have "pl' = pl \<or> (\<exists>i < length (pl_rings pl). pl' = publish_at i ?packet pl)"
    using assms(3) frm by (auto simp: handleReceivedDatagram_def Let_def magicNumberSize_def split: if_splits)
  then show ?thesis using publish_at_closed by metis
qed (use assms(3) in \<open>simp add: handleReceivedDatagram_def\<close>)

section \<open>The invariant\<close>

definition arrivals :: "pipe_run \<Rightarrow> nat \<Rightarrow> bytes list" where
  "arrivals s i = map snd (filter (\<lambda>a. fst a = i) (pr_arrived s))"

text \<open>What has arrived in ring \<open>i\<close> and has not been evicted, oldest first while nothing has.\<close>

definition accounted_for :: "pipe_run \<Rightarrow> nat \<Rightarrow> bytes list" where
  "accounted_for s i = pr_handled s i @ frames_of (pr_hand s i) @ queued i (pr_pl s)"

definition lane_ok :: "pipe_run \<Rightarrow> nat \<Rightarrow> bool" where
  "lane_ok s i \<longleftrightarrow>
     mset (arrivals s i) = mset (accounted_for s i) + mset (pr_lost s i) \<and>
     (pr_lost s i = [] \<longrightarrow> arrivals s i = accounted_for s i) \<and>
     rg_dropped (pl_rings (pr_pl s) ! i) = of_nat (length (pr_lost s i))"

definition topic_of :: "(bytes \<Rightarrow> message option) \<Rightarrow> bytes \<Rightarrow> string option" where
  "topic_of parse packet =
     (case parse packet of
        Some (Content_data_message d) \<Rightarrow> Some (makeCompositeKey (dm_topic_name d) (dm_message_type d))
      | _ \<Rightarrow> None)"

definition routed_ok :: "(bytes \<Rightarrow> message option) \<Rightarrow> registry \<Rightarrow> nat \<times> bytes \<Rightarrow> bool" where
  "routed_ok parse reg a \<longleftrightarrow> (case topic_of parse (snd a) of None \<Rightarrow> True | Some k \<Rightarrow> fst a = topic_shard reg k)"

definition pipe_inv :: "(bytes \<Rightarrow> message option) \<Rightarrow> pipe_run \<Rightarrow> bool" where
  "pipe_inv parse s \<longleftrightarrow> pipeline_inv (pr_pl s) \<and> (\<forall>i < length (pl_rings (pr_pl s)). lane_ok s i) \<and>
     (\<forall>a \<in> set (pr_arrived s). routed_ok parse (pl_registry (pr_pl s)) a)"

lemma topic_shard_same: "workerCount reg = workerCount reg' \<Longrightarrow> topic_shard reg k = topic_shard reg' k"
  by (simp add: topic_shard_def)

lemma routed_ok_same: "workerCount reg = workerCount reg' \<Longrightarrow> routed_ok parse reg a = routed_ok parse reg' a"
  by (auto simp: routed_ok_def topic_shard_same [of reg reg'] split: option.split)

lemma publish_changes: "ring_inv r \<Longrightarrow> \<not> rg_closed r \<Longrightarrow> publish x r \<noteq> r"
  using publish_open(4,5) [of r x] arg_cong [of "publish x r" r "\<lambda>r. (length (ring_list r), rg_dropped r)"]
  by (cases "ring_len r < ring_cap r") (auto simp: lmo_publish_def dest: arg_cong [of _ _ length])

lemma publish_at_changes:
  assumes "pipeline_inv pl" "i < length (pl_rings pl)" "\<not> rg_closed (pl_rings pl ! i)"
  shows "publish_at i f pl \<noteq> pl"
proof
  assume "publish_at i f pl = pl"
  then have "pl_rings (publish_at i f pl) ! i = pl_rings pl ! i" by simp
  then have "publish f (pl_rings pl ! i) = pl_rings pl ! i" using assms(2) by (simp add: publish_at_def)
  with publish_changes [OF pipeline_inv_ring [OF assms(1,2)] assms(3)] show False by blast
qed

text \<open>An open ring shows which publish it was.\<close>

lemma publish_at_inj:
  assumes "pipeline_inv pl" "i < length (pl_rings pl)" "\<not> rg_closed (pl_rings pl ! i)"
    and "publish_at i f pl = publish_at j g pl"
  shows "i = j"
proof (rule ccontr)
  assume "i \<noteq> j"
  then have "publish f (pl_rings pl ! i) = pl_rings pl ! i"
    using assms(2) publish_at_other [of i j g pl] arg_cong [OF assms(4), of "\<lambda>p. pl_rings p ! i"]
    by (simp add: publish_at_def)
  with publish_changes [OF pipeline_inv_ring [OF assms(1,2)] assms(3)] show False by blast
qed

lemma arrive_inv:
  assumes "pipe_inv parse s" "i < length (pl_rings (pr_pl s))" "\<not> rg_closed (pl_rings (pr_pl s) ! i)"
    and "routed_ok parse (pl_registry (pr_pl s)) (i, f)"
  shows "pipe_inv parse (arrive i f s)"
proof -
  have inv: "pipeline_inv (pr_pl s)" and lanes: "\<And>j. j < length (pl_rings (pr_pl s)) \<Longrightarrow> lane_ok s j"
    using assms(1) by (auto simp: pipe_inv_def)
  note r = publish_open [OF pipeline_inv_ring [OF inv assms(2)] assms(3), of f]
  have q: "queued i (publish_at i f (pr_pl s)) = lmo_publish (ring_cap (pl_rings (pr_pl s) ! i)) f (queued i (pr_pl s))"
    using r(4) assms(2) by (simp add: queued_def publish_at_def)
  have d: "rg_dropped (pl_rings (publish_at i f (pr_pl s)) ! i) = rg_dropped (pl_rings (pr_pl s) ! i) +
      (if length (queued i (pr_pl s)) < ring_cap (pl_rings (pr_pl s) ! i) then 0 else 1)"
    using r(5) assms(2) by (simp add: queued_def publish_at_def)
  have "0 < ring_cap (pl_rings (pr_pl s) ! i)"
    using pipeline_inv_ring [OF inv assms(2)] by (simp add: ring_inv_def)
  then have ne: "queued i (pr_pl s) = hd (queued i (pr_pl s)) # tl (queued i (pr_pl s))"
    if "\<not> length (queued i (pr_pl s)) < ring_cap (pl_rings (pr_pl s) ! i)"
    using that by (cases "queued i (pr_pl s)") auto
  have "lane_ok (arrive i f s) j" if j: "j < length (pl_rings (pr_pl s))" for j
  proof (cases "j = i")
    case False
    then show ?thesis
      using lanes [OF j] publish_at_other [of j i f "pr_pl s"]
      by (simp add: lane_ok_def arrive_def arrivals_def accounted_for_def queued_def)
  next
    case True
    have "mset (queued i (pr_pl s)) = add_mset (hd (queued i (pr_pl s))) (mset (tl (queued i (pr_pl s))))"
      if "\<not> length (queued i (pr_pl s)) < ring_cap (pl_rings (pr_pl s) ! i)"
      using ne [OF that] by (metis mset.simps(2))
    then show ?thesis
      using lanes [OF assms(2)] q d True
      by (auto simp: lane_ok_def arrive_def arrivals_def accounted_for_def lmo_publish_def)
  qed
  then show ?thesis
    using assms(1,4) publish_at_inv [OF inv assms(2)] by (auto simp: pipe_inv_def arrive_def)
qed

lemma received_routed_ok:
  assumes v: "view mem buf (buf + of_nat (length dgram)) dgram" "length dgram \<le> recvBufferSize"
    and "canonical parse (drop magicNumberSize dgram)"
    and pl: "pipeline_inv pl" "i < length (pl_rings pl)" "\<not> rg_closed (pl_rings pl ! i)"
    and h: "handleReceivedDatagram parse mem buf (length dgram) pl = Handled (publish_at i (drop magicNumberSize dgram) pl)"
  shows "routed_ok parse (pl_registry pl) (i, drop magicNumberSize dgram)"
proof (cases "topic_of parse (drop magicNumberSize dgram)")
  case (Some k)
  let ?packet = "drop magicNumberSize dgram"
  obtain d where d: "parse ?packet = Some (Content_data_message d)"
    "k = makeCompositeKey (dm_topic_name d) (dm_message_type d)"
    using Some by (auto simp: topic_of_def split: option.splits message.splits)
  then have lay: "data_layout ?packet (dm_topic_name d) (dm_message_type d)" "dm_topic_name d \<noteq> []" "dm_message_type d \<noteq> []"
    using assms(3) by (simp_all add: canonical_def)
  have open_i: "publish_at i ?packet pl \<noteq> pl" by (rule publish_at_changes [OF pl])
  with h have n: "magicNumberSize \<le> length dgram" and m: "from_big_endian (bytes_at mem buf 4) = MAGIC_NUMBER_VALUE"
    by (auto simp: handleReceivedDatagram_def Let_def split: if_splits)
  have pv: "view mem (buf + of_nat magicNumberSize) (buf + of_nat magicNumberSize + of_nat (length ?packet)) ?packet"
    using view_drop [OF v(1) n] n by (simp add: algebra_simps of_nat_diff)
  have "bytes_at mem (buf + of_nat magicNumberSize) (length dgram - magicNumberSize) = ?packet"
    using bytes_at_view [of mem _ _ ?packet "[]"] pv by simp
  moreover have "tryReadRoutingKey mem (buf + of_nat magicNumberSize) (of_nat (length ?packet)) = Some (Route (Some k))"
    using layout_routed [OF pv _ lay] v(2) d(2) by simp
  ultimately have "handleReceivedDatagram parse mem buf (length dgram) pl = Handled (publish_at (topic_shard (pl_registry pl) k) ?packet pl)"
    using n m by (simp add: handleReceivedDatagram_def Let_def publish_routed_def)
  with h have "publish_at i ?packet pl = publish_at (topic_shard (pl_registry pl) k) ?packet pl" by simp
  from publish_at_inj [OF pl this] Some show ?thesis by (simp add: routed_ok_def)
qed (simp add: routed_ok_def)

lemma pipe_inv_step:
  assumes "pipe_step types parse buf s t" "pipe_inv parse s"
  shows "pipe_inv parse t"
  using assms(1)
proof cases
  case (pr_received dgram mem frame i)
  have "pipeline_inv (pr_pl s)" using assms(2) by (simp add: pipe_inv_def)
  from received_routed_ok [OF pr_received(2,3) _ this pr_received(6,7)] pr_received(4,5,8)
  have "routed_ok parse (pl_registry (pr_pl s)) (i, frame)" by simp
  from arrive_inv [OF assms(2) pr_received(6,7) this] show ?thesis by (simp only: pr_received(1))
next
  case (pr_popped i f r')
  have inv: "pipeline_inv (pr_pl s)" using assms(2) by (simp add: pipe_inv_def)
  note ri = pipeline_inv_ring [OF inv pr_popped(3)]
  have "queued i (pr_pl s) \<noteq> []" using pop_items [OF ri] pr_popped(4) by (auto simp: queued_def split: if_splits)
  then obtain x q where q: "queued i (pr_pl s) = x # q" by (cases "queued i (pr_pl s)") auto
  with pop_turn(2) [OF ri, of x q] pr_popped(4)
  have r': "x = f" "ring_inv r'" "ring_list r' = q" "rg_dropped r' = rg_dropped (pl_rings (pr_pl s) ! i)"
    by (auto simp: queued_def)
  then have "lane_ok t j" if "j < length (pl_rings (pr_pl s))" for j
    using assms(2) that pr_popped(1-3) q
    by (cases "j = i") (auto simp: pipe_inv_def lane_ok_def arrivals_def accounted_for_def queued_def frames_of_def)
  then show ?thesis
    using assms(2) pipeline_inv_update [OF inv r'(2), of i] by (simp add: pipe_inv_def pr_popped(1))
next
  case (pr_handles i f now out reg)
  then have reg: "has_shards reg = has_shards (pl_registry (pr_pl s))" "workerCount reg = workerCount (pl_registry (pr_pl s))"
    using parse_workerCount parse_keeps(1) by (auto simp: worker_handle_def split: option.splits dest!: arg_cong [of _ _ snd])
  have "lane_ok t j" if "j < length (pl_rings (pr_pl s))" for j
    using assms(2) that pr_handles(1,2)
    by (cases "j = i") (auto simp: pipe_inv_def lane_ok_def arrivals_def accounted_for_def queued_def frames_of_def)
  then show ?thesis
    using assms(2) routed_ok_same [OF reg(2)] reg by (auto simp: pipe_inv_def pr_handles(1) pipeline_inv_def)
next
  case (pr_registry reg)
  then show ?thesis
    using assms(2) routed_ok_same [OF pr_registry(3)]
    by (auto simp: pipe_inv_def pipeline_inv_def lane_ok_def arrivals_def accounted_for_def queued_def)
next
  case (pr_closed i)
  have inv: "pipeline_inv (pr_pl s)" using assms(2) by (simp add: pipe_inv_def)
  have r: "ring_inv (ring_close r) = ring_inv r" "ring_list (ring_close r) = ring_list r" "rg_dropped (ring_close r) = rg_dropped r"
    for r :: "bytes spsc_ring" by (simp_all add: ring_close_def ring_inv_def ring_list_def ring_pos_def)
  have "lane_ok t j" if "j < length (pl_rings (pr_pl s))" for j
    using assms(2) that pr_closed
    by (cases "j = i") (auto simp: pipe_inv_def lane_ok_def arrivals_def accounted_for_def queued_def r)
  then show ?thesis
    using assms(2) pipeline_inv_update [OF inv, of "ring_close (pl_rings (pr_pl s) ! i)" i] pipeline_inv_ring [OF inv pr_closed(2)]
    by (simp add: pipe_inv_def pr_closed(1) r)
qed

lemma pipe_inv_start: "pipe_start s \<Longrightarrow> pipe_inv parse s"
  by (simp add: pipe_start_def pipe_inv_def lane_ok_def arrivals_def accounted_for_def frames_of_def)

interpretation pipe_runs: invariant_system pipe_start "pipe_step types parse buf" "pipe_inv parse"
  for types :: "string \<Rightarrow> (bytes \<Rightarrow> 'm option) option" and parse buf
  by unfold_locales (auto intro: pipe_inv_start pipe_inv_step)

section \<open>Order and conservation\<close>

lemma topic_lane:
  assumes "pipe_inv parse s" "i = topic_shard (pl_registry (pr_pl s)) k"
  shows "filter (\<lambda>f. topic_of parse f = Some k) (map snd (pr_arrived s)) = filter (\<lambda>f. topic_of parse f = Some k) (arrivals s i)"
proof -
  have "\<forall>a \<in> set (pr_arrived s). topic_of parse (snd a) = Some k \<longrightarrow> fst a = i"
    using assms by (auto simp: pipe_inv_def routed_ok_def)
  then have "filter (\<lambda>a. topic_of parse (snd a) = Some k) (pr_arrived s) =
      filter (\<lambda>a. topic_of parse (snd a) = Some k) (filter (\<lambda>a. fst a = i) (pr_arrived s))"
    by (auto simp: filter_filter intro: filter_cong)
  then show ?thesis by (simp add: arrivals_def filter_map comp_def)
qed

lemma other_lane:
  assumes "pipe_inv parse s" "j < length (pl_rings (pr_pl s))" "j \<noteq> topic_shard (pl_registry (pr_pl s)) k" "f \<in> set (pr_handled s j)"
  shows "topic_of parse f \<noteq> Some k"
proof -
  have "lane_ok s j" using assms(1,2) by (simp add: pipe_inv_def)
  then have "f \<in># mset (arrivals s j)" using assms(4) by (simp add: lane_ok_def accounted_for_def)
  then have "(j, f) \<in> set (pr_arrived s)" by (auto simp: arrivals_def)
  then show ?thesis using assms(1,3) by (auto simp: pipe_inv_def routed_ok_def)
qed


text \<open>Two frames of one topic arrive and the worker takes the first.\<close>

definition demo_packet_2 :: bytes where
  "demo_packet_2 = field 3 ([] @ field 2 (bytes_of ''t'') @ field 3 (bytes_of ''M'') @ field 4 [9]) @ []"

definition demo_parse :: "bytes \<Rightarrow> message option" where
  "demo_parse packet = (if packet = demo_packet \<or> packet = demo_packet_2 then Some (Content_data_message demo_message) else None)"

definition demo_run :: pipe_run where
  "demo_run = \<lparr>pr_pl = demo_pipeline, pr_hand = \<lambda>_. None, pr_arrived = [], pr_handled = \<lambda>_. [], pr_lost = \<lambda>_. []\<rparr>"

lemma demo_message_names: "dm_topic_name demo_message = ''t''" "dm_message_type demo_message = ''M''"
  by (simp_all add: demo_message_def stamped_def)

lemma demo_arrival:
  fixes types :: "string \<Rightarrow> (bytes \<Rightarrow> 'm option) option"
  assumes "packet = demo_packet \<or> packet = demo_packet_2" "workerCount (pl_registry (pr_pl s)) = 1"
    and "length (pl_rings (pr_pl s)) = 1" "\<not> rg_closed (pl_rings (pr_pl s) ! 0)"
  shows "pipe_step types demo_parse 0 s (arrive 0 packet s)"
proof -
  let ?dgram = "big_endian MAGIC_NUMBER_VALUE @ packet"
  have lay: "data_layout packet ''t'' ''M''"
    using assms(1) unfolding data_layout_def demo_packet_def demo_packet_2_def
    by (elim disjE) (intro exI [of _ "[]"], simp, intro exI [of _ "[]"] exI [of _ "field 4 [9]"], simp)
  have l: "length packet \<le> 20" using assms(1) by (auto simp: demo_packet_def demo_packet_2_def field_def enc_varint.simps)
  then have v: "view (memory_of ?dgram) 0 (0 + of_nat (length ?dgram)) ?dgram"
    using memory_of_view [of ?dgram] by simp
  have shard: "topic_shard (pl_registry (pr_pl s)) key = 0" for key
    using shardIndex_less [of 1] by (simp add: topic_shard_def assms(2))
  have "handleReceivedDatagram demo_parse (memory_of ?dgram) 0 (length ?dgram) (pr_pl s) =
      Handled (publish_at 0 packet (pr_pl s))"
    using data_frame_routed [OF v _ _ lay, of demo_parse "pr_pl s"] l by (simp add: shard recvBufferSize_def)
  then show ?thesis
    using v l lay assms demo_message_names
    by (intro pr_received [where dgram = ?dgram and mem = "memory_of ?dgram"])
      (auto simp: recvBufferSize_def magicNumberSize_def canonical_def demo_parse_def)
qed


end
