(* ===== verification/Spec2Isabelle.thy ===== *)
theory Spec2Isabelle
  imports Edriel_Window Edriel_Ring Edriel_Service Edriel_Registry Edriel_Wire Edriel_Send Edriel_Pipeline Edriel_Dial Edriel_Node Edriel_System
    Edriel_Sweep Edriel_Streams Edriel_Examples Edriel_Link Edriel_Drain Edriel_Order
begin

text \<open>
  A model of the Edriel publish/subscribe library (directory \<open>src/Edriel\<close>) and the properties that
  make it correct.

  A node discovers its peers over UDP multicast, carries best-effort topics over the same socket
  and reliable topics over gRPC streams that the subscriber opens. Received datagrams are
  routed by one receiver to the ring of one of \<open>N\<close> shards; the worker of a shard decodes and dispatches them
  to the shard's part of the registry. A reliable send stamps a message with the next number of its topic and
  offers it to the bounded outbox of every subscriber's stream; at the other end one thread per
  dialed publisher reads the stream and passes the frames to an exactly-once window. A strand runs the
  heartbeat and the cleanup, and the cleanup keeps the set of dialed publishers up to date.

  Theories, in the order of the program's layers:

  \<^item> \<open>Edriel_Prelude\<close>: ordered maps as sorted association lists (\<open>std::map\<close>, \<open>std::set\<close>; the
    unordered map of peers too, since the code only looks up, inserts and erases in it),
    the locales of step systems and of keyed stores, facts on 64-bit words. \<open>Edriel_Std\<close>, \<open>Edriel_Double\<close>
    and \<open>Edriel_Stod\<close>: the pieces of the C++ standard library the code relies on: decimal
    rendering and parsing, IEEE double rounding, \<open>std::stod\<close>.
  \<^item> \<open>Edriel_Ring\<close> (\<open>EdrielRing.hpp\<close>): the ring as a record of slots and 64-bit positions; refinement of a
    list, accounting of every frame, no lost wake-up.
  \<^item> \<open>Edriel_Keys\<close>, \<open>Edriel_Proto\<close>: composite keys, hashing, rendered addresses; the protobuf messages as records.
  \<^item> \<open>Edriel_Config\<close> (\<open>EdrielConfig.cpp\<close>): every parser and every branch of \<open>loadConfig\<close> on a YAML document; any
    file yields a valid configuration.
  \<^item> \<open>Edriel_Window\<close> (\<open>handleReliableDataFrame\<close>, \<open>noteReliableStreamEstablished\<close>): the
    reorder and duplicate window per publisher and topic.
  \<^item> \<open>Edriel_Outbox\<close>, \<open>Edriel_Service\<close> (\<open>EdrielGrpcService.cpp\<close>): one stream with its critical
    sections and gRPC callbacks interleaved as steps, and the table of streams.
  \<^item> \<open>Edriel_Registry\<close>: the sharded registry, its message handlers, the timeout cleanup and the registration
    of topics; the shards are shown to be invisible by refinement of one flat registry.
  \<^item> \<open>Edriel_Wire\<close>: the pointer walk over raw bytes that finds the routing key, on a memory of bytes with
    addresses modulo \<open>2 ^ 64\<close>; the magic number and \<open>sendPacket\<close>.
  \<^item> \<open>Edriel_Send\<close>: pacing, \<open>tryPublishReliable\<close>, \<open>publishData\<close>, \<open>sendMessage\<close>.
  \<^item> \<open>Edriel_Pipeline\<close>: the receive handler, the drain of the socket and the workers.
  \<^item> \<open>Edriel_Dial\<close> (\<open>reconcileReliableConnections\<close>, \<open>EdrielReliableClient.cpp\<close>): the set of dialed publishers,
    and the thread of one connection as a machine that \<open>stop\<close> may interrupt anywhere.
  \<^item> \<open>Edriel_Node\<close>: the constructor, advertised endpoints, the timer chains, start and stop.
  \<^item> \<open>Edriel_System\<close>: all of these operations as the steps of one node, in any order, and the joint invariant.
    Operations that take several locks appear whole and as their critical sections.
  \<^item> \<open>Edriel_Sweep\<close>: \<open>removeTimedOutParticipants\<close> as one critical section per shard and round, with the
    handlers, registrations and reliable frames of other threads in between: what it does undisturbed, what it
    never does to a living peer, and what a peer loses that comes back during it.
  \<^item> \<open>Edriel_Streams\<close>: the table of streams cut at \<open>subsMutex_\<close> and \<open>m_\<close>: one live stream per subscriber, a race of
    two dials, and a reliable send that other threads interrupt between its pushes.
  \<^item> \<open>Edriel_Link\<close>: one topic from \<open>tryPublishReliable\<close> through the stream's critical sections, the client's reads and the
    receive window to the callbacks, in every interleaving: exactly once and in order, under back-pressure.
  \<^item> \<open>Edriel_Drain\<close>: the same link makes progress (a measure bounds the pending work of all threads, and when it is done
    everything sent has been dispatched) and refines a channel of two lists.
  \<^item> \<open>Edriel_Order\<close>: the receiver, the workers, the registry and the shutdown in every interleaving: frames are conserved
    and the messages of a topic are handled in the order in which they arrived.
  \<^item> \<open>Edriel_Examples\<close> (\<open>examples/publisher.cpp\<close>, \<open>examples/subscriber.cpp\<close>, \<open>main.cpp\<close>): the programs on top
    of the library, and that the first two work together.
  \<^item> This theory: a publisher and a subscriber together, over several sends, reconnections and lost frames.

  State is passed explicitly. A method that another thread can interrupt is cut at its critical sections
  and the cuts are the steps of an inductive relation; a method that runs under one lock is one function.
  Blocking shows as a value (\<open>Blocked\<close>, \<open>Worker_waits\<close>), exceptions and endless loops of the receiver
  as the cases \<open>Receiver_killed\<close> and \<open>Receiver_stuck\<close>. The pointer walk is a partial function that yields
  \<open>None\<close> if it does not end; all other recursion is structural or has a measure. The clock readings of a worker's turns serve as its fuel: the
  theorems on shutdown ask for one more than its ring holds frames and prove that this is enough. The bound
  in \<open>stop_joins\<close> is seven turns plus one for each call that still succeeds.

  Parameters: the protobuf codec (with the hypothesis that parsing inverts serializing, or that the encoding
  puts the fields in order, where a property needs it), the YAML parser, the generated message types,
  the datagrams of the kernel, the clock, the interfaces of the machine, and every answer of gRPC. A
  property with such a hypothesis is followed by a witness in which it holds.

  Not modelled. Reads behind the end of a buffer and pointer overflow are undefined in C++; the model gives
  them the flat memory of the hardware. The iteration order of the unordered map of peers is that of
  the uid, which no handler observes except through the order of a list of stale peers. A critical
  section has one clock reading, where the code reads the clock once per peer. A reconciliation reads the
  shards in one state, and the node of \<open>Edriel_System\<close> runs each gRPC callback as a whole (their sections are interleaved in
  \<open>Edriel_Outbox\<close> for one stream and in \<open>Edriel_Streams\<close> for the table). Data races on plain members
  (\<open>initialised_\<close> is written without the lock under which \<open>OnCancel\<close> reads it) have no semantics here. Socket options, exceptions
  of asio in the constructor, log output, thread creation, the benchmarks and the tests are left out; so
  is the gRPC runtime, whose callbacks and answers are inputs. \<open>droppedFrames\<close> of the kernel is the number the kernel reports.
\<close>

section \<open>A publisher and a subscriber\<close>

text \<open>Several sends on one topic, with the deliverability map of each.\<close>

fun publish_all ::
  "(data_message \<Rightarrow> bytes option) \<Rightarrow> string \<Rightarrow> string \<Rightarrow> registry \<Rightarrow> (bytes \<times> int) list \<Rightarrow> sender \<Rightarrow>
   (string, OutboxStatus) omap list \<times> sender"
where
  "publish_all ser tn mt reg [] sd = ([], sd)"
| "publish_all ser tn mt reg ((payload, now) # sends) sd =
     (case tryPublishReliable ser tn mt payload now reg sd of (res, deliv, calls, sd') \<Rightarrow>
        (case publish_all ser tn mt reg sends sd' of (ds, sd'') \<Rightarrow> (deliv # ds, sd'')))"

text \<open>The messages with consecutive sequence numbers after \<open>n\<close>.\<close>

fun stamped_from :: "string \<Rightarrow> string \<Rightarrow> registry \<Rightarrow> u64 \<Rightarrow> (bytes \<times> int) list \<Rightarrow> data_message list" where
  "stamped_from tn mt reg n [] = []"
| "stamped_from tn mt reg n ((payload, now) # sends) =
     stamped tn mt payload (n + 1) reg # stamped_from tn mt reg (n + 1) sends"

text \<open>What is queued for a subscriber that accepts every send.\<close>

lemma publish_all_pending:
  assumes "registry_inv reg" "codec_ok ser parse"
  shows "sender_inv sd \<Longrightarrow> publish_all ser tn mt reg sends sd = (ds, sd') \<Longrightarrow>
    \<forall>d \<in> set ds. map_of d (key_string sk) = Some Accepted \<Longrightarrow>
    \<exists>pds. pending_of sd' sk = pending_of sd sk @ pds \<and> (\<forall>pd \<in> set pds. pd_reliable_data pd \<noteq> []) \<and>
      map (\<lambda>pd. parse (pd_reliable_data pd)) pds =
        map Some (stamped_from tn mt reg (reliablePublisherSeq (makeCompositeKey tn mt) sd) sends)"
proof (induction sends arbitrary: sd ds)
  case (Cons send sends)
  obtain payload now where send: "send = (payload, now)" by fastforce
  obtain res deliv calls sd1 where r: "tryPublishReliable ser tn mt payload now reg sd = (res, deliv, calls, sd1)"
    using prod_cases4 by blast
  obtain ds1 where ds1: "publish_all ser tn mt reg sends sd1 = (ds1, sd')" "ds = deliv # ds1"
    using Cons.prems(2) by (auto simp: send r split: prod.splits)
  let ?n = "reliablePublisherSeq (makeCompositeKey tn mt) sd"
  have acc: "map_of deliv (key_string sk) = Some Accepted" using Cons.prems(3) ds1(2) by simp
  note eff = publish_effect [OF assms(1) Cons.prems(1) r, unfolded Let_def]
  then have inv: "sender_inv sd1" and n: "reliablePublisherSeq (makeCompositeKey tn mt) sd1 = ?n + 1"
    using acc by auto
  from eff have "if map_of deliv (key_string sk) = Some Accepted
      then \<exists>s. ser (stamped tn mt payload (?n + 1) reg) = Some s \<and> length s \<le> recvBufferSize \<and>
             pending_of sd1 sk = pending_of sd sk @ [empty_pd\<lparr>pd_reliable_data := s\<rparr>]
      else pending_of sd1 sk = pending_of sd sk" by blast
  with acc obtain s where s: "ser (stamped tn mt payload (?n + 1) reg) = Some s"
    "pending_of sd1 sk = pending_of sd sk @ [empty_pd\<lparr>pd_reliable_data := s\<rparr>]" by auto
  from Cons.IH [OF inv ds1(1)] Cons.prems(3) ds1(2) obtain pds where
    "pending_of sd' sk = pending_of sd1 sk @ pds" "\<forall>pd \<in> set pds. pd_reliable_data pd \<noteq> []"
    "map (\<lambda>pd. parse (pd_reliable_data pd)) pds = map Some (stamped_from tn mt reg (?n + 1) sends)"
    by (auto simp: n)
  with s assms(2) show ?case
    by (intro exI [of _ "empty_pd\<lparr>pd_reliable_data := s\<rparr> # pds"]) (auto simp: send codec_ok_def)
qed simp

lemma node_events_append:
  "node_events parse u (es @ es') st =
     (fst (node_events parse u es st) @ fst (node_events parse u es' (snd (node_events parse u es st))),
      snd (node_events parse u es' (snd (node_events parse u es st))))"
proof (induction es arbitrary: st)
  case (Cons e es)
  then show ?case by (cases e) (simp_all add: case_prod_beta)
qed simp

lemma node_events_receive:
  "\<forall>pd \<in> set pds. pd_reliable_data pd \<noteq> [] \<Longrightarrow>
   map (\<lambda>pd. parse (pd_reliable_data pd)) pds = map Some ms \<Longrightarrow>
   node_events parse u (map Delivered pds) st = receive_all ms st"
proof (induction pds arbitrary: ms st)
  case (Cons pd pds)
  then obtain m ms' where ms: "ms = m # ms'" "parse (pd_reliable_data pd) = Some m"
    "map (\<lambda>pd. parse (pd_reliable_data pd)) pds = map Some ms'" by (cases ms) auto
  then show ?case
    using Cons by (auto simp: handleReliableDataFrame_def split: prod.splits)
qed simp

text \<open>A window that expects the next number delivers a consecutive stream as it comes.\<close>

lemma receive_consecutive:
  "uid_of_reg = own_uid reg \<Longrightarrow> uid_of_reg \<notin> reliableFreshPublishers st \<Longrightarrow>
   window_at st (window_key uid_of_reg (makeCompositeKey tn mt)) = w \<Longrightarrow>
   nextExpected w = n + 1 \<Longrightarrow> rx_buffer w = [] \<Longrightarrow> unat n + length sends < 2 ^ 64 - 1 \<Longrightarrow>
   fst (receive_all (stamped_from tn mt reg n sends) st) = stamped_from tn mt reg n sends"
proof (induction sends arbitrary: n st w)
  case (Cons send sends)
  obtain payload now where send: "send = (payload, now)" by fastforce
  let ?m = "stamped tn mt payload (n + 1) reg" and ?k = "window_key uid_of_reg (makeCompositeKey tn mt)"
  have n: "unat (n + 1) = Suc (unat n)"
    using Cons.prems(6) by (intro unat_Suc_u64) (auto simp: unsigned_minus_1_eq_mask mask_eq_exp_minus_1)
  have "unat (n + 1) \<noteq> unat (- 1 :: u64)"
    using Cons.prems(6) n by (simp add: unsigned_minus_1_eq_mask mask_eq_exp_minus_1)
  then have "n + 1 \<noteq> - 1" by metis
  then have d: "window_accept ?m w = ([?m], w\<lparr>nextExpected := n + 1 + 1, rx_buffer := []\<rparr>)"
    using Cons.prems(4,5) by (simp add: accept_expected deliver_def advance_eq)
  have start: "start_window ?m st = w" using Cons.prems(1-3) by (simp add: start_window_def)
  have "fst (receive_all (stamped_from tn mt reg (n + 1) sends) (snd (receive_data ?m st))) =
      stamped_from tn mt reg (n + 1) sends"
    by (rule Cons.IH [OF Cons.prems(1), where w = "w\<lparr>nextExpected := n + 1 + 1, rx_buffer := []\<rparr>"])
      (use Cons.prems n in \<open>simp_all add: window_at_receive start d\<close>)
  then show ?case
    by (simp add: send split: prod.splits)
      (metis Cons.prems(1) d fst_conv fst_receive_data snd_conv start append_Cons append_Nil)
qed simp

lemma receive_stream:
  assumes "unat n + length sends < 2 ^ 64 - 1"
  shows "fst (receive_all (stamped_from tn mt reg n sends) (noteReliableStreamEstablished (own_uid reg) st)) =
    stamped_from tn mt reg n sends"
proof (cases sends)
  case (Cons send rest)
  obtain payload now where send: "send = (payload, now)" by fastforce
  let ?m = "stamped tn mt payload (n + 1) reg" and ?st = "noteReliableStreamEstablished (own_uid reg) st"
  have n: "unat (n + 1) = Suc (unat n)"
    using assms Cons by (intro unat_Suc_u64) (auto simp: unsigned_minus_1_eq_mask mask_eq_exp_minus_1)
  then have "unat (n + 1) \<noteq> unat (- 1 :: u64)"
    using assms Cons by (simp add: unsigned_minus_1_eq_mask mask_eq_exp_minus_1)
  then have "advance (n + 1) = n + 1 + 1" using advance_eq by metis
  with receive_after_note [of ?m st] have first: "fst (receive_data ?m ?st) = [?m]"
    "nextExpected (window_at (snd (receive_data ?m ?st)) (window_key (own_uid reg) (makeCompositeKey tn mt))) = n + 1 + 1"
    "rx_buffer (window_at (snd (receive_data ?m ?st)) (window_key (own_uid reg) (makeCompositeKey tn mt))) = []"
    "own_uid reg \<notin> reliableFreshPublishers (snd (receive_data ?m ?st))"
    by (simp_all add: Let_def)
  have "fst (receive_all (stamped_from tn mt reg (n + 1) rest) (snd (receive_data ?m ?st))) =
      stamped_from tn mt reg (n + 1) rest"
    by (rule receive_consecutive [OF refl first(4) refl first(2,3)]) (use assms Cons n in simp)
  with first(1) show ?thesis by (auto simp: Cons send split: prod.splits)
qed simp

text \<open>
  C1. End to end: a subscriber that accepts every send of a sequence on a reliable topic has
  the published frames queued on its stream, in order; and when its connection has read them on a
  freshly established stream, after any number of earlier streams, the receiving node has
  dispatched for that stream exactly the published messages, each once, in the order they were
  published, whatever its windows held before and whatever the publisher's counter is.
\<close>

theorem reliable_end_to_end:
  assumes "registry_inv reg" "sender_inv sd" "codec_ok ser parse"
    and "publish_all ser tn mt reg sends sd = (ds, sd')"
    and "\<forall>d \<in> set ds. map_of d (key_string sk) = Some Accepted"
    and "unat (reliablePublisherSeq (makeCompositeKey tn mt) sd) + length sends < 2 ^ 64 - 1"
  shows "\<exists>pds. pending_of sd' sk = pending_of sd sk @ pds \<and>
    fst (node_events parse (own_uid reg) (streams_trace (earlier @ [pds])) st) =
      fst (node_events parse (own_uid reg) (streams_trace earlier) st) @
      stamped_from tn mt reg (reliablePublisherSeq (makeCompositeKey tn mt) sd) sends"
proof -
  let ?ms = "stamped_from tn mt reg (reliablePublisherSeq (makeCompositeKey tn mt) sd) sends"
  from publish_all_pending [OF assms(1,3,2,4,5)] obtain pds where
    pds: "pending_of sd' sk = pending_of sd sk @ pds" "\<forall>pd \<in> set pds. pd_reliable_data pd \<noteq> []"
    "map (\<lambda>pd. parse (pd_reliable_data pd)) pds = map Some ?ms" by blast
  have "streams_trace [pds] = Established # map Delivered pds" by (simp add: streams_trace_def)
  then show ?thesis
    using pds(1) node_events_receive [OF pds(2,3)] receive_stream [OF assms(6)]
    by (intro exI [of _ pds]) (simp add: streams_trace_append node_events_append)
qed

theorem reliable_end_to_end_witness:
  "\<exists>pds. map dm_payload (fst (node_events tid_decoder 99 (streams_trace [pds]) no_windows)) = [[7], [8]] \<and>
     pending_of (snd (publish_all demo_codec ''t'' ''M'' demo_registry [([7], 0), ([8], 0)] (demo_sender False)))
       (SubscriberKey 1 0 11) = pending_of (demo_sender False) (SubscriberKey 1 0 11) @ pds"
proof -
  let ?sends = "[([7], 0), ([8], 0)]"
  obtain ds sd' where r: "publish_all demo_codec ''t'' ''M'' demo_registry ?sends (demo_sender False) = (ds, sd')"
    by fastforce
  have "fst (publish_all demo_codec ''t'' ''M'' demo_registry ?sends (demo_sender False)) =
      replicate 2 [(''1:0:11'', Accepted), (''2:0:22'', Accepted)]" by code_simp
  moreover have "key_string (SubscriberKey 1 0 11) = ''1:0:11''" by code_simp
  ultimately have acc: "\<forall>d \<in> set ds. map_of d (key_string (SubscriberKey 1 0 11)) = Some Accepted"
    by (simp only: r fst_conv) simp
  have n: "reliablePublisherSeq (makeCompositeKey ''t'' ''M'') (demo_sender False) = 0"
    by (simp add: reliablePublisherSeq_def demo_sender_def new_sender_def)
  have own: "own_uid demo_registry = 99" by code_simp
  have "unat (reliablePublisherSeq (makeCompositeKey ''t'' ''M'') (demo_sender False)) + length ?sends < 2 ^ 64 - 1"
    by (simp add: n)
  from reliable_end_to_end [OF demo_registry_inv demo_sender_inv demo_codec_ok r acc this, of "[]" no_windows]
  obtain pds where "pending_of sd' (SubscriberKey 1 0 11) = pending_of (demo_sender False) (SubscriberKey 1 0 11) @ pds"
    "fst (node_events tid_decoder 99 (streams_trace [pds]) no_windows) =
      stamped_from ''t'' ''M'' demo_registry 0 ?sends" by (auto simp: n own streams_trace_def)
  then show ?thesis unfolding r snd_conv by (intro exI [of _ pds]) (simp add: stamped_def)
qed

section \<open>A subscriber at its high-water mark\<close>

text \<open>
  C36. Partial acceptance leaves a permanent gap. When one subscriber accepts a frame and another
  is at its high-water mark, the send returns Sent and its number is committed; the refused
  subscriber is never offered that number again, its next accepted frame carries the number
  after it, and a receive window that expects the missing number delivers nothing from then
  on, however many frames follow.
\<close>

theorem partial_acceptance_gap:
  assumes "registry_inv reg" "registry_inv reg'" "sender_inv sd" "sender_inv (sd1\<lparr>sd_service := sv\<rparr>)"
    and first: "tryPublishReliable ser tn mt p1 now1 reg sd = (res1, d1, c1, sd1)"
      "map_of d1 (key_string a) = Some Accepted" "map_of d1 (key_string b) = Some Backpressured"
    and second: "tryPublishReliable ser tn mt p2 now2 reg' (sd1\<lparr>sd_service := sv\<rparr>) = (res2, d2, c2, sd2)"
      "map_of d2 (key_string b) = Some Accepted"
    and n: "n = reliablePublisherSeq (makeCompositeKey tn mt) sd" "n + 1 \<noteq> 0" "n + 2 \<noteq> 0"
  shows "res1 = Sent \<and> pending_of sd1 b = pending_of sd b \<and>
    (\<exists>s. ser (stamped tn mt p2 (n + 2) reg') = Some s \<and>
       pending_of sd2 b = pending_of (sd1\<lparr>sd_service := sv\<rparr>) b @ [empty_pd\<lparr>pd_reliable_data := s\<rparr>]) \<and>
    (\<forall>ms. (\<forall>m \<in> set ms. tid_of m \<noteq> n + 1) \<longrightarrow>
       fst (window_run (stamped tn mt p2 (n + 2) reg' # ms) \<lparr>nextExpected = n + 1, rx_buffer = []\<rparr>) = [])"
proof -
  let ?key = "makeCompositeKey tn mt" and ?sd = "sd1\<lparr>sd_service := sv\<rparr>"
  let ?m = "stamped tn mt p2 (n + 2) reg'" and ?w = "\<lparr>nextExpected = n + 1, rx_buffer = []\<rparr>"
  note e1 = publish_effect [OF assms(1,3) first(1), unfolded Let_def]
  note e2 = publish_effect [OF assms(2,4) second(1), unfolded Let_def]
  have res1: "res1 = Sent" using e1 first(2) by blast
  have b1: "pending_of sd1 b = pending_of sd b" using e1 first(3) by (metis OutboxStatus.distinct(1) option.inject)
  have "reliablePublisherSeq ?key ?sd + 1 = n + 2"
    using e1 res1 n(1) by (simp add: reliablePublisherSeq_def)
  then have b2: "\<exists>s. ser ?m = Some s \<and> pending_of sd2 b = pending_of ?sd b @ [empty_pd\<lparr>pd_reliable_data := s\<rparr>]"
    using e2 second(2) by metis
  have less: "n + 1 < n + 2" and one: "n + 2 - (n + 1) = 1"
    using less_plus_one [of "n + 1"] n(3) by (auto simp: add.assoc eq_neg_iff_add_eq_0)
  have inv: "window_inv ?w" by (simp add: window_inv_empty)
  have w: "window_accept ?m ?w = ([], ?w\<lparr>rx_buffer := om_emplace (n + 2) ?m []\<rparr>)"
    using accept_ahead [OF inv] n(2) less one by (simp add: kReliableWindowSize_def)
  have "fst (window_run ms (?w\<lparr>rx_buffer := om_emplace (n + 2) ?m []\<rparr>)) = []"
    if "\<forall>m \<in> set ms. tid_of m \<noteq> n + 1" for ms
  proof -
    have "window_inv (?w\<lparr>rx_buffer := om_emplace (n + 2) ?m []\<rparr>)"
      using window_inv_accept [OF inv, of ?m] by (simp add: w)
    from window_run_stalled [OF this] that show ?thesis by (simp add: om_emplace_def)
  qed
  with w res1 b1 b2 show ?thesis by (simp split: prod.splits)
qed

theorem partial_acceptance_gap_witness:
  "fst (window_run (map (\<lambda>t. stamped ''t'' ''M'' [8] t demo_registry) [2, 3, 4, 5])
     \<lparr>nextExpected = 1, rx_buffer = []\<rparr>) = []"
proof -
  let ?first = "tryPublishReliable tid_codec ''t'' ''M'' [7] 0 demo_registry (demo_sender True)"
  let ?sd1 = "snd (snd (snd ?first))\<lparr>sd_service := Some (demo_service False)\<rparr>"
  let ?second = "tryPublishReliable tid_codec ''t'' ''M'' [8] 0 demo_registry ?sd1"
  obtain res1 d1 c1 sd1 where r1: "?first = (res1, d1, c1, sd1)" using prod_cases4 by blast
  obtain res2 d2 c2 sd2 where r2: "?second = (res2, d2, c2, sd2)" using prod_cases4 by blast
  have "fst (snd ?first) = [(''1:0:11'', Accepted), (''2:0:22'', Backpressured)]"
    "fst (snd ?second) = [(''1:0:11'', Accepted), (''2:0:22'', Accepted)]" by code_simp+
  note evaluated = this
  have r2': "tryPublishReliable tid_codec ''t'' ''M'' [8] 0 demo_registry
      (sd1\<lparr>sd_service := Some (demo_service False)\<rparr>) = (res2, d2, c2, sd2)"
    using r2 unfolding r1 snd_conv .
  have d: "d1 = [(''1:0:11'', Accepted), (''2:0:22'', Backpressured)]"
    "d2 = [(''1:0:11'', Accepted), (''2:0:22'', Accepted)]"
    using evaluated [unfolded r1 fst_conv snd_conv r2'] by simp_all
  have k: "key_string (SubscriberKey 1 0 11) = ''1:0:11''" "key_string (SubscriberKey 2 0 22) = ''2:0:22''"
    by code_simp+
  have inv: "sender_inv (sd1\<lparr>sd_service := Some (demo_service False)\<rparr>)"
    by (simp add: sender_inv_def demo_service_inv)
  have n: "0 = reliablePublisherSeq (makeCompositeKey ''t'' ''M'') (demo_sender True)"
    by (simp add: reliablePublisherSeq_def demo_sender_def new_sender_def)
  have a1: "map_of d1 (key_string (SubscriberKey 1 0 11)) = Some Accepted"
    and b1: "map_of d1 (key_string (SubscriberKey 2 0 22)) = Some Backpressured"
    and b2: "map_of d2 (key_string (SubscriberKey 2 0 22)) = Some Accepted"
    by (simp_all add: d k)
  have "(0 :: u64) + 1 \<noteq> 0" "(0 :: u64) + 2 \<noteq> 0" by simp_all
  from partial_acceptance_gap [OF demo_registry_inv demo_registry_inv demo_sender_inv inv r1 a1 b1 r2' b2 n this]
  have "\<forall>ms. (\<forall>m \<in> set ms. tid_of m \<noteq> 0 + 1) \<longrightarrow>
    fst (window_run (stamped ''t'' ''M'' [8] (0 + 2) demo_registry # ms) \<lparr>nextExpected = 0 + 1, rx_buffer = []\<rparr>) = []"
    by blast
  moreover have "\<forall>m \<in> set (map (\<lambda>t. stamped ''t'' ''M'' [8] t demo_registry) [3, 4, 5]). tid_of m \<noteq> 0 + 1"
    by auto
  ultimately have "fst (window_run (stamped ''t'' ''M'' [8] (0 + 2) demo_registry #
      map (\<lambda>t. stamped ''t'' ''M'' [8] t demo_registry) [3, 4, 5]) \<lparr>nextExpected = 0 + 1, rx_buffer = []\<rparr>) = []"
    by blast
  then show ?thesis by (simp del: window_run.simps)
qed

section \<open>Streams dialed at a seed\<close>

text \<open>
  Frames of one window key, read from streams that were established under another uid: once a
  gap has opened, nothing is delivered.
\<close>

lemma window_at_note:
  "window_at (noteReliableStreamEstablished v st) (window_key u k) =
     (if u = v \<and> map_of (reliableWindows st) (window_key u k) \<noteq> None
      then reset_window (window_at st (window_key u k)) else window_at st (window_key u k))"
  by (cases "map_of (reliableWindows st) (window_key u k)")
    (auto simp: window_at_def noteReliableStreamEstablished_def map_of_reset_publisher window_key_prefix_iff)

definition stalled :: "u64 \<Rightarrow> string \<Rightarrow> u64 \<Rightarrow> rx_state \<Rightarrow> bool" where
  "stalled u k n st \<longleftrightarrow> rx_inv st \<and> u \<notin> reliableFreshPublishers st \<and>
     rx_buffer (window_at st (window_key u k)) \<noteq> [] \<and> nextExpected (window_at st (window_key u k)) = n"

lemma stalled_frame:
  assumes "stalled u k n st" "window_key_of m = window_key u k" "tid_of m \<noteq> n"
  shows "fst (receive_data m st) = [] \<and> stalled u k n (snd (receive_data m st))"
proof -
  have u: "uid_of m = u" using assms(2) by (simp add: window_key_of_def window_key_eq_iff)
  have w: "start_window m st = window_at st (window_key u k)"
    using assms(1,2) u by (simp add: start_window_def stalled_def)
  have "window_inv (window_at st (window_key u k))" using assms(1) by (simp add: stalled_def rx_inv_def)
  from window_run_stalled [OF this, of "[m]"] assms(1,3)
  have "fst (window_accept m (window_at st (window_key u k))) = []"
    "rx_buffer (snd (window_accept m (window_at st (window_key u k)))) \<noteq> []"
    "nextExpected (snd (window_accept m (window_at st (window_key u k)))) = n"
    by (auto simp: stalled_def split: prod.splits)
  then show ?thesis
    using assms(1,2) rx_inv_receive [of st m] by (simp add: fst_receive_data w stalled_def window_at_receive)
qed

lemma stalled_note: "stalled u k n st \<Longrightarrow> v \<noteq> u \<Longrightarrow> stalled u k n (noteReliableStreamEstablished v st)"
  by (simp add: stalled_def rx_inv_note window_at_note) (simp add: noteReliableStreamEstablished_def)

definition reads :: "(bytes \<Rightarrow> data_message option) \<Rightarrow> string \<Rightarrow> u64 \<Rightarrow> participant_data \<Rightarrow> bool" where
  "reads parse key n pd \<longleftrightarrow> pd_reliable_data pd \<noteq> [] \<and>
     (case parse (pd_reliable_data pd) of None \<Rightarrow> False | Some m \<Rightarrow> window_key_of m = key \<and> tid_of m \<noteq> n)"

lemma stalled_events:
  "stalled u k n st \<Longrightarrow> v \<noteq> u \<Longrightarrow>
   \<forall>e \<in> set es. case e of Established \<Rightarrow> True | Delivered pd \<Rightarrow> reads parse (window_key u k) n pd \<Longrightarrow>
   fst (node_events parse v es st) = [] \<and> stalled u k n (snd (node_events parse v es st))"
proof (induction es arbitrary: st)
  case (Cons e es)
  show ?case
  proof (cases e)
    case Established
    then show ?thesis using Cons stalled_note [OF Cons.prems(1,2)] by simp
  next
    case (Delivered pd)
    then obtain m where m: "pd_reliable_data pd \<noteq> []" "parse (pd_reliable_data pd) = Some m"
      "window_key_of m = window_key u k" "tid_of m \<noteq> n"
      using Cons.prems(3) by (auto simp: reads_def split: option.splits)
    note f = stalled_frame [OF Cons.prems(1) m(3,4)]
    have "fst (node_events parse v es (snd (receive_data m st))) = [] \<and>
        stalled u k n (snd (node_events parse v es (snd (receive_data m st))))"
      by (rule Cons.IH) (use f Cons.prems in simp_all)
    then show ?thesis using f m Delivered by (simp add: handleReliableDataFrame_def case_prod_beta)
  qed
qed simp

text \<open>
  C37. A publisher that is reached through a configured seed does not survive a gap. The seed is dialed under
  a key made of the hash of its endpoint, and a new stream re-baselines the windows of that
  key's uid; the frames, however, carry the publisher's own uid. So when the window of a topic
  expects number \<open>n\<close> and the first frame that a stream brings is ahead of it (but within 256), because frames were lost while
  the connection was down or because the publisher had been sending before the first connection, nothing of the
  topic is ever delivered again, over any number of reconnections and frames, unless the lost
  number itself arrives.
\<close>
theorem seed_stream_stalls:
  assumes "rx_inv st" "u \<notin> reliableFreshPublishers st"
    and "nextExpected (window_at st (window_key u k)) = n" "n \<noteq> 0" "rx_buffer (window_at st (window_key u k)) = []"
    and "sk_uid (peerKeyForEndpoint seed) \<noteq> u"
    and "pd_reliable_data first \<noteq> []" "parse (pd_reliable_data first) = Some m"
      "window_key_of m = window_key u k" "in_window n m"
    and "\<forall>pds \<in> set (later # reconnects). \<forall>pd \<in> set pds. reads parse (window_key u k) n pd"
    and "subscribed \<noteq> {}" "seed \<in> set (cf_peerEndpoints (reg_config reg))"
  shows "(peerKeyForEndpoint seed, [seed]) \<in> set (dial_targets reg subscribed) \<and>
    fst (node_events parse (sk_uid (peerKeyForEndpoint seed)) (streams_trace ((first # later) # reconnects)) st) = []"
proof -
  let ?v = "sk_uid (peerKeyForEndpoint seed)"
  let ?st = "noteReliableStreamEstablished ?v st"
  have w: "window_at ?st (window_key u k) = window_at st (window_key u k)" using assms(6) by (simp add: window_at_note)
  have fresh: "u \<notin> reliableFreshPublishers ?st"
    using assms(2,6) by (simp add: noteReliableStreamEstablished_def)
  have u: "uid_of m = u" using assms(9) by (simp add: window_key_of_def window_key_eq_iff)
  have start: "start_window m ?st = window_at st (window_key u k)"
    using fresh u assms(9) w by (simp add: start_window_def)
  have "window_inv (window_at st (window_key u k))" using assms(1) by (simp add: rx_inv_def)
  from accept_buffers [OF this, of m] assms(3,4,10)
  have acc: "window_accept m (window_at st (window_key u k)) =
      ([], (window_at st (window_key u k))\<lparr>rx_buffer := om_emplace (tid_of m) m []\<rparr>)"
    using assms(5) by (simp add: in_window_def)
  have s: "stalled u k n (snd (receive_data m ?st))"
    using rx_inv_receive [OF rx_inv_note [OF assms(1)], of m ?v] fresh assms(3,9)
    by (simp add: stalled_def window_at_receive start acc om_emplace_def)
  have none: "fst (receive_data m ?st) = []" by (simp add: fst_receive_data start acc)
  let ?es = "map Delivered later @ streams_trace reconnects"
  have "\<forall>e \<in> set ?es. case e of Established \<Rightarrow> True | Delivered pd \<Rightarrow> reads parse (window_key u k) n pd"
    using assms(11) by (auto simp: streams_trace_def)
  from stalled_events [OF s assms(6) this] none assms(7,8)
  have "fst (node_events parse ?v (Established # Delivered first # ?es) st) = []"
    by (simp add: handleReliableDataFrame_def case_prod_beta)
  moreover have "(peerKeyForEndpoint seed, [seed]) \<in> set (dial_targets reg subscribed)"
    using assms(12,13) by (simp add: dial_targets_def)
  ultimately show ?thesis by (simp add: streams_trace_def)
qed

text \<open>A subscriber configured with the seed, and the frames 9, 10 and 11 that reach it first.\<close>

definition seeded_registry :: registry where
  "seeded_registry = (fresh_registry 1)\<lparr>reg_config := default_config\<lparr>cf_peerEndpoints := [''h:1'']\<rparr>\<rparr>"

definition frame_pd :: "u64 \<Rightarrow> participant_data" where
  "frame_pd t = empty_pd\<lparr>pd_reliable_data := [ucast t]\<rparr>"

definition frame_parse :: "bytes \<Rightarrow> data_message option" where
  "frame_parse bs = (case bs of [] \<Rightarrow> None | t # _ \<Rightarrow> Some (topic_frame 7 ''t'' (ucast t)))"

theorem seed_stream_stalls_witness:
  "fst (node_events frame_parse (sk_uid (peerKeyForEndpoint ''h:1''))
     (streams_trace [[frame_pd 9, frame_pd 10], [frame_pd 11, frame_pd 9]]) no_windows) = []"
proof -
  let ?k = "makeCompositeKey ''t'' ''M''"
  have "sk_uid (peerKeyForEndpoint ''h:1'') \<noteq> 7" by code_simp
  moreover have "\<forall>pds \<in> set ([frame_pd 10] # [[frame_pd 11, frame_pd 9]]). \<forall>pd \<in> set pds. reads frame_parse (window_key 7 ?k) 1 pd"
    by (simp add: reads_def frame_pd_def frame_parse_def)
  moreover have "in_window 1 (topic_frame 7 ''t'' 9)" by (simp add: in_window_def kReliableWindowSize_def)
  moreover have "''h:1'' \<in> set (cf_peerEndpoints (reg_config seeded_registry))" by (simp add: seeded_registry_def)
  ultimately show ?thesis
    using seed_stream_stalls [of no_windows 7 ?k 1 "''h:1''" "frame_pd 9" frame_parse "topic_frame 7 ''t'' 9"
      "[frame_pd 10]" "[[frame_pd 11, frame_pd 9]]" "{''x''}" seeded_registry]
    by (simp add: no_windows_def window_at_def new_window_def frame_pd_def frame_parse_def
      rx_inv_no_windows [unfolded no_windows_def])
qed

end
